(* ===== verification/Prelude.thy ===== *)
theory Prelude
  imports Complex_Main "HOL-Library.Word" "HOL-Library.AList"
begin

unbundle bit_operations_syntax

text \<open>
  Shared vocabulary of the development: Python values and dictionaries, byte strings with
  Python slicing and big-endian integers, exceptions as values, sequencing of operations that
  may raise, and the generic list and dictionary lemmas every component uses.

  Python's unbounded integers are \<^typ>\<open>int\<close>; a dictionary is an association list in
  insertion order (\<open>AList.update\<close> replaces in place or appends, as Python does), so that
  iteration order is the source's; \<open>bytes\<close> is a list of 8-bit words.
\<close>

named_theorems bytes_simps \<open>slicing and big-endian decoding of byte strings\<close>
named_theorems dict_simps \<open>lookup and update of insertion-ordered dictionaries\<close>

section \<open>Exceptions and Python values\<close>

datatype exn = ValueError | TypeError | KeyError | ZeroDivisionError | StructError
  | AssertionError | OSError
  | External string

datatype pyval = PNone | PBool bool | PInt int | PFloat rat | PStr string

type_synonym pydict = "(string \<times> pyval) list"

text \<open>\<open>bool\<close>, \<open>int\<close> and \<open>float\<close> compare numerically in Python, whatever their classes.\<close>

fun py_number :: "pyval \<Rightarrow> rat option" where
  "py_number (PBool b) = Some (if b then 1 else 0)"
| "py_number (PInt n) = Some (of_int n)"
| "py_number (PFloat x) = Some x"
| "py_number _ = None"

definition py_eq :: "pyval \<Rightarrow> pyval \<Rightarrow> bool" where
  "py_eq a b = (case (py_number a, py_number b) of
      (Some x, Some y) \<Rightarrow> x = y
    | (None, None) \<Rightarrow> a = b
    | _ \<Rightarrow> False)"

lemma py_eq_refl [simp]: "py_eq a a"
  by (cases a) (simp_all add: py_eq_def)

lemma py_eq_sym: "py_eq a b = py_eq b a"
  by (cases a; cases b) (auto simp: py_eq_def)

text \<open>\<open>d.get(k)\<close>: a missing key reads as \<open>None\<close>.\<close>

definition py_get :: "pydict \<Rightarrow> string \<Rightarrow> pyval" where
  "py_get d k = (case map_of d k of None \<Rightarrow> PNone | Some v \<Rightarrow> v)"

abbreviation dict_set :: "'k \<Rightarrow> 'v \<Rightarrow> ('k \<times> 'v) list \<Rightarrow> ('k \<times> 'v) list" where
  "dict_set \<equiv> AList.update"

abbreviation dict_keys :: "('k \<times> 'v) list \<Rightarrow> 'k list" where
  "dict_keys d \<equiv> map fst d"

lemma map_of_dict_set [simp, dict_simps]:
  "map_of (dict_set k v d) k' = (if k = k' then Some v else map_of d k')"
  by (simp add: update_conv)

lemma py_get_dict_set [simp, dict_simps]:
  "py_get (dict_set k v d) k' = (if k = k' then v else py_get d k')"
  by (simp add: py_get_def)

lemma py_get_Nil [simp, dict_simps]: "py_get [] k = PNone"
  by (simp add: py_get_def)

lemma dict_keys_set [dict_simps]:
  "dict_keys (dict_set k v d) = (if k \<in> set (dict_keys d) then dict_keys d else dict_keys d @ [k])"
  by (induction d) auto

lemma length_dict_set [dict_simps]:
  "length (dict_set k v d) = (if k \<in> set (dict_keys d) then length d else Suc (length d))"
proof -
  have "length (dict_keys (dict_set k v d))
      = (if k \<in> set (dict_keys d) then length d else Suc (length d))"
    by (simp only: dict_keys_set) simp
  then show ?thesis by simp
qed

lemma distinct_dict_set: "distinct (dict_keys d) \<Longrightarrow> distinct (dict_keys (dict_set k v d))"
  by (simp add: dict_keys_set)

lemma fst_set_dict_set [simp]: "fst ` set (dict_set k v d) = insert k (fst ` set d)"
  by (induction d) auto

lemma map_of_None_iff_keys: "map_of d k = None \<longleftrightarrow> k \<notin> set (dict_keys d)"
  by (simp add: map_of_eq_None_iff)

lemma map_of_Some_keys: "map_of d k = Some v \<Longrightarrow> k \<in> set (dict_keys d)"
  by (auto dest: map_of_SomeD intro: rev_image_eqI)

lemma in_keys_map_of: "k \<in> set (dict_keys d) \<Longrightarrow> \<exists>v. map_of d k = Some v"
  by (metis map_of_None_iff_keys not_None_eq)

section \<open>Byte strings\<close>

type_synonym byte = "8 word"
type_synonym bytes = "byte list"

text \<open>Python slicing \<open>xs[i:j]\<close>: negative indices count from the end, then both are clipped.\<close>

definition slice_index :: "'a list \<Rightarrow> int \<Rightarrow> nat" where
  "slice_index xs i =
     (let n = int (length xs); j = (if i < 0 then i + n else i) in nat (max 0 (min n j)))"

definition py_slice :: "'a list \<Rightarrow> int \<Rightarrow> int \<Rightarrow> 'a list" where
  "py_slice xs i j =
     take (slice_index xs j - slice_index xs i) (drop (slice_index xs i) xs)"

lemma py_slice_nonneg [bytes_simps]:
  assumes "0 \<le> i" "0 \<le> j"
  shows "py_slice xs i j = take (nat j - nat i) (drop (nat i) xs)"
proof (cases "int (length xs) \<le> i")
  case True
  with assms show ?thesis by (simp add: py_slice_def slice_index_def)
next
  case False
  with assms have i: "slice_index xs i = nat i"
    by (simp add: slice_index_def)
  have "take (slice_index xs j - nat i) (drop (nat i) xs) = take (nat j - nat i) (drop (nat i) xs)"
  proof (cases "int (length xs) \<le> j")
    case True
    with assms have "slice_index xs j = length xs" by (simp add: slice_index_def)
    with True show ?thesis by simp
  next
    case False
    with assms show ?thesis by (simp add: slice_index_def)
  qed
  with i show ?thesis by (simp add: py_slice_def)
qed

lemma length_py_slice_nonneg [bytes_simps]:
  assumes "0 \<le> i" "i \<le> j" "j \<le> int (length xs)"
  shows "int (length (py_slice xs i j)) = j - i"
  using assms by (simp add: py_slice_nonneg)

lemma py_slice_append [bytes_simps]:
  assumes "int (length xs) = i" "j = i + int (length ys)"
  shows "py_slice (xs @ ys @ zs) i j = ys"
  using assms by (auto simp: py_slice_nonneg nat_add_distrib)

text \<open>\<open>int.from_bytes(b, "big")\<close> and its inverse, the \<open>n\<close>-byte big-endian encoding.\<close>

fun be_int :: "bytes \<Rightarrow> int" where
  "be_int [] = 0"
| "be_int (b # bs) = uint b * 256 ^ length bs + be_int bs"

fun to_be :: "nat \<Rightarrow> int \<Rightarrow> bytes" where
  "to_be 0 v = []"
| "to_be (Suc n) v = word_of_int (v div 256 ^ n) # to_be n v"

lemma be_int_nonneg [simp]: "0 \<le> be_int bs"
  by (induction bs) auto

lemma be_int_bound: "be_int bs < 256 ^ length bs"
proof (induction bs)
  case Nil
  then show ?case by simp
next
  case (Cons b bs)
  have "uint b + 1 \<le> 256"
    using uint_lt2p [of b] by simp
  then have "(uint b + 1) * 256 ^ length bs \<le> (256 :: int) * 256 ^ length bs"
    by (rule mult_right_mono) simp
  moreover have "be_int (b # bs) < (uint b + 1) * 256 ^ length bs"
    using Cons by (simp add: distrib_right)
  ultimately have "be_int (b # bs) < 256 * 256 ^ length bs"
    by (rule order_less_le_trans [rotated])
  then show ?case by simp
qed

lemma length_to_be [simp]: "length (to_be n v) = n"
  by (induction n) auto

lemma be_int_to_be [simp]: "be_int (to_be n v) = v mod 256 ^ n"
proof (induction n)
  case 0
  then show ?case by simp
next
  case (Suc n)
  have "uint (word_of_int (v div 256 ^ n) :: byte) = (v div 256 ^ n) mod 256"
    by (simp add: uint_word_of_int)
  then have "be_int (to_be (Suc n) v) = (v div 256 ^ n mod 256) * 256 ^ n + v mod 256 ^ n"
    using Suc.IH by simp
  also have "\<dots> = v mod (256 ^ n * 256)"
    by (subst zmod_zmult2_eq) (simp_all add: mult.commute)
  finally show ?case by (simp add: mult.commute)
qed

text \<open>\<open>struct.pack\<close> of one unsigned big-endian field: out of range it raises \<open>struct.error\<close>.\<close>

definition pack_uint :: "nat \<Rightarrow> int \<Rightarrow> exn + bytes" where
  "pack_uint n v = (if 0 \<le> v \<and> v < 256 ^ n then Inr (to_be n v) else Inl StructError)"

lemma pack_uint_Inr [bytes_simps]:
  "pack_uint n v = Inr bs \<longleftrightarrow> 0 \<le> v \<and> v < 256 ^ n \<and> bs = to_be n v"
  by (auto simp: pack_uint_def)

text \<open>Two's-complement reading of a \<open>w\<close>-bit unsigned value, as \<open>struct.unpack(">q")\<close> does.\<close>

definition to_signed :: "nat \<Rightarrow> int \<Rightarrow> int" where
  "to_signed w v = (if 2 ^ (w - 1) \<le> v then v - 2 ^ w else v)"

lemma to_signed_encode:
  assumes "0 < w" "- (2 ^ (w - 1)) \<le> n" "n < 2 ^ (w - 1)"
  shows "to_signed w (n mod 2 ^ w) = n"
proof -
  have w: "(2::int) ^ w = 2 * 2 ^ (w - 1)"
    using assms(1) by (cases w) auto
  show ?thesis
  proof (cases "0 \<le> n")
    case True
    with assms w have "n mod 2 ^ w = n" by simp
    with assms show ?thesis by (simp add: to_signed_def)
  next
    case False
    have "n mod 2 ^ w = (n + 2 ^ w) mod 2 ^ w" by simp
    also have "\<dots> = n + 2 ^ w" using False assms w by (intro mod_pos_pos_trivial) auto
    finally show ?thesis using False assms w by (simp add: to_signed_def)
  qed
qed

section \<open>Sequencing operations that may raise\<close>

text \<open>
  \<open>(exn option, state, world)\<close> is the outcome of a method that returns nothing: the exception
  it raised, if any, with the state it left behind. \<open>and_then\<close> runs the next statement only
  when the one before it did not raise.
\<close>

type_synonym ('s, 'w) outcome = "exn option \<times> 's \<times> 'w"

definition and_then :: "('s, 'w) outcome \<Rightarrow> ('s \<Rightarrow> 'w \<Rightarrow> ('s, 'w) outcome) \<Rightarrow> ('s, 'w) outcome" where
  "and_then r f = (case r of (Some e, s, w) \<Rightarrow> (Some e, s, w) | (None, s, w) \<Rightarrow> f s w)"

lemma and_then_None [simp]: "and_then (None, s, w) f = f s w"
  by (simp add: and_then_def)

lemma and_then_Some [simp]: "and_then (Some e, s, w) f = (Some e, s, w)"
  by (simp add: and_then_def)

text \<open>\<open>exn + 'a\<close> is the outcome of a pure function that may raise; \<open>sbind\<close> propagates the error.\<close>

definition sbind :: "exn + 'a \<Rightarrow> ('a \<Rightarrow> exn + 'b) \<Rightarrow> exn + 'b" where
  "sbind r f = (case r of Inl e \<Rightarrow> Inl e | Inr a \<Rightarrow> f a)"

lemma sbind_simps [simp]: "sbind (Inl e) f = Inl e" "sbind (Inr a) f = f a"
  by (simp_all add: sbind_def)

lemma sbind_Inr_iff: "sbind r f = Inr b \<longleftrightarrow> (\<exists>a. r = Inr a \<and> f a = Inr b)"
  by (cases r) auto

text \<open>\<open>(exn + 'a) \<times> 'g\<close> is the outcome of a function that returns a value and may log.\<close>

definition ebind :: "(exn + 'a) \<times> 'g \<Rightarrow> ('a \<Rightarrow> 'g \<Rightarrow> (exn + 'b) \<times> 'g) \<Rightarrow> (exn + 'b) \<times> 'g" where
  "ebind r f = (case r of (Inl e, g) \<Rightarrow> (Inl e, g) | (Inr a, g) \<Rightarrow> f a g)"

lemma ebind_Inr [simp]: "ebind (Inr a, g) f = f a g"
  by (simp add: ebind_def)

lemma ebind_Inl [simp]: "ebind (Inl e, g) f = (Inl e, g)"
  by (simp add: ebind_def)

section \<open>Decimal strings\<close>

definition digit_char :: "nat \<Rightarrow> char" where
  "digit_char d = char_of (48 + d)"

fun nat_str :: "nat \<Rightarrow> string" where
  "nat_str n = (if n < 10 then [digit_char n] else nat_str (n div 10) @ [digit_char (n mod 10)])"

declare nat_str.simps [simp del]

section \<open>Splitting a list into equal chunks\<close>

function chunks_of :: "nat \<Rightarrow> 'a list \<Rightarrow> 'a list list" where
  "chunks_of n xs = (if n = 0 \<or> xs = [] then [] else take n xs # chunks_of n (drop n xs))"
  by pat_completeness auto
termination
  by (relation "measure (\<lambda>(n, xs). length xs)") auto

declare chunks_of.simps [simp del]

lemma chunks_of_Nil [simp]: "chunks_of n [] = []"
  by (simp add: chunks_of.simps)

lemma chunks_of_append:
  assumes "n dvd length xs" "0 < n"
  shows "chunks_of n (xs @ ys) = chunks_of n xs @ chunks_of n ys"
  using assms
proof (induction n xs rule: chunks_of.induct)
  case (1 n xs)
  show ?case
  proof (cases "xs = []")
    case True
    then show ?thesis by simp
  next
    case False
    with "1.prems" have le: "n \<le> length xs"
      by (auto intro: dvd_imp_le)
    with "1.prems" have "n dvd length (drop n xs)" by simp
    with "1.IH" "1.prems" False
    have "chunks_of n (drop n xs @ ys) = chunks_of n (drop n xs) @ chunks_of n ys" by simp
    with False le "1.prems"(2) show ?thesis
      by (simp add: chunks_of.simps [of n "xs @ ys"] chunks_of.simps [of n xs])
  qed
qed

lemma length_chunks_of:
  assumes "n dvd length xs" "0 < n"
  shows "length (chunks_of n xs) = length xs div n"
  using assms
proof (induction n xs rule: chunks_of.induct)
  case (1 n xs)
  show ?case
  proof (cases "xs = []")
    case True
    then show ?thesis by simp
  next
    case False
    with "1.prems" have le: "n \<le> length xs"
      by (auto intro: dvd_imp_le)
    with "1.prems" have "n dvd length (drop n xs)" by simp
    with "1.IH" "1.prems" False have "length (chunks_of n (drop n xs)) = (length xs - n) div n"
      by simp
    with False le "1.prems"(2) show ?thesis
      by (simp add: chunks_of.simps [of n xs] le_div_geq)
  qed
qed

fun adjacent_pairs :: "'a list \<Rightarrow> ('a \<times> 'a) list" where
  "adjacent_pairs (x # y # zs) = (x, y) # adjacent_pairs zs"
| "adjacent_pairs _ = []"

lemma adjacent_pairs_append:
  "even (length xs) \<Longrightarrow> adjacent_pairs (xs @ ys) = adjacent_pairs xs @ adjacent_pairs ys"
  by (induction xs rule: adjacent_pairs.induct) auto

lemma length_adjacent_pairs: "length (adjacent_pairs xs) = length xs div 2"
  by (induction xs rule: adjacent_pairs.induct) auto

end
