(* ===== verification/Formats.thy ===== *)
theory Formats
  imports Prelude
begin

text \<open>
  \<open>formats.py\<close>: the constants of the wire format (word0 flag positions, field sizes, CIF0 bits,
  data item formats, radix constants) and \<open>header_length\<close>. The tables \<open>FIELD_SIZE\<close> and
  \<open>ITEM_FORMAT_DTYPES\<close> are dictionaries in the source's order.
\<close>

section \<open>Packet types and word0 flags\<close>

definition PACKET_TYPE_IF_DATA :: int where "PACKET_TYPE_IF_DATA = 1"
definition PACKET_TYPE_IF_CONTEXT :: int where "PACKET_TYPE_IF_CONTEXT = 4"

definition W0_PACKET_TYPE_SHIFT :: nat where "W0_PACKET_TYPE_SHIFT = 28"
definition W0_CLASS_ID_BIT :: nat where "W0_CLASS_ID_BIT = 27"
definition W0_TRAILER_BIT :: nat where "W0_TRAILER_BIT = 26"
definition W0_TSI_SHIFT :: nat where "W0_TSI_SHIFT = 22"
definition W0_TSF_SHIFT :: nat where "W0_TSF_SHIFT = 20"
definition W0_COUNTER_SHIFT :: nat where "W0_COUNTER_SHIFT = 16"
definition W0_PACKET_SIZE_MASK :: int where "W0_PACKET_SIZE_MASK = 0xFFFF"

definition PACKET_TYPES_WITH_STREAM_ID :: "int list" where
  "PACKET_TYPES_WITH_STREAM_ID = [1, 3, 4, 5]"

definition WORD0_SIZE :: int where "WORD0_SIZE = 4"
definition STREAM_ID_SIZE :: int where "STREAM_ID_SIZE = 4"
definition CLASS_ID_SIZE :: int where "CLASS_ID_SIZE = 8"
definition INT_TS_SIZE :: int where "INT_TS_SIZE = 4"
definition FRAC_TS_SIZE :: int where "FRAC_TS_SIZE = 8"
definition TRAILER_SIZE :: int where "TRAILER_SIZE = 4"

lemmas word0_layout =
  W0_PACKET_TYPE_SHIFT_def W0_CLASS_ID_BIT_def W0_TRAILER_BIT_def W0_TSI_SHIFT_def
  W0_TSF_SHIFT_def W0_COUNTER_SHIFT_def W0_PACKET_SIZE_MASK_def

lemmas size_defs =
  WORD0_SIZE_def STREAM_ID_SIZE_def CLASS_ID_SIZE_def INT_TS_SIZE_def FRAC_TS_SIZE_def
  TRAILER_SIZE_def

definition header_length :: "bool \<Rightarrow> bool \<Rightarrow> int \<Rightarrow> int \<Rightarrow> int" where
  "header_length has_stream_id has_class_id tsi tsf =
     WORD0_SIZE
     + (if has_stream_id then STREAM_ID_SIZE else 0)
     + (if has_class_id then CLASS_ID_SIZE else 0)
     + (if tsi \<noteq> 0 then INT_TS_SIZE else 0)
     + (if tsf \<noteq> 0 then FRAC_TS_SIZE else 0)"

lemma header_length_bounds: "4 \<le> header_length s c i f" "header_length s c i f \<le> 28"
  by (simp_all add: header_length_def size_defs)

lemma header_length_word_aligned: "header_length s c i f mod 4 = 0"
  by (simp add: header_length_def size_defs)

section \<open>Context indicator fields\<close>

definition CONTEXT_FIELD_CHANGE_BIT :: nat where "CONTEXT_FIELD_CHANGE_BIT = 31"
definition CIF_BANDWIDTH :: nat where "CIF_BANDWIDTH = 29"
definition CIF_RF_REF_FREQ :: nat where "CIF_RF_REF_FREQ = 27"
definition CIF_GAIN :: nat where "CIF_GAIN = 23"
definition CIF_SAMPLE_RATE :: nat where "CIF_SAMPLE_RATE = 21"
definition CIF_DATA_PAYLOAD_FORMAT :: nat where "CIF_DATA_PAYLOAD_FORMAT = 15"
definition CIF_FORMATTED_GPS :: nat where "CIF_FORMATTED_GPS = 14"
definition CIF_ECEF_EPHEMERIS :: nat where "CIF_ECEF_EPHEMERIS = 12"

lemmas cif_bits =
  CONTEXT_FIELD_CHANGE_BIT_def CIF_BANDWIDTH_def CIF_RF_REF_FREQ_def CIF_GAIN_def
  CIF_SAMPLE_RATE_def CIF_DATA_PAYLOAD_FORMAT_def CIF_FORMATTED_GPS_def CIF_ECEF_EPHEMERIS_def

definition FIELD_SIZE :: "(nat \<times> int) list" where
  "FIELD_SIZE =
    [(30, 4), (CIF_BANDWIDTH, 8), (28, 8), (CIF_RF_REF_FREQ, 8), (26, 8), (25, 8), (24, 4),
     (CIF_GAIN, 4), (22, 4), (CIF_SAMPLE_RATE, 8), (20, 8), (19, 4), (18, 4), (17, 8), (16, 4),
     (CIF_DATA_PAYLOAD_FORMAT, 8), (CIF_FORMATTED_GPS, 44), (13, 44), (CIF_ECEF_EPHEMERIS, 52),
     (11, 52), (10, 4)]"

definition VARIABLE_LENGTH_CIF_BITS :: "nat list" where "VARIABLE_LENGTH_CIF_BITS = [9, 8]"
definition CIF_ENABLE_BITS :: "nat list" where "CIF_ENABLE_BITS = [7, 3, 2, 1]"

lemma FIELD_SIZE_keys: "dict_keys FIELD_SIZE = rev [10..<31]"
  by (simp add: FIELD_SIZE_def cif_bits upt_rec)

lemma FIELD_SIZE_pos: "map_of FIELD_SIZE b = Some sz \<Longrightarrow> 4 \<le> sz \<and> sz \<le> 52"
  by (drule map_of_SomeD) (auto simp: FIELD_SIZE_def)

text \<open>The table and the two stop sets of the source are disjoint.\<close>

lemma stop_bits_not_sized:
  "b \<in> set VARIABLE_LENGTH_CIF_BITS \<union> set CIF_ENABLE_BITS \<Longrightarrow> map_of FIELD_SIZE b = None"
  by (auto simp: VARIABLE_LENGTH_CIF_BITS_def CIF_ENABLE_BITS_def FIELD_SIZE_def cif_bits)

section \<open>Data item formats\<close>

definition ITEM_FORMAT_SIGNED_FIXED :: int where "ITEM_FORMAT_SIGNED_FIXED = 0"
definition ITEM_FORMAT_UNSIGNED_FIXED :: int where "ITEM_FORMAT_UNSIGNED_FIXED = 16"
definition ITEM_FORMAT_IEEE_FLOAT32 :: int where "ITEM_FORMAT_IEEE_FLOAT32 = 14"
definition ITEM_FORMAT_IEEE_FLOAT64 :: int where "ITEM_FORMAT_IEEE_FLOAT64 = 15"

lemmas item_formats =
  ITEM_FORMAT_SIGNED_FIXED_def ITEM_FORMAT_UNSIGNED_FIXED_def ITEM_FORMAT_IEEE_FLOAT32_def
  ITEM_FORMAT_IEEE_FLOAT64_def

definition ITEM_FORMAT_DTYPES :: "((int \<times> int) \<times> string) list" where
  "ITEM_FORMAT_DTYPES =
    [((ITEM_FORMAT_SIGNED_FIXED, 8), ''>i1''),
     ((ITEM_FORMAT_SIGNED_FIXED, 16), ''>i2''),
     ((ITEM_FORMAT_SIGNED_FIXED, 32), ''>i4''),
     ((ITEM_FORMAT_UNSIGNED_FIXED, 8), ''>u1''),
     ((ITEM_FORMAT_UNSIGNED_FIXED, 16), ''>u2''),
     ((ITEM_FORMAT_UNSIGNED_FIXED, 32), ''>u4''),
     ((ITEM_FORMAT_IEEE_FLOAT32, 32), ''>f4''),
     ((ITEM_FORMAT_IEEE_FLOAT64, 64), ''>f8'')]"

definition SUPPORTED_ITEM_FORMATS :: "int list" where
  "SUPPORTED_ITEM_FORMATS = remdups (map (fst \<circ> fst) ITEM_FORMAT_DTYPES)"
definition SUPPORTED_ITEM_BITS :: "int list" where
  "SUPPORTED_ITEM_BITS = remdups (map (snd \<circ> fst) ITEM_FORMAT_DTYPES)"

definition RC_TYPE_REAL :: int where "RC_TYPE_REAL = 0"
definition RC_TYPE_COMPLEX_CARTESIAN :: int where "RC_TYPE_COMPLEX_CARTESIAN = 1"

definition DATA_ITEM_FORMAT_FLOAT :: int where
  "DATA_ITEM_FORMAT_FLOAT = ITEM_FORMAT_IEEE_FLOAT32"
definition EXPECTED_BYTES_PER_SAMPLE :: int where "EXPECTED_BYTES_PER_SAMPLE = 8"
definition COMPONENT_DTYPE :: string where "COMPONENT_DTYPE = ''>f4''"

lemma dtype_bits:
  "map_of ITEM_FORMAT_DTYPES (fmt, bits) = Some dt \<Longrightarrow> bits \<in> {8, 16, 32, 64}"
  by (drule map_of_SomeD) (auto simp: ITEM_FORMAT_DTYPES_def)

section \<open>Radix constants\<close>

definition RADIX_FREQ_HZ :: int where "RADIX_FREQ_HZ = 2 ^ 20"
definition RADIX_GAIN_DB :: int where "RADIX_GAIN_DB = 128"
definition RADIX_GPS_DEG :: int where "RADIX_GPS_DEG = 2 ^ 22"
definition RADIX_ECEF_POS_M :: int where "RADIX_ECEF_POS_M = 2 ^ 5"
definition RADIX_ECEF_VEL_MS :: int where "RADIX_ECEF_VEL_MS = 2 ^ 16"

end
