(* ===== verification/PyFloat.thy ===== *)
theory PyFloat
  imports Prelude "HOL-Library.Log_Nat"
begin

text \<open>
  Python's \<open>float\<close>: a double is the rational number it denotes, and every operation is the exact
  one followed by \<open>fl\<close>, rounding to 53 significant bits, ties to even. The exponent range is not
  bounded: every value the pipeline computes (frequencies of 64-bit fields over \<open>2 ** 20\<close>,
  timestamps of 96 bits, sample counts, percentages) is far from the overflow and the subnormal
  range of a double (\<open>Double_Range\<close> proves it for the decoded values and the capture report).
  Infinities and NaN do not occur in these computations.

  The locale \<open>rounding\<close> states what the components use of rounding; its interpretation at the end
  discharges the laws for \<open>fl\<close>.
\<close>

section \<open>Rounding to the nearest integer, ties to even\<close>

definition round_half_even :: "rat \<Rightarrow> int" where
  "round_half_even x = (let f = \<lfloor>x\<rfloor>; d = x - of_int f in
     if d < 1 / 2 then f else if 1 / 2 < d then f + 1 else if even f then f else f + 1)"

lemma round_half_even_of_int [simp]: "round_half_even (of_int n) = n"
  by (simp add: round_half_even_def)

lemma round_half_even_bounds: "\<lfloor>x\<rfloor> \<le> round_half_even x" "round_half_even x \<le> \<lfloor>x\<rfloor> + 1"
  by (simp_all add: round_half_even_def Let_def)

lemma round_half_even_mono:
  assumes "x \<le> y"
  shows "round_half_even x \<le> round_half_even y"
proof (cases "\<lfloor>x\<rfloor> = \<lfloor>y\<rfloor>")
  case True
  with assms show ?thesis by (auto simp: round_half_even_def Let_def)
next
  case False
  with assms have "\<lfloor>x\<rfloor> + 1 \<le> \<lfloor>y\<rfloor>"
    using floor_mono [of x y] by linarith
  then show ?thesis
    using round_half_even_bounds(2) [of x] round_half_even_bounds(1) [of y] by linarith
qed

lemma round_half_even_error: "\<bar>of_int (round_half_even x) - x\<bar> \<le> 1 / 2"
  using floor_correct [of x] by (auto simp: round_half_even_def Let_def abs_le_iff)

lemma round_half_even_minus [simp]: "round_half_even (- x) = - round_half_even x"
proof (cases "x = of_int \<lfloor>x\<rfloor>")
  case True
  then show ?thesis
    by (metis of_int_minus round_half_even_of_int)
next
  case False
  then have lt: "of_int \<lfloor>x\<rfloor> < x" "x < of_int \<lfloor>x\<rfloor> + 1"
    using floor_correct [of x] by (auto simp: less_le)
  then have "\<lfloor>- x\<rfloor> = - \<lfloor>x\<rfloor> - 1"
    by (intro floor_unique) auto
  then show ?thesis
    by (auto simp: round_half_even_def Let_def)
qed

section \<open>The binary exponent\<close>

definition ilog2 :: "rat \<Rightarrow> int" where
  "ilog2 x = (if 1 \<le> x then int (floorlog 2 (nat \<lfloor>x\<rfloor>)) - 1
              else - int (floorlog 2 (nat (\<lceil>1 / x\<rceil> - 1))))"

lemma power_int_2_pos [simp]: "0 < (2 :: rat) powi e"
  by simp

lemma ilog2_bounds_ge1:
  assumes "1 \<le> x"
  shows "2 powi (ilog2 x) \<le> x" "x < 2 powi (ilog2 x + 1)"
proof -
  define m where "m = nat \<lfloor>x\<rfloor>"
  define k where "k = floorlog 2 m"
  from assms have m: "0 < m" by (simp add: m_def)
  then have b: "2 ^ (k - 1) \<le> m" "m < 2 ^ k"
    using floorlog_bounds [of m 2] by (auto simp: k_def)
  from b m have k: "0 < k" by (cases k) auto
  have le: "of_nat m \<le> x" and lt: "x < of_nat m + 1"
    using assms floor_correct [of x] by (simp_all add: m_def)
  have "(2 :: rat) ^ (k - 1) = of_nat (2 ^ (k - 1))" by simp
  also have "\<dots> \<le> of_nat m" using b(1) by (rule of_nat_mono)
  finally have 1: "2 ^ (k - 1) \<le> x" using le by (rule order_trans)
  have "of_nat (m + 1) \<le> (of_nat (2 ^ k) :: rat)"
    using b(2) by (intro of_nat_mono) simp
  with lt have 2: "x < 2 ^ k" by simp
  have e: "ilog2 x = int (k - 1)" "ilog2 x + 1 = int k"
    using assms k by (simp_all add: ilog2_def k_def m_def)
  show "2 powi (ilog2 x) \<le> x" using 1 by (simp only: e(1) power_int_of_nat)
  show "x < 2 powi (ilog2 x + 1)" using 2 by (simp only: e(2) power_int_of_nat)
qed

lemma ilog2_bounds_lt1:
  assumes "0 < x" "x < 1"
  shows "2 powi (ilog2 x) \<le> x" "x < 2 powi (ilog2 x + 1)"
proof -
  define m where "m = nat (\<lceil>1 / x\<rceil> - 1)"
  define k where "k = floorlog 2 m"
  from assms have "1 < 1 / x" by simp
  then have c: "1 < \<lceil>1 / x\<rceil>" by (simp add: less_ceiling_iff)
  then have m: "0 < m" by (simp add: m_def)
  then have b: "2 ^ (k - 1) \<le> m" "m < 2 ^ k"
    using floorlog_bounds [of m 2] by (auto simp: k_def)
  from b m have k: "0 < k" by (cases k) auto
  have "0 \<le> \<lceil>1 / x\<rceil> - 1" using c by linarith
  then have mc: "(of_nat m :: rat) = of_int \<lceil>1 / x\<rceil> - 1"
    unfolding m_def by (subst of_nat_nat) simp_all
  have lt: "of_nat m < 1 / x" and le: "1 / x \<le> of_nat m + 1"
    using ceiling_correct [of "1 / x"] unfolding mc by simp_all
  have "(2 :: rat) ^ (k - 1) = of_nat (2 ^ (k - 1))" by simp
  also have "\<dots> \<le> of_nat m" using b(1) by (rule of_nat_mono)
  finally have "2 ^ (k - 1) < 1 / x" using lt by (rule order_le_less_trans)
  with assms(1) have 1: "x < 1 / 2 ^ (k - 1)" by (simp add: field_simps)
  have "of_nat (m + 1) \<le> (of_nat (2 ^ k) :: rat)"
    using b(2) by (intro of_nat_mono) simp
  with le have "1 / x \<le> 2 ^ k" by simp
  with assms(1) have 2: "1 / 2 ^ k \<le> x" by (simp add: field_simps)
  have e: "ilog2 x = - int k" "ilog2 x + 1 = - int (k - 1)"
    using assms k by (simp_all add: ilog2_def k_def m_def)
  show "2 powi (ilog2 x) \<le> x"
    using 2 by (simp only: e(1) power_int_minus power_int_of_nat inverse_eq_divide)
  show "x < 2 powi (ilog2 x + 1)"
    using 1 by (simp only: e(2) power_int_minus power_int_of_nat inverse_eq_divide)
qed

lemma ilog2_bounds:
  assumes "0 < x"
  shows "2 powi (ilog2 x) \<le> x" "x < 2 powi (ilog2 x + 1)"
  using assms ilog2_bounds_ge1 [of x] ilog2_bounds_lt1 [of x] by (cases "1 \<le> x"; simp)+

lemma powi_2_less_imp: "(2 :: rat) powi a < 2 powi b \<Longrightarrow> a < b"
  by (metis not_less one_le_numeral power_int_increasing)

lemma ilog2_mono:
  assumes "0 < x" "x \<le> y"
  shows "ilog2 x \<le> ilog2 y"
proof -
  from assms have "2 powi (ilog2 x) < (2 :: rat) powi (ilog2 y + 1)"
    using ilog2_bounds(1) [of x] ilog2_bounds(2) [of y] by linarith
  then show ?thesis by (auto dest: powi_2_less_imp)
qed

text \<open>The same exponent by halving integers: the equation evaluation uses.\<close>

function bit_count :: "int \<Rightarrow> int" where
  "bit_count n = (if n \<le> 0 then 0 else 1 + bit_count (n div 2))"
  by pat_completeness auto
termination
  by (relation "measure nat") auto

declare bit_count.simps [simp del]

lemma bit_count_floorlog: "bit_count n = int (floorlog 2 (nat n))"
proof (induction n rule: bit_count.induct)
  case (1 n)
  show ?case
  proof (cases "n \<le> 0")
    case True
    then show ?thesis by (subst bit_count.simps) (simp add: floorlog_def)
  next
    case False
    then have "floorlog 2 (nat n) = floorlog 2 (nat (n div 2)) + 1"
      by (subst compute_floorlog) (simp add: nat_div_distrib)
    with 1 False show ?thesis by (subst bit_count.simps) simp
  qed
qed

lemma ilog2_code [code]:
  "ilog2 x = (if 1 \<le> x then bit_count \<lfloor>x\<rfloor> - 1 else - bit_count (\<lceil>1 / x\<rceil> - 1))"
  by (simp add: ilog2_def bit_count_floorlog)

section \<open>Rounding to a double\<close>

definition fl :: "rat \<Rightarrow> rat" where
  "fl x = (if x = 0 then 0
           else let e = ilog2 \<bar>x\<bar> - 52 in of_int (round_half_even (x / 2 powi e)) * 2 powi e)"

definition is_float :: "rat \<Rightarrow> bool" where
  "is_float x \<longleftrightarrow> (\<exists>m e. \<bar>m\<bar> \<le> 2 ^ 53 \<and> x = of_int m * 2 powi e)"

lemma fl_0 [simp]: "fl 0 = 0"
  by (simp add: fl_def)

lemma fl_minus [simp]: "fl (- x) = - fl x"
  by (simp add: fl_def Let_def)

lemma scaled_bounds:
  assumes "0 < x"
  shows "2 ^ 52 \<le> x / 2 powi (ilog2 x - 52)" "x / 2 powi (ilog2 x - 52) < 2 ^ 53"
proof -
  have a: "(2 :: rat) powi (ilog2 x) = 2 ^ 52 * 2 powi (ilog2 x - 52)"
    by (simp add: power_int_diff)
  have b: "(2 :: rat) powi (ilog2 x + 1) = 2 ^ 53 * 2 powi (ilog2 x - 52)"
    by (simp add: power_int_diff power_int_add)
  show "2 ^ 52 \<le> x / 2 powi (ilog2 x - 52)"
    using ilog2_bounds(1) [OF assms] unfolding a by (subst pos_le_divide_eq) simp_all
  show "x / 2 powi (ilog2 x - 52) < 2 ^ 53"
    using ilog2_bounds(2) [OF assms] unfolding b by (subst pos_divide_less_eq) simp_all
qed

lemma rounded_scaled_bounds:
  assumes "0 < x"
  shows "2 ^ 52 \<le> round_half_even (x / 2 powi (ilog2 x - 52))"
    "round_half_even (x / 2 powi (ilog2 x - 52)) \<le> 2 ^ 53"
proof -
  have "round_half_even (of_int (2 ^ 52)) \<le> round_half_even (x / 2 powi (ilog2 x - 52))"
    using scaled_bounds(1) [OF assms] by (intro round_half_even_mono) simp
  then show "2 ^ 52 \<le> round_half_even (x / 2 powi (ilog2 x - 52))"
    by (simp only: round_half_even_of_int)
  have "round_half_even (x / 2 powi (ilog2 x - 52)) \<le> round_half_even (of_int (2 ^ 53))"
    using scaled_bounds(2) [OF assms] by (intro round_half_even_mono) simp
  then show "round_half_even (x / 2 powi (ilog2 x - 52)) \<le> 2 ^ 53"
    by (simp only: round_half_even_of_int)
qed

lemma fl_pos_bounds:
  assumes "0 < x"
  shows "2 powi (ilog2 x) \<le> fl x" "fl x \<le> 2 powi (ilog2 x + 1)"
proof -
  let ?e = "ilog2 x - 52" and ?r = "round_half_even (x / 2 powi (ilog2 x - 52))"
  have fl: "fl x = of_int ?r * 2 powi ?e"
    using assms by (simp add: fl_def Let_def)
  have "of_int (2 ^ 52) \<le> (of_int ?r :: rat)" "of_int ?r \<le> (of_int (2 ^ 53) :: rat)"
    using rounded_scaled_bounds [OF assms] by (simp_all only: of_int_le_iff)
  then have "of_int (2 ^ 52) * 2 powi ?e \<le> fl x" "fl x \<le> of_int (2 ^ 53) * 2 powi ?e"
    unfolding fl by (intro mult_right_mono; simp)+
  then show "2 powi (ilog2 x) \<le> fl x" "fl x \<le> 2 powi (ilog2 x + 1)"
    by (simp_all add: power_int_diff power_int_add)
qed

lemma fl_pos: "0 < x \<Longrightarrow> 0 < fl x"
  using fl_pos_bounds(1) [of x] power_int_2_pos [of "ilog2 x"] by linarith

lemma fl_mono_pos:
  assumes "0 < x" "x \<le> y"
  shows "fl x \<le> fl y"
proof (cases "ilog2 x = ilog2 y")
  case True
  from assms have "round_half_even (x / 2 powi (ilog2 y - 52))
      \<le> round_half_even (y / 2 powi (ilog2 y - 52))"
    by (intro round_half_even_mono divide_right_mono) simp_all
  with assms True show ?thesis
    by (simp add: fl_def Let_def mult_right_mono)
next
  case False
  with ilog2_mono [OF assms] have "ilog2 x + 1 \<le> ilog2 y" by simp
  then have "(2 :: rat) powi (ilog2 x + 1) \<le> 2 powi (ilog2 y)"
    by (intro power_int_increasing) simp_all
  with fl_pos_bounds [of x] fl_pos_bounds [of y] assms show ?thesis by linarith
qed

lemma fl_mono:
  assumes "x \<le> y"
  shows "fl x \<le> fl y"
proof (cases "0 < x \<or> y < 0")
  case True
  then show ?thesis
  proof
    assume "0 < x"
    then show ?thesis using assms by (rule fl_mono_pos)
  next
    assume "y < 0"
    with assms have "fl (- y) \<le> fl (- x)" by (intro fl_mono_pos) simp_all
    then show ?thesis by simp
  qed
next
  case False
  have "fl x \<le> 0"
  proof (cases "x = 0")
    case False
    with \<open>\<not> (0 < x \<or> y < 0)\<close> have "0 < fl (- x)" by (intro fl_pos) simp
    then show ?thesis by simp
  qed simp
  moreover have "0 \<le> fl y"
    using False fl_pos [of y] by (cases "y = 0") auto
  ultimately show ?thesis by simp
qed

lemma fl_is_float: "is_float (fl x)"
proof (cases "x = 0")
  case True
  then show ?thesis by (auto simp: is_float_def intro: exI [of _ 0])
next
  case False
  then have pos: "0 < \<bar>x\<bar>" by simp
  let ?e = "ilog2 \<bar>x\<bar> - 52"
  have nn: "0 \<le> round_half_even (\<bar>x\<bar> / 2 powi ?e)"
    using rounded_scaled_bounds(1) [OF pos] by (rule order_trans [rotated]) simp
  have "\<bar>round_half_even (x / 2 powi ?e)\<bar> = round_half_even (\<bar>x\<bar> / 2 powi ?e)"
  proof (cases "0 < x")
    case True
    with nn show ?thesis by simp
  next
    case False
    with \<open>x \<noteq> 0\<close> have "round_half_even (\<bar>x\<bar> / 2 powi ?e) = - round_half_even (x / 2 powi ?e)"
      using round_half_even_minus [of "x / 2 powi ?e"] by simp
    with nn show ?thesis by linarith
  qed
  with rounded_scaled_bounds(2) [OF pos] have "\<bar>round_half_even (x / 2 powi ?e)\<bar> \<le> 2 ^ 53"
    by simp
  with False show ?thesis
    unfolding is_float_def fl_def Let_def by auto
qed

lemma fl_scaled_int:
  assumes "x = of_int m * 2 powi k" "0 < m" "m \<le> 2 ^ 53"
  shows "fl x = x"
proof -
  have pos: "0 < x" using assms by simp
  have "(of_int m :: rat) \<le> of_int (2 ^ 53)"
    using assms(3) by (simp only: of_int_le_iff)
  then have "of_int m * 2 powi k \<le> (2 ^ 53 :: rat) * 2 powi k"
    by (intro mult_right_mono) simp_all
  then have le: "x \<le> 2 powi (53 + k)"
    using assms(1) by (simp add: power_int_add)
  then have "2 powi (ilog2 x) < (2 :: rat) powi (53 + k + 1)"
    using ilog2_bounds(1) [OF pos] power_int_strict_increasing [of "53 + k" "53 + k + 1" "2 :: rat"]
    by linarith
  then have elog: "ilog2 x \<le> 53 + k"
    by (auto dest: powi_2_less_imp)
  define e where "e = ilog2 x - 52"
  have "\<exists>n. x / 2 powi e = of_int n"
  proof (cases "ilog2 x = 53 + k")
    case True
    with le ilog2_bounds(1) [OF pos] have "x = 2 powi (53 + k)" by simp
    moreover have "(2 :: rat) powi (53 + k) = 2 ^ 52 * 2 powi e"
      using True by (simp add: e_def power_int_add)
    ultimately have "x / 2 powi e = of_int (2 ^ 52)" by simp
    then show ?thesis ..
  next
    case False
    with elog have "e \<le> k" by (simp add: e_def)
    then obtain d where d: "k = e + int d"
      by (metis zle_iff_zadd)
    have "x / 2 powi e = of_int (m * 2 ^ d)"
      unfolding assms(1) d by (simp add: power_int_add)
    then show ?thesis ..
  qed
  then obtain n where n: "x / 2 powi e = of_int n" ..
  then have "fl x = of_int n * 2 powi e"
    using pos by (simp add: fl_def Let_def e_def)
  also have "\<dots> = x"
    unfolding n [symmetric] by simp
  finally show ?thesis .
qed

lemma fl_id: "is_float x \<Longrightarrow> fl x = x"
proof -
  assume "is_float x"
  then obtain m e where m: "\<bar>m\<bar> \<le> 2 ^ 53" and x: "x = of_int m * 2 powi e"
    by (auto simp: is_float_def)
  consider "m = 0" | "0 < m" | "m < 0" by linarith
  then show "fl x = x"
  proof cases
    case 1
    with x show ?thesis by simp
  next
    case 2
    with x m show ?thesis by (intro fl_scaled_int) simp_all
  next
    case 3
    with x m have "fl (- x) = - x" by (intro fl_scaled_int [where m = "- m"]) simp_all
    then show ?thesis by simp
  qed
qed

lemma is_float_scaled: "\<bar>m\<bar> \<le> 2 ^ 53 \<Longrightarrow> is_float (of_int m * 2 powi e)"
  by (auto simp: is_float_def)

lemma is_float_of_int: "\<bar>n\<bar> \<le> 2 ^ 53 \<Longrightarrow> is_float (of_int n)"
  using is_float_scaled [of n 0] by simp

lemma is_float_div_power2: "\<bar>n\<bar> \<le> 2 ^ 53 \<Longrightarrow> is_float (of_int n / 2 ^ k)"
  using is_float_scaled [of n "- int k"] by (simp add: power_int_minus field_simps)

lemma is_float_0 [simp]: "is_float 0"
  using is_float_of_int [of 0] by simp

text \<open>The relative error of one rounding is at most half a unit in the 53rd place.\<close>

lemma fl_relative_error: "\<bar>fl x - x\<bar> \<le> \<bar>x\<bar> / 2 ^ 53"
proof (cases "x = 0")
  case False
  then have pos: "0 < \<bar>x\<bar>" by simp
  define e where "e = ilog2 \<bar>x\<bar> - 52"
  have "fl x - x = (of_int (round_half_even (x / 2 powi e)) - x / 2 powi e) * 2 powi e"
    using False by (simp add: fl_def Let_def e_def left_diff_distrib)
  then have "\<bar>fl x - x\<bar> = \<bar>of_int (round_half_even (x / 2 powi e)) - x / 2 powi e\<bar> * 2 powi e"
    by (simp add: abs_mult)
  also have "\<dots> \<le> 1 / 2 * 2 powi e"
    by (intro mult_right_mono round_half_even_error) simp
  also have "\<dots> = 2 powi (ilog2 \<bar>x\<bar>) / 2 ^ 53"
    by (simp add: e_def power_int_diff)
  also have "\<dots> \<le> \<bar>x\<bar> / 2 ^ 53"
    using ilog2_bounds(1) [OF pos] by (intro divide_right_mono) simp_all
  finally show ?thesis .
qed simp

section \<open>The interface the components use\<close>

locale rounding =
  fixes rnd :: "rat \<Rightarrow> rat" and fits :: "rat \<Rightarrow> bool"
  assumes rnd_fits: "fits (rnd x)"
    and rnd_id: "fits x \<Longrightarrow> rnd x = x"
    and rnd_mono: "x \<le> y \<Longrightarrow> rnd x \<le> rnd y"
begin

lemma rnd_idem: "rnd (rnd x) = rnd x"
  by (rule rnd_id) (rule rnd_fits)

lemma rnd_le: "fits b \<Longrightarrow> x \<le> b \<Longrightarrow> rnd x \<le> b"
  using rnd_mono [of x b] rnd_id [of b] by simp

lemma rnd_ge: "fits b \<Longrightarrow> b \<le> x \<Longrightarrow> b \<le> rnd x"
  using rnd_mono [of b x] rnd_id [of b] by simp

lemma rnd_nonneg: "fits 0 \<Longrightarrow> 0 \<le> x \<Longrightarrow> 0 \<le> rnd x"
  by (rule rnd_ge)

text \<open>A sum that starts at a representable value and adds a non-negative amount never shrinks.\<close>

lemma rnd_add_nonneg: "fits a \<Longrightarrow> 0 \<le> b \<Longrightarrow> a \<le> rnd (a + b)"
  by (rule rnd_ge) simp_all

end

interpretation dbl: rounding fl is_float
  by unfold_locales (simp_all add: fl_is_float fl_id fl_mono)

section \<open>The operations\<close>

text \<open>
  \<open>int_div\<close> is \<open>a / b\<close> of two \<open>int\<close>s, which Python rounds once; \<open>fadd\<close>, \<open>fsub\<close>, \<open>fmul\<close> and
  \<open>fdiv\<close> take operands that are doubles; \<open>of_pyint\<close> is the conversion of an \<open>int\<close> operand.
\<close>

definition of_pyint :: "int \<Rightarrow> rat" where "of_pyint n = fl (of_int n)"
definition int_div :: "int \<Rightarrow> int \<Rightarrow> rat" where "int_div a b = fl (of_int a / of_int b)"
definition fadd :: "rat \<Rightarrow> rat \<Rightarrow> rat" where "fadd x y = fl (x + y)"
definition fsub :: "rat \<Rightarrow> rat \<Rightarrow> rat" where "fsub x y = fl (x - y)"
definition fmul :: "rat \<Rightarrow> rat \<Rightarrow> rat" where "fmul x y = fl (x * y)"
definition fdiv :: "rat \<Rightarrow> rat \<Rightarrow> rat" where "fdiv x y = fl (x / y)"

lemma of_pyint_exact: "\<bar>n\<bar> \<le> 2 ^ 53 \<Longrightarrow> of_pyint n = of_int n"
  by (simp add: of_pyint_def fl_id is_float_of_int)

lemma fl_numeral: "numeral k \<le> (2 ^ 53 :: int) \<Longrightarrow> fl (numeral k) = numeral k"
  using fl_id [OF is_float_of_int, of "numeral k"] by simp

lemma int_div_power2_exact: "\<bar>n\<bar> \<le> 2 ^ 53 \<Longrightarrow> int_div n (2 ^ k) = of_int n / 2 ^ k"
  by (simp add: int_div_def fl_id is_float_div_power2)

end
