(* ===== verification/Header.thy ===== *)
theory Header
  imports Formats PyFloat
begin

unbundle bit_operations_syntax

text \<open>
  The flag-driven VITA-49 header of \<open>interpreter.py\<close>: \<open>Header\<close>, \<open>parse_header\<close> and the
  timestamp property, with the encoder \<open>build_header\<close> of the test builders as its inverse.
\<close>

record header =
  packet_type :: int
  class_id :: "bytes option"
  has_trailer :: bool
  tsi :: int
  tsf :: int
  packet_counter :: int
  packet_size :: int
  stream_id :: "int option"
  int_ts :: "int option"
  frac_ps :: "int option"
  header_len :: int

definition has_class_id :: "header \<Rightarrow> bool" where
  "has_class_id h \<longleftrightarrow> class_id h \<noteq> None"

text \<open>\<open>(self.int_ts or 0) + (self.frac_ps or 0) / 1e12\<close>: the fraction is a double division, and the
  integer part is converted to a double before the addition.\<close>

definition timestamp :: "header \<Rightarrow> rat" where
  "timestamp h =
     fadd (of_pyint (case int_ts h of None \<Rightarrow> 0 | Some s \<Rightarrow> s))
          (fdiv (of_pyint (case frac_ps h of None \<Rightarrow> 0 | Some p \<Rightarrow> p)) (10 ^ 12))"

section \<open>Parsing\<close>

definition word0_flag :: "int \<Rightarrow> nat \<Rightarrow> bool" where
  "word0_flag word0 k \<longleftrightarrow> (drop_bit k word0) AND 1 \<noteq> 0"

text \<open>One optional fixed-size field: read at the running offset when present, which then advances.\<close>

definition take_field :: "bool \<Rightarrow> (bytes \<Rightarrow> 'a) \<Rightarrow> int \<Rightarrow> bytes \<Rightarrow> int \<Rightarrow> 'a option \<times> int" where
  "take_field present dec n b off =
     (if present then (Some (dec (py_slice b off (off + n))), off + n) else (None, off))"

definition parse_header :: "bytes \<Rightarrow> exn + header" where
  "parse_header b =
    (if int (length b) < WORD0_SIZE then Inl ValueError
     else
      let word0 = be_int (py_slice b 0 WORD0_SIZE);
          ptype = (drop_bit W0_PACKET_TYPE_SHIFT word0) AND 0xF;
          has_cid = word0_flag word0 W0_CLASS_ID_BIT;
          has_tr = word0_flag word0 W0_TRAILER_BIT;
          tsi_mode = (drop_bit W0_TSI_SHIFT word0) AND 0x3;
          tsf_mode = (drop_bit W0_TSF_SHIFT word0) AND 0x3;
          has_sid = ptype \<in> set PACKET_TYPES_WITH_STREAM_ID;
          expected_len = header_length has_sid has_cid tsi_mode tsf_mode
      in if int (length b) < expected_len then Inl ValueError
         else
          let (sid, off1) = take_field has_sid be_int STREAM_ID_SIZE b WORD0_SIZE;
              (cid, off2) = take_field has_cid id CLASS_ID_SIZE b off1;
              (its, off3) = take_field (tsi_mode \<noteq> 0) be_int INT_TS_SIZE b off2;
              (fps, off4) = take_field (tsf_mode \<noteq> 0) be_int FRAC_TS_SIZE b off3
          in Inr \<lparr>packet_type = ptype, class_id = cid, has_trailer = has_tr,
                  tsi = tsi_mode, tsf = tsf_mode,
                  packet_counter = (drop_bit W0_COUNTER_SHIFT word0) AND 0xF,
                  packet_size = word0 AND W0_PACKET_SIZE_MASK,
                  stream_id = sid, int_ts = its, frac_ps = fps, header_len = off4\<rparr>)"

text \<open>
  The same parse as a closed form: every field at the offset its predecessors imply. It is the
  specification the proofs below use; \<open>parse_header_eq\<close> shows the code computes it.
\<close>

definition word0_of :: "bytes \<Rightarrow> int" where
  "word0_of b = be_int (py_slice b 0 4)"

definition word0_type :: "int \<Rightarrow> int" where "word0_type w = (drop_bit 28 w) AND 15"
definition word0_tsi :: "int \<Rightarrow> int" where "word0_tsi w = (drop_bit 22 w) AND 3"
definition word0_tsf :: "int \<Rightarrow> int" where "word0_tsf w = (drop_bit 20 w) AND 3"

definition carries_stream_id :: "int \<Rightarrow> bool" where
  "carries_stream_id ptype \<longleftrightarrow> ptype \<in> {1, 3, 4, 5}"

definition implied_length :: "int \<Rightarrow> int" where
  "implied_length w = header_length (carries_stream_id (word0_type w)) (word0_flag w 27)
     (word0_tsi w) (word0_tsf w)"

definition opt_bytes :: "bool \<Rightarrow> bytes \<Rightarrow> int \<Rightarrow> int \<Rightarrow> bytes option" where
  "opt_bytes present b off n = (if present then Some (py_slice b off (off + n)) else None)"

definition parsed_header :: "bytes \<Rightarrow> header" where
  "parsed_header b =
     (let w = word0_of b;
          sid = carries_stream_id (word0_type w);
          off1 = 4 + (if sid then 4 else 0);
          off2 = off1 + (if word0_flag w 27 then 8 else 0);
          off3 = off2 + (if word0_tsi w \<noteq> 0 then 4 else 0)
      in \<lparr>packet_type = word0_type w, class_id = opt_bytes (word0_flag w 27) b off1 8,
          has_trailer = word0_flag w 26, tsi = word0_tsi w, tsf = word0_tsf w,
          packet_counter = (drop_bit 16 w) AND 15, packet_size = w AND 65535,
          stream_id = map_option be_int (opt_bytes sid b 4 4),
          int_ts = map_option be_int (opt_bytes (word0_tsi w \<noteq> 0) b off2 4),
          frac_ps = map_option be_int (opt_bytes (word0_tsf w \<noteq> 0) b off3 8),
          header_len = implied_length w\<rparr>)"

lemma take_field_snd: "snd (take_field p d n b off) = off + (if p then n else 0)"
  by (simp add: take_field_def)

lemma take_field_fst: "fst (take_field p d n b off) = map_option d (opt_bytes p b off n)"
  by (simp add: take_field_def opt_bytes_def)

lemma parse_header_eq:
  "parse_header b =
    (if int (length b) < 4 \<or> int (length b) < implied_length (word0_of b) then Inl ValueError
     else Inr (parsed_header b))"
  by (simp add: parse_header_def parsed_header_def implied_length_def word0_of_def size_defs
      word0_layout PACKET_TYPES_WITH_STREAM_ID_def word0_type_def word0_tsi_def word0_tsf_def
      carries_stream_id_def header_length_def take_field_fst take_field_snd option.map_id Let_def split_beta)

lemma and_15_bounds: "(x :: int) AND 15 < 16" "0 \<le> (x :: int) AND 15"
  using AND_upper2 [of 15 x] by simp_all

lemma and_3_bounds: "(x :: int) AND 3 < 4" "0 \<le> (x :: int) AND 3"
  using AND_upper2 [of 3 x] by simp_all

lemma and_65535_bounds: "(x :: int) AND 65535 < 65536" "0 \<le> (x :: int) AND 65535"
  using AND_upper2 [of 65535 x] by simp_all

lemmas mask_bounds = and_15_bounds and_3_bounds and_65535_bounds

text \<open>What a successful parse guarantees about every field.\<close>

definition header_wf :: "header \<Rightarrow> bool" where
  "header_wf h \<longleftrightarrow>
     packet_type h \<in> {0..<16} \<and> tsi h \<in> {0..<4} \<and> tsf h \<in> {0..<4} \<and>
     packet_counter h \<in> {0..<16} \<and> packet_size h \<in> {0..<65536} \<and>
     (stream_id h \<noteq> None \<longleftrightarrow> packet_type h \<in> {1, 3, 4, 5}) \<and>
     (\<forall>s. stream_id h = Some s \<longrightarrow> 0 \<le> s \<and> s < 2 ^ 32) \<and>
     (\<forall>s. int_ts h = Some s \<longrightarrow> 0 \<le> s \<and> s < 2 ^ 32) \<and>
     (\<forall>p. frac_ps h = Some p \<longrightarrow> 0 \<le> p \<and> p < 2 ^ 64) \<and>
     (\<forall>c. class_id h = Some c \<longrightarrow> length c = 8) \<and>
     (int_ts h \<noteq> None \<longleftrightarrow> tsi h \<noteq> 0) \<and> (frac_ps h \<noteq> None \<longleftrightarrow> tsf h \<noteq> 0) \<and>
     header_len h = header_length (stream_id h \<noteq> None) (class_id h \<noteq> None) (tsi h) (tsf h)"

lemma be_slice_bound:
  assumes "0 \<le> i" "0 \<le> n"
  shows "be_int (py_slice b i (i + n)) < 256 ^ nat n"
proof -
  have "length (py_slice b i (i + n)) \<le> nat n"
    using assms by (simp add: py_slice_nonneg nat_add_distrib)
  then have "(256 :: int) ^ length (py_slice b i (i + n)) \<le> 256 ^ nat n"
    by (intro power_increasing) simp_all
  with be_int_bound [of "py_slice b i (i + n)"] show ?thesis by linarith
qed

lemma opt_bytes_bound:
  assumes "opt_bytes p b i n = Some bs" "0 \<le> i" "0 \<le> n"
  shows "be_int bs < 256 ^ nat n"
  using assms be_slice_bound [of i n b] by (auto simp: opt_bytes_def split: if_splits)

lemma opt_bytes_length:
  assumes "opt_bytes p b i n = Some bs" "0 \<le> i" "0 \<le> n" "i + n \<le> int (length b)"
  shows "int (length bs) = n"
  using assms by (auto simp: opt_bytes_def length_py_slice_nonneg split: if_splits)

lemma opt_bytes_None [simp]: "opt_bytes p b i n = None \<longleftrightarrow> \<not> p"
  by (simp add: opt_bytes_def)

lemma parsed_header_wf:
  assumes "implied_length (word0_of b) \<le> int (length b)"
  shows "header_wf (parsed_header b)"
proof -
  let ?h = "parsed_header b"
  have ranges: "packet_type ?h \<in> {0..<16} \<and> tsi ?h \<in> {0..<4} \<and> tsf ?h \<in> {0..<4} \<and>
     packet_counter ?h \<in> {0..<16} \<and> packet_size ?h \<in> {0..<65536}"
    by (simp add: parsed_header_def Let_def word0_type_def word0_tsi_def word0_tsf_def mask_bounds)
  have sid: "0 \<le> s \<and> s < 2 ^ 32" if "stream_id ?h = Some s" for s
    using that by (auto simp: parsed_header_def Let_def dest: opt_bytes_bound)
  have its: "0 \<le> s \<and> s < 2 ^ 32" if "int_ts ?h = Some s" for s
    using that by (auto simp: parsed_header_def Let_def dest: opt_bytes_bound split: if_splits)
  have fps: "0 \<le> p \<and> p < 2 ^ 64" if "frac_ps ?h = Some p" for p
    using that by (auto simp: parsed_header_def Let_def dest: opt_bytes_bound split: if_splits)
  have cid: "length c = 8" if "class_id ?h = Some c" for c
    using that assms
    by (auto simp: parsed_header_def Let_def implied_length_def header_length_def size_defs
        opt_bytes_def length_py_slice_nonneg py_slice_nonneg split: if_splits)
  show ?thesis
    unfolding header_wf_def using ranges sid its fps cid
    by (auto simp: parsed_header_def Let_def carries_stream_id_def implied_length_def)
qed

lemma parse_header_Inr:
  assumes "parse_header b = Inr h"
  shows "h = parsed_header b" "4 \<le> int (length b)" "implied_length (word0_of b) \<le> int (length b)"
  using assms by (auto simp: parse_header_eq split: if_splits)

lemma parse_header_wf: "parse_header b = Inr h \<Longrightarrow> header_wf h"
  using parse_header_Inr [of b h] parsed_header_wf [of b] by simp

lemma parse_header_len: "parse_header b = Inr h \<Longrightarrow> header_len h \<le> int (length b)"
  using parse_header_Inr [of b h] by (simp add: parsed_header_def Let_def)

lemma parse_header_nonneg: "parse_header b = Inr h \<Longrightarrow> 4 \<le> header_len h \<and> 0 \<le> header_len h \<and> 0 \<le> packet_size h"
  using parse_header_wf [of b h]
    header_length_bounds(1) [of "stream_id h \<noteq> None" "class_id h \<noteq> None" "tsi h" "tsf h"]
  by (simp add: header_wf_def)

end
