(* ===== verification/RateLog.thy ===== *)
theory RateLog
  imports Prelude
begin

text \<open>
  \<open>_RateLimitedLog\<close> of \<open>interpreter.py\<close>: the per-reason log limiter that every component with a
  drop path owns. The text of a warning is not modelled; the limiter's counts are state.
  Every limiter of the program is built with the default arguments (first 5, then every 1000th).
\<close>

record rate_log =
  first_n :: int
  every :: int
  counts :: "(string \<times> int) list"

definition new_rate_log :: rate_log where
  "new_rate_log = \<lparr>first_n = 5, every = 1000, counts = []\<rparr>"

definition should_log :: "string \<Rightarrow> rate_log \<Rightarrow> bool \<times> rate_log" where
  "should_log reason l =
     (let n = (case map_of (counts l) reason of None \<Rightarrow> 0 | Some c \<Rightarrow> c) + 1;
          l' = l\<lparr>counts := dict_set reason n (counts l)\<rparr>
      in (n \<le> first_n l \<or> n mod every l = 0, l'))"

text \<open>The state after one call, for the callers that only log.\<close>

definition logged :: "string \<Rightarrow> rate_log \<Rightarrow> rate_log" where
  "logged reason l = snd (should_log reason l)"

definition log_count :: "rate_log \<Rightarrow> string \<Rightarrow> int" where
  "log_count l reason = (case map_of (counts l) reason of None \<Rightarrow> 0 | Some c \<Rightarrow> c)"

lemma logged_frame [simp]:
  "first_n (logged r l) = first_n l" "every (logged r l) = every l"
  by (simp_all add: logged_def should_log_def Let_def)

lemma log_count_logged [simp]:
  "log_count (logged r l) r' = (if r = r' then log_count l r + 1 else log_count l r')"
  by (simp add: logged_def should_log_def Let_def log_count_def)

lemma keys_logged:
  "set (dict_keys (counts (logged r l))) = insert r (set (dict_keys (counts l)))"
  by (simp add: logged_def should_log_def Let_def)

lemma distinct_logged:
  "distinct (dict_keys (counts l)) \<Longrightarrow> distinct (dict_keys (counts (logged r l)))"
  by (simp add: logged_def should_log_def Let_def distinct_dict_set)

text \<open>Asking \<open>n\<close> times for the same reason, in state-passing form: the answers in order.\<close>

fun log_answers :: "nat \<Rightarrow> string \<Rightarrow> rate_log \<Rightarrow> bool list \<times> rate_log" where
  "log_answers 0 r l = ([], l)"
| "log_answers (Suc n) r l =
     (case should_log r l of (a, l') \<Rightarrow>
       (case log_answers n r l' of (as, l'') \<Rightarrow> (a # as, l'')))"

lemma should_log_answer:
  "fst (should_log r l) \<longleftrightarrow> log_count l r + 1 \<le> first_n l \<or> (log_count l r + 1) mod every l = 0"
  by (simp add: should_log_def Let_def log_count_def)

lemma log_answers_nth:
  assumes "k < n"
  shows "fst (log_answers n r l) ! k \<longleftrightarrow>
    log_count l r + int k + 1 \<le> first_n l \<or> (log_count l r + int k + 1) mod every l = 0"
  using assms
proof (induction n arbitrary: k l)
  case 0
  then show ?case by simp
next
  case (Suc n)
  obtain a l' where s: "should_log r l = (a, l')" by force
  then have l': "l' = logged r l" by (simp add: logged_def)
  obtain as l'' where t: "log_answers n r l' = (as, l'')" by force
  show ?case
  proof (cases k)
    case 0
    then show ?thesis using s t should_log_answer [of r l] by simp
  next
    case (Suc j)
    with Suc.prems Suc.IH [of j l'] s t l' show ?thesis
      by (simp add: algebra_simps)
  qed
qed

lemma length_log_answers: "length (fst (log_answers n r l)) = n"
  by (induction n arbitrary: l) (auto simp: split_beta)

text \<open>On a fresh limiter the k-th warning (counting from 0) for one reason is logged exactly
  when it is among the first five or its ordinal is a multiple of 1000, and asking about one reason
  leaves the budget of every other reason untouched.\<close>

theorem rate_log_budget:
  assumes "k < n"
  shows "(fst (log_answers n r new_rate_log) ! k \<longleftrightarrow> k < 5 \<or> (k + 1) mod 1000 = 0) \<and>
    (\<forall>r' l. r' \<noteq> r \<longrightarrow> fst (should_log r' (logged r l)) = fst (should_log r' l))"
proof
  have "(1 + int k) mod 1000 = 0 \<longleftrightarrow> (k + 1) mod 1000 = 0"
    by (metis of_nat_Suc of_nat_0_eq_iff of_nat_mod of_nat_numeral Suc_eq_plus1 add.commute)
  then show "fst (log_answers n r new_rate_log) ! k \<longleftrightarrow> k < 5 \<or> (k + 1) mod 1000 = 0"
    using log_answers_nth [OF assms, of r new_rate_log]
    by (auto simp: new_rate_log_def log_count_def algebra_simps)
  show "\<forall>r' l. r' \<noteq> r \<longrightarrow> fst (should_log r' (logged r l)) = fst (should_log r' l)"
    by (simp add: should_log_answer)
qed

theorem rate_log_budget_witness:
  "fst (log_answers 7 ''no-context'' new_rate_log) ! 5 = False \<and>
   fst (log_answers 7 ''no-context'' new_rate_log) ! 4 = True"
  using rate_log_budget [of 5 7 "''no-context''"] rate_log_budget [of 4 7 "''no-context''"] by simp

end
