(* ===== verification/Payload_Format.thy ===== *)
theory Payload_Format
  imports Formats RateLog
begin

unbundle bit_operations_syntax

text \<open>
  \<open>decode_payload_format\<close> of \<open>interpreter.py\<close>: the 64 bits of a Data Packet Payload Format word,
  classified as supported or not, and the module-level state that bounds its logging
  (\<open>_UNSUPPORTED_WORDS_LOGGED\<close>, \<open>_unsupported_cap_announced\<close>, \<open>_module_log\<close>). The encoder is the
  one of the test builders.
\<close>

section \<open>Module state\<close>

record module_state =
  words_logged :: "int list"
  cap_announced :: bool
  module_log :: rate_log

definition UNSUPPORTED_WORDS_CAP :: int where "UNSUPPORTED_WORDS_CAP = 64"

definition new_module_state :: module_state where
  "new_module_state = \<lparr>words_logged = [], cap_announced = False, module_log = new_rate_log\<rparr>"

definition log_unsupported_format :: "int \<Rightarrow> module_state \<Rightarrow> module_state" where
  "log_unsupported_format u g =
    (if u \<in> set (words_logged g) then g
     else if UNSUPPORTED_WORDS_CAP \<le> int (length (words_logged g)) then
       (if \<not> cap_announced g then g\<lparr>cap_announced := True\<rparr> else g)
     else g\<lparr>words_logged := words_logged g @ [u]\<rparr>)"

definition module_state_ok :: "module_state \<Rightarrow> bool" where
  "module_state_ok g \<longleftrightarrow>
     distinct (words_logged g) \<and> int (length (words_logged g)) \<le> UNSUPPORTED_WORDS_CAP"

lemma new_module_state_ok [simp]: "module_state_ok new_module_state"
  by (simp add: module_state_ok_def new_module_state_def UNSUPPORTED_WORDS_CAP_def)

lemma log_unsupported_format_ok:
  "module_state_ok g \<Longrightarrow> module_state_ok (log_unsupported_format u g)"
  by (auto simp: module_state_ok_def log_unsupported_format_def)

lemma log_unsupported_format_log [simp]: "module_log (log_unsupported_format u g) = module_log g"
  by (simp add: log_unsupported_format_def)

section \<open>Decoding\<close>

record payload_format =
  pf_is_complex :: bool
  pf_rc_type :: int
  pf_data_item_format :: int
  pf_packing_method :: int
  pf_item_bits :: int
  pf_item_packing_bits :: int
  pf_component_bits :: int
  pf_event_tag :: int
  pf_channel_tag :: int
  pf_sample_component_repeat :: int
  pf_fraction_size :: int
  pf_repeat_count :: int
  pf_vector_size :: int
  pf_component_dtype :: "string option"
  pf_bytes_per_sample :: "int option"
  pf_supported :: bool

definition decode_payload_format :: "int \<Rightarrow> module_state \<Rightarrow> payload_format \<times> module_state" where
  "decode_payload_format u g =
    (let packing_method = (drop_bit 63 u) AND 1;
         rc_type = (drop_bit 61 u) AND 3;
         data_item_format = (drop_bit 56 u) AND 0x1F;
         sample_component_repeat = (drop_bit 55 u) AND 1;
         event_tag = (drop_bit 52 u) AND 0x7;
         channel_tag = (drop_bit 48 u) AND 0xF;
         fraction_size = (drop_bit 44 u) AND 0xF;
         item_packing_bits = ((drop_bit 38 u) AND 0x3F) + 1;
         item_bits = ((drop_bit 32 u) AND 0x3F) + 1;
         repeat_count = (drop_bit 16 u) AND 0xFFFF;
         vector_size = u AND 0xFFFF;
         dtype = map_of ITEM_FORMAT_DTYPES (data_item_format, item_bits);
         supported =
           (packing_method = 0 \<and> rc_type \<in> {RC_TYPE_REAL, RC_TYPE_COMPLEX_CARTESIAN} \<and>
            dtype \<noteq> None \<and> item_packing_bits = item_bits \<and> event_tag = 0 \<and> channel_tag = 0 \<and>
            sample_component_repeat = 0 \<and> fraction_size = 0 \<and> repeat_count = 0 \<and>
            vector_size = 0);
         is_complex = (rc_type = RC_TYPE_COMPLEX_CARTESIAN);
         fmt = \<lparr>pf_is_complex = is_complex, pf_rc_type = rc_type,
                pf_data_item_format = data_item_format, pf_packing_method = packing_method,
                pf_item_bits = item_bits, pf_item_packing_bits = item_packing_bits,
                pf_component_bits = item_bits, pf_event_tag = event_tag,
                pf_channel_tag = channel_tag,
                pf_sample_component_repeat = sample_component_repeat,
                pf_fraction_size = fraction_size, pf_repeat_count = repeat_count,
                pf_vector_size = vector_size,
                pf_component_dtype = (if supported then dtype else None),
                pf_bytes_per_sample =
                  (if supported then Some ((if is_complex then 2 else 1) * (item_bits div 8)) else None),
                pf_supported = supported\<rparr>
     in (fmt, if supported then g else log_unsupported_format u g))"

text \<open>The test builders' encoder, with the same masks.\<close>

definition encode_payload_format ::
  "int \<Rightarrow> int \<Rightarrow> int \<Rightarrow> int \<Rightarrow> int \<Rightarrow> int \<Rightarrow> int \<Rightarrow> int" where
  "encode_payload_format rc_code item_format packing_bits item_bits packing_method etag ctag =
     (push_bit 63 (packing_method AND 1)) OR (push_bit 61 (rc_code AND 3)) OR
     (push_bit 56 (item_format AND 0x1F)) OR (push_bit 52 (etag AND 0x7)) OR
     (push_bit 48 (ctag AND 0xF)) OR (push_bit 38 ((packing_bits - 1) AND 0x3F)) OR
     (push_bit 32 ((item_bits - 1) AND 0x3F))"

section \<open>Exactly sixteen supported words\<close>

text \<open>A word is the sum of its windows: one step of the decomposition.\<close>

lemma window_step:
  fixes u :: int
  assumes "j = k + m" "drop_bit k u AND (2 ^ m - 1) = v"
  shows "drop_bit k u = drop_bit j u * 2 ^ m + v"
proof -
  have "v = take_bit m (drop_bit k u)"
    using assms(2) by (simp add: take_bit_eq_mask mask_eq_exp_minus_1)
  moreover have "drop_bit j u = drop_bit m (drop_bit k u)"
    using assms(1) by (simp add: drop_bit_drop_bit add.commute)
  ultimately show ?thesis
    using bits_ident [of m "drop_bit k u"] by (simp add: push_bit_eq_mult)
qed

text \<open>The word with the given real/complex code, item format and item size, every other field at
  its default: what the supported set is made of.\<close>

definition canonical_word :: "bool \<Rightarrow> int \<Rightarrow> int \<Rightarrow> int" where
  "canonical_word cplx item_format bits =
     of_bool cplx * 2 ^ 61 + item_format * 2 ^ 56 + (bits - 1) * 2 ^ 38 + (bits - 1) * 2 ^ 32"

lemma supported_windows:
  assumes "0 \<le> u" "u < 2 ^ 64" "pf_supported (fst (decode_payload_format u g))"
  obtains cplx fmt bits dt where "map_of ITEM_FORMAT_DTYPES (fmt, bits) = Some dt"
    "u = canonical_word cplx fmt bits"
    "fmt = pf_data_item_format (fst (decode_payload_format u g))"
    "bits = pf_item_bits (fst (decode_payload_format u g))"
proof -
  define fmt where "fmt = (drop_bit 56 u) AND 0x1F"
  define b where "b = (drop_bit 32 u) AND 0x3F"
  define rc where "rc = (drop_bit 61 u) AND 3"
  have s: "(drop_bit 63 u) AND 1 = 0" "rc = 0 \<or> rc = 1" "(drop_bit 55 u) AND 1 = 0"
    "(drop_bit 52 u) AND 7 = 0" "(drop_bit 48 u) AND 15 = 0" "(drop_bit 44 u) AND 15 = 0"
    "(drop_bit 38 u) AND 63 = b" "(drop_bit 16 u) AND 65535 = 0" "u AND 65535 = 0"
    "map_of ITEM_FORMAT_DTYPES (fmt, b + 1) \<noteq> None"
    using assms(3)
    by (simp_all add: decode_payload_format_def Let_def RC_TYPE_REAL_def
        RC_TYPE_COMPLEX_CARTESIAN_def fmt_def b_def rc_def)
  have "drop_bit 64 u = 0"
    using assms(1,2) by (simp add: drop_bit_eq_div)
  moreover have "drop_bit 63 u = drop_bit 64 u * 2 ^ 1 + 0"
    by (rule window_step) (simp_all add: s)
  moreover have "drop_bit 61 u = drop_bit 63 u * 2 ^ 2 + rc"
    by (rule window_step) (simp_all add: rc_def)
  moreover have "drop_bit 56 u = drop_bit 61 u * 2 ^ 5 + fmt"
    by (rule window_step) (simp_all add: fmt_def)
  moreover have "drop_bit 55 u = drop_bit 56 u * 2 ^ 1 + 0"
    by (rule window_step) (simp_all add: s)
  moreover have "drop_bit 52 u = drop_bit 55 u * 2 ^ 3 + 0"
    by (rule window_step) (simp_all add: s)
  moreover have "drop_bit 48 u = drop_bit 52 u * 2 ^ 4 + 0"
    by (rule window_step) (simp_all add: s)
  moreover have "drop_bit 44 u = drop_bit 48 u * 2 ^ 4 + 0"
    by (rule window_step) (simp_all add: s)
  moreover have "drop_bit 38 u = drop_bit 44 u * 2 ^ 6 + b"
    by (rule window_step) (simp_all add: s)
  moreover have "drop_bit 32 u = drop_bit 38 u * 2 ^ 6 + b"
    by (rule window_step) (simp_all add: b_def)
  moreover have "drop_bit 16 u = drop_bit 32 u * 2 ^ 16 + 0"
    by (rule window_step) (simp_all add: s)
  moreover have "drop_bit 0 u = drop_bit 16 u * 2 ^ 16 + 0"
    by (rule window_step) (simp_all add: s)
  ultimately have "u = canonical_word (rc = 1) fmt (b + 1)"
    using s(2) by (auto simp: canonical_word_def)
  moreover from s obtain dt where "map_of ITEM_FORMAT_DTYPES (fmt, b + 1) = Some dt" by auto
  moreover have "fmt = pf_data_item_format (fst (decode_payload_format u g))"
    "b + 1 = pf_item_bits (fst (decode_payload_format u g))"
    by (simp_all add: decode_payload_format_def Let_def fmt_def b_def)
  ultimately show ?thesis by (intro that)
qed

definition supported_words :: "int list" where
  "supported_words =
     concat (map (\<lambda>cplx. map (\<lambda>(fmt, bits). canonical_word cplx fmt bits)
       (dict_keys ITEM_FORMAT_DTYPES)) [False, True])"

text \<open>All windows of a word at once, as a list; a word's decoding depends on nothing else.\<close>

definition format_windows :: "int \<Rightarrow> int list" where
  "format_windows u =
     [(drop_bit 63 u) AND 1, (drop_bit 61 u) AND 3, (drop_bit 56 u) AND 31, (drop_bit 55 u) AND 1,
      (drop_bit 52 u) AND 7, (drop_bit 48 u) AND 15, (drop_bit 44 u) AND 15, (drop_bit 38 u) AND 63,
      (drop_bit 32 u) AND 63, (drop_bit 16 u) AND 65535, u AND 65535]"

lemma canonical_windows:
  assumes "map_of ITEM_FORMAT_DTYPES (fmt, bits) = Some dt"
  shows "format_windows (canonical_word cplx fmt bits) =
    [0, of_bool cplx, fmt, 0, 0, 0, 0, bits - 1, bits - 1, 0, 0]"
proof -
  have "((fmt, bits), dt) \<in> set ITEM_FORMAT_DTYPES"
    using assms by (rule map_of_SomeD)
  then have "(fmt, bits) \<in> {(0, 8), (0, 16), (0, 32), (16, 8), (16, 16), (16, 32), (14, 32), (15, 64)}"
    by (auto simp: ITEM_FORMAT_DTYPES_def item_formats)
  then have "(cplx, fmt, bits) \<in> {False, True} \<times>
      {(0, 8), (0, 16), (0, 32), (16, 8), (16, 16), (16, 32), (14, 32), (15, 64)}"
    by (cases cplx) auto
  moreover have "\<forall>(cplx, fmt, bits) \<in> {False, True} \<times>
      {(0, 8), (0, 16), (0, 32), (16, 8), (16, 16), (16, 32), (14, 32), (15, 64)}.
      format_windows (canonical_word cplx fmt bits) =
        [0, of_bool cplx, fmt, 0, 0, 0, 0, bits - 1, bits - 1, 0, 0]"
    by code_simp
  ultimately show ?thesis by fastforce
qed

lemma canonical_word_decodes:
  assumes "map_of ITEM_FORMAT_DTYPES (fmt, bits) = Some dt"
  shows "decode_payload_format (canonical_word cplx fmt bits) g =
    (\<lparr>pf_is_complex = cplx, pf_rc_type = of_bool cplx, pf_data_item_format = fmt,
      pf_packing_method = 0, pf_item_bits = bits, pf_item_packing_bits = bits,
      pf_component_bits = bits, pf_event_tag = 0, pf_channel_tag = 0,
      pf_sample_component_repeat = 0, pf_fraction_size = 0, pf_repeat_count = 0,
      pf_vector_size = 0, pf_component_dtype = Some dt,
      pf_bytes_per_sample = Some ((if cplx then 2 else 1) * (bits div 8)), pf_supported = True\<rparr>, g)"
  using canonical_windows [OF assms, of cplx] assms
  by (cases cplx) (simp_all add: format_windows_def decode_payload_format_def Let_def
      RC_TYPE_REAL_def RC_TYPE_COMPLEX_CARTESIAN_def)

lemma supported_words_iff:
  "u \<in> set supported_words \<longleftrightarrow>
     (\<exists>cplx fmt bits dt. map_of ITEM_FORMAT_DTYPES (fmt, bits) = Some dt \<and>
        u = canonical_word cplx fmt bits)"
proof -
  have keys: "p \<in> set (dict_keys ITEM_FORMAT_DTYPES) \<longleftrightarrow> (\<exists>dt. map_of ITEM_FORMAT_DTYPES p = Some dt)" for p
    by (metis in_keys_map_of map_of_Some_keys)
  have "u \<in> set supported_words \<longleftrightarrow>
      (\<exists>p \<in> set (dict_keys ITEM_FORMAT_DTYPES). u = canonical_word False (fst p) (snd p)) \<or>
      (\<exists>p \<in> set (dict_keys ITEM_FORMAT_DTYPES). u = canonical_word True (fst p) (snd p))"
    unfolding supported_words_def case_prod_beta' concat.simps list.map
    by (simp only: set_append set_map set_simps append_Nil2 Un_iff image_iff)
  also have "\<dots> \<longleftrightarrow> (\<exists>cplx. \<exists>p \<in> set (dict_keys ITEM_FORMAT_DTYPES).
      u = canonical_word cplx (fst p) (snd p))"
    by (metis (full_types))
  also have "\<dots> \<longleftrightarrow> (\<exists>cplx p. (\<exists>dt. map_of ITEM_FORMAT_DTYPES p = Some dt) \<and>
      u = canonical_word cplx (fst p) (snd p))"
    unfolding Bex_def keys ..
  also have "\<dots> \<longleftrightarrow> (\<exists>cplx fmt bits dt. map_of ITEM_FORMAT_DTYPES (fmt, bits) = Some dt \<and>
        u = canonical_word cplx fmt bits)"
    by (simp only: split_paired_Ex fst_conv snd_conv) blast
  finally show ?thesis .
qed

text \<open>What the classification says about the fields a context adopts.\<close>

lemma unsupported_has_no_layout:
  "\<not> pf_supported (fst (decode_payload_format u g)) \<Longrightarrow>
     pf_component_dtype (fst (decode_payload_format u g)) = None \<and>
     pf_bytes_per_sample (fst (decode_payload_format u g)) = None"
  by (auto simp: decode_payload_format_def Let_def)

lemma decode_payload_format_state_ok:
  "module_state_ok g \<Longrightarrow> module_state_ok (snd (decode_payload_format u g))"
  by (simp add: decode_payload_format_def Let_def log_unsupported_format_ok)

lemma decode_payload_format_log [simp]:
  "module_log (snd (decode_payload_format u g)) = module_log g"
  by (simp add: decode_payload_format_def Let_def)

text \<open>The classification itself does not depend on the logging state.\<close>

lemma decode_payload_format_pure:
  "fst (decode_payload_format u g) = fst (decode_payload_format u g')"
  by (simp add: decode_payload_format_def Let_def)

text \<open>C36: among all 2 to the 64 payload format words exactly the sixteen canonical ones (real or
  complex Cartesian, one of the eight tabulated item formats, packing size equal to item size,
  every framing field at its default) classify as supported.\<close>

theorem supported_iff_canonical:
  assumes "0 \<le> u" "u < 2 ^ 64"
  shows "(pf_supported (fst (decode_payload_format u g)) \<longleftrightarrow> u \<in> set supported_words) \<and>
    length supported_words = 16 \<and> distinct supported_words"
proof (intro conjI iffI)
  assume "pf_supported (fst (decode_payload_format u g))"
  then show "u \<in> set supported_words"
    unfolding supported_words_iff by (rule supported_windows [OF assms]) blast
next
  assume "u \<in> set supported_words"
  then obtain cplx fmt bits dt where "map_of ITEM_FORMAT_DTYPES (fmt, bits) = Some dt"
    "u = canonical_word cplx fmt bits" unfolding supported_words_iff by blast
  then show "pf_supported (fst (decode_payload_format u g))"
    by (simp add: canonical_word_decodes)
qed code_simp+

theorem supported_iff_canonical_witness:
  "pf_supported (fst (decode_payload_format 0x2E0007DF00000000 new_module_state)) \<longleftrightarrow>
     0x2E0007DF00000000 \<in> set supported_words"
  using supported_iff_canonical [of "0x2E0007DF00000000" new_module_state] by simp

text \<open>A supported word is the canonical word of some table entry, and its decoding is that
  entry's numpy dtype, its real/complex code and one or two components of its item size per
  sample; it changes no logging state.\<close>

theorem supported_layout:
  assumes "0 \<le> u" "u < 2 ^ 64" "pf_supported (fst (decode_payload_format u g))"
  shows "\<exists>cplx fmt bits dt. u = canonical_word cplx fmt bits \<and>
    map_of ITEM_FORMAT_DTYPES (fmt, bits) = Some dt \<and>
    pf_component_dtype (fst (decode_payload_format u g)) = Some dt \<and>
    pf_is_complex (fst (decode_payload_format u g)) = cplx \<and>
    pf_bytes_per_sample (fst (decode_payload_format u g)) = Some ((if cplx then 2 else 1) * (bits div 8)) \<and>
    snd (decode_payload_format u g) = g"
proof -
  obtain cplx fmt bits dt where m: "map_of ITEM_FORMAT_DTYPES (fmt, bits) = Some dt"
    and u: "u = canonical_word cplx fmt bits"
    using assms by (rule supported_windows)
  show ?thesis
    unfolding u canonical_word_decodes [OF m]
    by (intro exI [of _ cplx] exI [of _ fmt] exI [of _ bits] exI [of _ dt]) (simp add: m)
qed

theorem supported_layout_witness:
  "\<exists>cplx fmt bits dt. 0x2E0007DF00000000 = canonical_word cplx fmt bits \<and>
    map_of ITEM_FORMAT_DTYPES (fmt, bits) = Some dt \<and>
    pf_bytes_per_sample (fst (decode_payload_format 0x2E0007DF00000000 new_module_state))
      = Some ((if cplx then 2 else 1) * (bits div 8))"
proof -
  have "pf_supported (fst (decode_payload_format 0x2E0007DF00000000 new_module_state))"
    by code_simp
  from supported_layout [OF _ _ this] obtain cplx fmt bits dt
    where "0x2E0007DF00000000 = canonical_word cplx fmt bits"
      "map_of ITEM_FORMAT_DTYPES (fmt, bits) = Some dt"
      "pf_bytes_per_sample (fst (decode_payload_format 0x2E0007DF00000000 new_module_state))
        = Some ((if cplx then 2 else 1) * (bits div 8))"
    by auto
  then show ?thesis by (intro exI conjI)
qed

end
