(* ===== verification/Context.thy ===== *)
theory Context
  imports Header Payload_Format
begin

unbundle bit_operations_syntax

text \<open>
  \<open>decode_context\<close> of \<open>interpreter.py\<close>: the walk over the CIF0 word of a context packet. The
  result is the context dictionary in the source's key order; reading past the declared packet
  end raises \<open>ValueError\<close>, a bit without a fixed size stops the walk.
\<close>

section \<open>Decoding one field\<close>

definition pv_str :: "string option \<Rightarrow> pyval" where
  "pv_str s = (case s of None \<Rightarrow> PNone | Some t \<Rightarrow> PStr t)"

definition pv_int :: "int option \<Rightarrow> pyval" where
  "pv_int n = (case n of None \<Rightarrow> PNone | Some k \<Rightarrow> PInt k)"

definition freq_field :: "bytes \<Rightarrow> pyval" where
  "freq_field field = PFloat (int_div (to_signed 64 (be_int field)) RADIX_FREQ_HZ)"

definition gain_field :: "bytes \<Rightarrow> pyval" where
  "gain_field field =
    (let stage2 = to_signed 16 (be_int (py_slice field 0 2));
         stage1 = to_signed 16 (be_int (py_slice field 2 4))
     in PFloat (fadd (int_div stage2 RADIX_GAIN_DB) (int_div stage1 RADIX_GAIN_DB)))"

definition format_fields :: "payload_format \<Rightarrow> pydict \<Rightarrow> pydict" where
  "format_fields fmt ctx =
     dict_set ''data_item_format'' (PInt (pf_data_item_format fmt))
     (dict_set ''is_complex'' (PBool (pf_is_complex fmt))
     (dict_set ''bytes_per_sample'' (pv_int (pf_bytes_per_sample fmt))
     (dict_set ''component_dtype'' (pv_str (pf_component_dtype fmt))
     (dict_set ''supported'' (PBool (pf_supported fmt)) ctx))))"

definition decode_field :: "nat \<Rightarrow> bytes \<Rightarrow> pydict \<Rightarrow> module_state \<Rightarrow> pydict \<times> module_state" where
  "decode_field k field ctx g =
    (if k = CIF_BANDWIDTH then (dict_set ''bandwidth_hz'' (freq_field field) ctx, g)
     else if k = CIF_RF_REF_FREQ then (dict_set ''rf_hz'' (freq_field field) ctx, g)
     else if k = CIF_GAIN then (dict_set ''gain_db'' (gain_field field) ctx, g)
     else if k = CIF_SAMPLE_RATE then (dict_set ''sample_rate_hz'' (freq_field field) ctx, g)
     else if k = CIF_DATA_PAYLOAD_FORMAT then
       (case decode_payload_format (be_int field) g of (fmt, g') \<Rightarrow> (format_fields fmt ctx, g'))
     else (ctx, g))"

section \<open>The walk\<close>

fun walk_cif ::
  "bytes \<Rightarrow> int \<Rightarrow> int \<Rightarrow> nat list \<Rightarrow> int \<Rightarrow> pydict \<Rightarrow> module_state \<Rightarrow> (exn + pydict) \<times> module_state"
where
  "walk_cif b cif end_limit [] offset ctx g = (Inr ctx, g)"
| "walk_cif b cif end_limit (k # ks) offset ctx g =
    (if (drop_bit k cif) AND 1 = 0 then walk_cif b cif end_limit ks offset ctx g
     else if k = CONTEXT_FIELD_CHANGE_BIT then
       walk_cif b cif end_limit ks offset (dict_set ''context_field_change'' (PBool True) ctx) g
     else (case map_of FIELD_SIZE k of
         None \<Rightarrow>
           (Inr ctx, g\<lparr>module_log := logged (''cif0-stop-bit-'' @ nat_str k) (module_log g)\<rparr>)
       | Some n \<Rightarrow>
           if end_limit < offset + n then (Inl ValueError, g)
           else (case decode_field k (py_slice b offset (offset + n)) ctx g of
               (ctx', g') \<Rightarrow> walk_cif b cif end_limit ks (offset + n) ctx' g')))"

definition decode_context :: "bytes \<Rightarrow> header \<Rightarrow> module_state \<Rightarrow> (exn + pydict) \<times> module_state" where
  "decode_context b hdr g =
    (let end_limit = min (int (length b)) (packet_size hdr * 4);
         offset = header_len hdr
     in if end_limit < offset + 4 then (Inl ValueError, g)
        else
          let cif = be_int (py_slice b offset (offset + 4))
          in walk_cif b cif end_limit (rev [0..<32]) (offset + 4) [] g)"

section \<open>What the walk guarantees\<close>

text \<open>The payload-format keys of a decoded context: absent, classified unsupported, or a layout of
  the table.\<close>

definition layout_ok :: "string \<Rightarrow> bool \<Rightarrow> int \<Rightarrow> bool" where
  "layout_ok dt cplx bps \<longleftrightarrow>
     (\<exists>((fmt, bits), dt') \<in> set ITEM_FORMAT_DTYPES. dt' = dt \<and> bps = (if cplx then 2 else 1) * (bits div 8))"

definition ctx_wf :: "pydict \<Rightarrow> bool" where
  "ctx_wf ctx \<longleftrightarrow>
     (py_get ctx ''supported'' = PNone \<and> py_get ctx ''component_dtype'' = PNone \<and>
      py_get ctx ''bytes_per_sample'' = PNone \<and> py_get ctx ''is_complex'' = PNone) \<or>
     (py_get ctx ''supported'' = PBool False \<and> py_get ctx ''component_dtype'' = PNone \<and>
      py_get ctx ''bytes_per_sample'' = PNone) \<or>
     (\<exists>dt c n. py_get ctx ''supported'' = PBool True \<and> py_get ctx ''component_dtype'' = PStr dt \<and>
      py_get ctx ''bytes_per_sample'' = PInt n \<and> py_get ctx ''is_complex'' = PBool c \<and>
      layout_ok dt c n)"

lemma ctx_wf_Nil [simp]: "ctx_wf []"
  by (simp add: ctx_wf_def)

lemma ctx_wf_other:
  "ctx_wf ctx \<Longrightarrow> k \<notin> {''supported'', ''component_dtype'', ''bytes_per_sample'', ''is_complex''} \<Longrightarrow>
     ctx_wf (dict_set k v ctx)"
  by (simp add: ctx_wf_def)

lemma layout_ok_pos: "layout_ok dt c n \<Longrightarrow> 0 < n"
  by (auto simp: layout_ok_def ITEM_FORMAT_DTYPES_def)

lemma format_fields_wf:
  assumes "0 \<le> u" "u < 2 ^ 64"
  shows "ctx_wf (format_fields (fst (decode_payload_format u g)) ctx)"
proof (cases "pf_supported (fst (decode_payload_format u g))")
  case True
  with assms obtain cplx fmt bits dt where m: "map_of ITEM_FORMAT_DTYPES (fmt, bits) = Some dt"
    and u: "u = canonical_word cplx fmt bits"
    by (rule supported_windows)
  have "layout_ok dt cplx ((if cplx then 2 else 1) * (bits div 8))"
    unfolding layout_ok_def using map_of_SomeD [OF m] by (intro bexI [of _ "((fmt, bits), dt)"]) simp_all
  then show ?thesis
    unfolding u canonical_word_decodes [OF m]
    by (simp add: format_fields_def ctx_wf_def pv_str_def pv_int_def)
next
  case False
  then show ?thesis
    using unsupported_has_no_layout [OF False]
    by (simp add: format_fields_def ctx_wf_def pv_str_def pv_int_def)
qed

lemma be_slice_lt_2_64:
  assumes "0 \<le> off"
  shows "be_int (py_slice b off (off + 8)) < 2 ^ 64"
  using be_slice_bound [of off 8 b] assms by simp

lemma decode_field_wf:
  assumes "ctx_wf ctx" "0 \<le> off" "map_of FIELD_SIZE k = Some n"
  shows "ctx_wf (fst (decode_field k (py_slice b off (off + n)) ctx g))"
proof (cases "k = CIF_DATA_PAYLOAD_FORMAT")
  case True
  then have "n = 8" using assms(3) by (simp add: FIELD_SIZE_def cif_bits)
  then show ?thesis
    using True format_fields_wf [OF be_int_nonneg be_slice_lt_2_64 [OF assms(2)]]
    by (simp add: decode_field_def cif_bits split_beta)
next
  case False
  then show ?thesis
    using assms(1) by (simp add: decode_field_def ctx_wf_other)
qed

lemma decode_field_state_ok:
  "module_state_ok g \<Longrightarrow> module_state_ok (snd (decode_field k field ctx g))"
  using decode_payload_format_state_ok [of g "be_int field"]
  by (auto simp: decode_field_def split_beta)

lemma walk_cif_inv:
  assumes "ctx_wf ctx" "0 \<le> offset" "module_state_ok g"
    and "walk_cif b cif end_limit ks offset ctx g = (r, g')"
  shows "module_state_ok g' \<and> (\<forall>ctx'. r = Inr ctx' \<longrightarrow> ctx_wf ctx')"
  using assms
proof (induction b cif end_limit ks offset ctx g rule: walk_cif.induct)
  case (1 b cif end_limit offset ctx g)
  then show ?case by auto
next
  case (2 b cif end_limit k ks offset ctx g)
  consider (skip) "(drop_bit k cif) AND 1 = 0"
    | (flag) "(drop_bit k cif) AND 1 \<noteq> 0" "k = CONTEXT_FIELD_CHANGE_BIT"
    | (stop) "(drop_bit k cif) AND 1 \<noteq> 0" "k \<noteq> CONTEXT_FIELD_CHANGE_BIT" "map_of FIELD_SIZE k = None"
    | (field) n where "(drop_bit k cif) AND 1 \<noteq> 0" "k \<noteq> CONTEXT_FIELD_CHANGE_BIT"
        "map_of FIELD_SIZE k = Some n"
    by (cases "map_of FIELD_SIZE k") auto
  then show ?case
  proof cases
    case skip
    with 2 show ?thesis by simp
  next
    case flag
    with "2.IH"(2) "2.prems" show ?thesis by (simp add: ctx_wf_other)
  next
    case stop
    with "2.prems" show ?thesis by (auto simp: module_state_ok_def)
  next
    case (field n)
    show ?thesis
    proof (cases "end_limit < offset + n")
      case True
      with field "2.prems" show ?thesis by auto
    next
      case False
      obtain ctx' g1 where d: "decode_field k (py_slice b offset (offset + n)) ctx g = (ctx', g1)"
        by force
      have "ctx_wf ctx'"
        using decode_field_wf [OF "2.prems"(1,2) field(3), of b g] d by simp
      moreover have "module_state_ok g1"
        using decode_field_state_ok [OF "2.prems"(3), of k "py_slice b offset (offset + n)" ctx] d by simp
      moreover have "0 \<le> offset + n"
        using "2.prems"(2) FIELD_SIZE_pos [OF field(3)] by simp
      ultimately show ?thesis
        using "2.IH"(3) [OF field(1,2,3) False d [symmetric]] "2.prems"(4) field False d
        by simp
    qed
  qed
qed

section \<open>Exactly when a context packet is rejected\<close>

text \<open>The bytes the walk needs: the sizes of the present fixed-size fields up to the first stop bit.\<close>

fun fields_size :: "int \<Rightarrow> nat list \<Rightarrow> int" where
  "fields_size cif [] = 0"
| "fields_size cif (k # ks) =
    (if (drop_bit k cif) AND 1 = 0 \<or> k = CONTEXT_FIELD_CHANGE_BIT then fields_size cif ks
     else (case map_of FIELD_SIZE k of None \<Rightarrow> 0 | Some n \<Rightarrow> n + fields_size cif ks))"

lemma fields_size_nonneg: "0 \<le> fields_size cif ks"
proof (induction ks)
  case (Cons k ks)
  then show ?case
    by (cases "map_of FIELD_SIZE k") (use FIELD_SIZE_pos [of k] in fastforce)+
qed simp

lemma walk_cif_outcome:
  "offset \<le> end_limit \<Longrightarrow>
    (if offset + fields_size cif ks \<le> end_limit
     then \<exists>ctx'. fst (walk_cif b cif end_limit ks offset ctx g) = Inr ctx'
     else fst (walk_cif b cif end_limit ks offset ctx g) = Inl ValueError)"
proof (induction b cif end_limit ks offset ctx g rule: walk_cif.induct)
  case (1 b cif end_limit offset ctx g)
  then show ?case by simp
next
  case (2 b cif end_limit k ks offset ctx g)
  show ?case
  proof (cases "(drop_bit k cif) AND 1 = 0 \<or> k = CONTEXT_FIELD_CHANGE_BIT")
    case True
    with 2 show ?thesis by auto
  next
    case False
    show ?thesis
    proof (cases "map_of FIELD_SIZE k")
      case None
      with False "2.prems" show ?thesis by simp
    next
      case (Some n)
      obtain ctx' g1 where d: "decode_field k (py_slice b offset (offset + n)) ctx g = (ctx', g1)"
        by force
      show ?thesis
      proof (cases "end_limit < offset + n")
        case True
        with False Some fields_size_nonneg [of cif ks] show ?thesis by auto
      next
        case False': False
        then show ?thesis
          using "2.IH"(3) [OF _ _ Some False' d [symmetric]] False Some d
          by (simp add: add.assoc)
      qed
    qed
  qed
qed

text \<open>The CIF0 word of a context packet and the bytes it must hold.\<close>

definition cif_of :: "bytes \<Rightarrow> header \<Rightarrow> int" where
  "cif_of b hdr = be_int (py_slice b (header_len hdr) (header_len hdr + 4))"

definition context_length :: "bytes \<Rightarrow> header \<Rightarrow> int" where
  "context_length b hdr = header_len hdr + 4 + fields_size (cif_of b hdr) (rev [0..<32])"

definition usable_end :: "bytes \<Rightarrow> header \<Rightarrow> int" where
  "usable_end b hdr = min (int (length b)) (packet_size hdr * 4)"

text \<open>C37: a context packet is rejected exactly when the bytes it may use (the shorter of the
  datagram and its declared size) do not hold the CIF0 word and every present fixed-size field up
  to the first bit without a size, and the only exception it can raise is ValueError.\<close>

theorem decode_context_rejects_iff:
  "fst (decode_context b hdr g) = Inl e \<longleftrightarrow>
     e = ValueError \<and> (usable_end b hdr < header_len hdr + 4 \<or> usable_end b hdr < context_length b hdr)"
proof -
  have *: "fst (decode_context b hdr g) =
      (if usable_end b hdr < header_len hdr + 4 then Inl ValueError
       else fst (walk_cif b (cif_of b hdr) (usable_end b hdr) (rev [0..<32]) (header_len hdr + 4) [] g))"
    by (simp add: decode_context_def usable_end_def cif_of_def Let_def del: upt_conv_Cons upt_rec_numeral)
  have "usable_end b hdr < header_len hdr + 4 \<or>
    (if context_length b hdr \<le> usable_end b hdr
     then \<exists>ctx'. fst (decode_context b hdr g) = Inr ctx'
     else fst (decode_context b hdr g) = Inl ValueError)"
    using walk_cif_outcome [of "header_len hdr + 4" "usable_end b hdr" "cif_of b hdr" "rev [0..<32]" b "[]" g]
    unfolding context_length_def * by auto
  then show ?thesis
    using * by (auto split: if_splits)
qed

lemma decode_context_inv:
  assumes "module_state_ok g" "0 \<le> header_len hdr" "decode_context b hdr g = (r, g')"
  shows "module_state_ok g'" "r = Inr ctx \<Longrightarrow> ctx_wf ctx"
proof -
  have "module_state_ok g' \<and> (\<forall>ctx'. r = Inr ctx' \<longrightarrow> ctx_wf ctx')"
  proof (cases "usable_end b hdr < header_len hdr + 4")
    case True
    with assms show ?thesis by (auto simp: decode_context_def usable_end_def Let_def)
  next
    case False
    with assms(3) have "walk_cif b (cif_of b hdr) (usable_end b hdr) (rev [0..<32])
        (header_len hdr + 4) [] g = (r, g')"
      by (simp add: decode_context_def usable_end_def cif_of_def Let_def del: upt_conv_Cons upt_rec_numeral)
    from walk_cif_inv [OF _ _ assms(1) this] assms(2) show ?thesis by simp
  qed
  then show "module_state_ok g'" "r = Inr ctx \<Longrightarrow> ctx_wf ctx" by auto
qed

section \<open>Trailing bytes and stop bits\<close>

lemma py_slice_prefix:
  assumes "0 \<le> i" "i \<le> j" "j \<le> int (length xs)"
  shows "py_slice (xs @ ys) i j = py_slice xs i j"
proof -
  have "nat i + (nat j - nat i) \<le> length xs" using assms by simp
  then show ?thesis using assms by (simp add: py_slice_nonneg)
qed

lemma walk_cif_prefix:
  assumes "0 \<le> offset" "end_limit \<le> int (length b)"
  shows "walk_cif (b @ junk) cif end_limit ks offset ctx g = walk_cif b cif end_limit ks offset ctx g"
  using assms
proof (induction b cif end_limit ks offset ctx g rule: walk_cif.induct)
  case (1 b cif end_limit offset ctx g)
  then show ?case by simp
next
  case (2 b cif end_limit k ks offset ctx g)
  show ?case
  proof (cases "(drop_bit k cif) AND 1 = 0 \<or> k = CONTEXT_FIELD_CHANGE_BIT \<or> map_of FIELD_SIZE k = None")
    case True
    with 2 show ?thesis by (auto split: option.splits)
  next
    case False
    then obtain n where n: "map_of FIELD_SIZE k = Some n" by auto
    then have "0 \<le> n" using FIELD_SIZE_pos by fastforce
    obtain ctx' g1 where d: "decode_field k (py_slice b offset (offset + n)) ctx g = (ctx', g1)"
      by force
    show ?thesis
    proof (cases "end_limit < offset + n")
      case True
      with False n show ?thesis by simp
    next
      case False': False
      with "2.prems" \<open>0 \<le> n\<close>
      have "py_slice (b @ junk) offset (offset + n) = py_slice b offset (offset + n)"
        by (intro py_slice_prefix) simp_all
      then show ?thesis
        using "2.IH"(3) [OF _ _ n False' d [symmetric]] False n d "2.prems" \<open>0 \<le> n\<close> by simp
    qed
  qed
qed

lemma walk_cif_stop_suffix:
  assumes "\<forall>k \<in> set low. k \<noteq> CONTEXT_FIELD_CHANGE_BIT \<and> map_of FIELD_SIZE k = None"
  shows "fst (walk_cif b cif end_limit (ks @ low) offset ctx g) = fst (walk_cif b cif end_limit ks offset ctx g)"
  using assms
proof (induction b cif end_limit ks offset ctx g rule: walk_cif.induct)
  case (1 b cif end_limit offset ctx g)
  then show ?case by (induction low) auto
next
  case (2 b cif end_limit k ks offset ctx g)
  then show ?case by (auto split: option.splits prod.splits)
qed

lemma walk_cif_same_bits:
  assumes "\<forall>k \<in> set ks. (drop_bit k cif) AND 1 = (drop_bit k cif') AND 1"
  shows "walk_cif b cif end_limit ks offset ctx g = walk_cif b cif' end_limit ks offset ctx g"
  using assms
proof (induction b cif end_limit ks offset ctx g rule: walk_cif.induct)
  case (1 b cif end_limit offset ctx g)
  then show ?case by simp
next
  case (2 b cif end_limit k ks offset ctx g)
  then show ?case by (auto split: option.splits prod.splits)
qed

lemma high_bits_mod:
  fixes cif :: int
  assumes "10 \<le> k"
  shows "drop_bit k (cif - cif mod 1024) = drop_bit k cif"
proof -
  have "(2 :: int) ^ k = 1024 * 2 ^ (k - 10)"
    using assms power_add [of "2 :: int" 10 "k - 10"] by simp
  moreover have "cif - cif mod 1024 = 1024 * (cif div 1024)"
    by (simp add: minus_mod_eq_mult_div)
  ultimately show ?thesis
    by (simp add: drop_bit_eq_div zdiv_zmult2_eq)
qed

lemma bits_split: "rev [0..<32] = rev [10..<32] @ rev [0..<10]"
  by (simp add: upt_rec)

lemma walk_cif_low_bits:
  "fst (walk_cif b cif end_limit (rev [0..<32]) offset ctx g) =
   fst (walk_cif b (cif - cif mod 1024) end_limit (rev [0..<32]) offset ctx g)"
proof -
  have low: "\<forall>k \<in> set (rev [0..<10]). k \<noteq> CONTEXT_FIELD_CHANGE_BIT \<and> map_of FIELD_SIZE k = None"
    by (simp add: FIELD_SIZE_def cif_bits upt_rec)
  have "fst (walk_cif b c end_limit (rev [0..<32]) offset ctx g) =
      fst (walk_cif b c end_limit (rev [10..<32]) offset ctx g)" for c
    unfolding bits_split by (rule walk_cif_stop_suffix [OF low])
  moreover have "walk_cif b cif end_limit (rev [10..<32]) offset ctx g =
      walk_cif b (cif - cif mod 1024) end_limit (rev [10..<32]) offset ctx g"
    by (rule walk_cif_same_bits) (simp add: high_bits_mod del: upt_conv_Cons upt_rec_numeral)
  ultimately show ?thesis by simp
qed

lemma cif_slice:
  assumes "int (length h) = n" "0 \<le> cif" "cif < 2 ^ 32"
  shows "be_int (py_slice (h @ to_be 4 cif @ body) n (n + 4)) = cif"
  using assms py_slice_append [of h n "n + 4" "to_be 4 cif" body] by simp

lemma decode_context_packet:
  assumes "int (length h) = header_len hdr" "0 \<le> cif" "cif < 2 ^ 32"
  shows "decode_context (h @ to_be 4 cif @ body) hdr g =
    (let lim = min (header_len hdr + 4 + int (length body)) (packet_size hdr * 4) in
     if lim < header_len hdr + 4 then (Inl ValueError, g)
     else walk_cif (h @ to_be 4 cif @ body) cif lim (rev [0..<32]) (header_len hdr + 4) [] g)"
proof -
  have len: "int (length (h @ to_be 4 cif @ body)) = header_len hdr + 4 + int (length body)"
    using assms(1) by simp
  show ?thesis
    unfolding decode_context_def Let_def cif_slice [OF assms] len ..
qed

text \<open>A field's bytes are read after the CIF0 word, so the word itself is never re-read.\<close>

lemma walk_cif_same_tail:
  assumes "length p = length p'" "int (length p) \<le> offset"
  shows "walk_cif (p @ body) cif end_limit ks offset ctx g = walk_cif (p' @ body) cif end_limit ks offset ctx g"
  using assms
proof (induction ks arbitrary: offset ctx g)
  case Nil
  then show ?case by simp
next
  case (Cons k ks)
  have "py_slice (p @ body) offset (offset + n) = py_slice (p' @ body) offset (offset + n)" if "0 \<le> n" for n
    using Cons.prems that by (simp add: py_slice_nonneg)
  moreover have "0 \<le> n" if "map_of FIELD_SIZE k = Some n" for n
    using FIELD_SIZE_pos [OF that] by simp
  ultimately show ?case
    using Cons by (auto split: option.splits prod.splits)
qed

text \<open>Bytes after the declared packet end are never decoded: appending anything to a context
  packet that is at least as long as its declared size changes neither the result nor the logging
  state.\<close>

theorem decode_context_ignores_trailing:
  assumes "parse_header b = Inr hdr" "packet_size hdr * 4 \<le> int (length b)"
  shows "decode_context (b @ junk) hdr g = decode_context b hdr g"
proof -
  have wf: "0 \<le> header_len hdr" "0 \<le> packet_size hdr"
    using parse_header_nonneg [OF assms(1)] by simp_all
  have lim: "min (int (length (b @ junk))) (packet_size hdr * 4) = packet_size hdr * 4"
    "min (int (length b)) (packet_size hdr * 4) = packet_size hdr * 4"
    using assms(2) by simp_all
  show ?thesis
  proof (cases "packet_size hdr * 4 < header_len hdr + 4")
    case True
    then show ?thesis unfolding decode_context_def Let_def lim by simp
  next
    case False
    with assms(2) wf have "py_slice (b @ junk) (header_len hdr) (header_len hdr + 4)
        = py_slice b (header_len hdr) (header_len hdr + 4)"
      by (intro py_slice_prefix) simp_all
    with False assms(2) wf show ?thesis
      unfolding decode_context_def Let_def lim
      by (simp add: walk_cif_prefix del: upt_conv_Cons upt_rec_numeral)
  qed
qed

text \<open>A minimal context packet: no class id, no timestamps, a gain field, four words.\<close>

definition gain_packet :: bytes where
  "gain_packet = [0x40, 0, 0, 4, 0, 0, 0, 7, 0, 0x80, 0, 0, 0, 1, 0, 2]"

lemma gain_packet_parses:
  "parse_header gain_packet = Inr
     \<lparr>packet_type = 4, class_id = None, has_trailer = False, tsi = 0, tsf = 0, packet_counter = 0,
      packet_size = 4, stream_id = Some 7, int_ts = None, frac_ps = None, header_len = 8\<rparr>"
  by code_simp

theorem decode_context_ignores_trailing_witness:
  "\<exists>hdr. parse_header gain_packet = Inr hdr \<and>
     decode_context (gain_packet @ [1, 2, 3, 4]) hdr new_module_state = decode_context gain_packet hdr new_module_state"
  using decode_context_ignores_trailing [OF gain_packet_parses, of "[1, 2, 3, 4]" new_module_state]
    gain_packet_parses
  by (simp add: gain_packet_def)

text \<open>The ten low CIF0 bits (variable-length fields, CIF enables, reserved bits) neither add nor
  discard anything: a packet decodes to the same context with all of them cleared.\<close>

theorem stop_bits_keep_fields:
  assumes "int (length h) = header_len hdr" "0 \<le> cif" "cif < 2 ^ 32"
  shows "fst (decode_context (h @ to_be 4 cif @ body) hdr g) =
    fst (decode_context (h @ to_be 4 (cif - cif mod 1024) @ body) hdr g)"
proof -
  have r: "0 \<le> cif - cif mod 1024" "cif - cif mod 1024 < 2 ^ 32"
    using assms(2,3) pos_mod_bound [of 1024 cif] zmod_le_nonneg_dividend [of cif 1024] by simp_all
  have "walk_cif (h @ to_be 4 (cif - cif mod 1024) @ body) c lim ks (header_len hdr + 4) ctx g
      = walk_cif (h @ to_be 4 cif @ body) c lim ks (header_len hdr + 4) ctx g" for c lim ks ctx
    using walk_cif_same_tail [of "h @ to_be 4 (cif - cif mod 1024)" "h @ to_be 4 cif" "header_len hdr + 4" body]
      assms(1) by simp
  then show ?thesis
    unfolding decode_context_packet [OF assms] decode_context_packet [OF assms(1) r]
    unfolding Let_def fst_conv if_distrib [of fst] by (simp only: walk_cif_low_bits [of _ cif])
qed

theorem stop_bits_keep_fields_witness:
  "\<exists>hdr. header_len hdr = 8 \<and>
     fst (decode_context (take 8 gain_packet @ to_be 4 0x00800301 @ [0, 1, 0, 2]) hdr new_module_state)
       = fst (decode_context (take 8 gain_packet @ to_be 4 0x00800000 @ [0, 1, 0, 2]) hdr new_module_state)"
proof -
  obtain hdr where h: "parse_header gain_packet = Inr hdr" "header_len hdr = 8"
    using gain_packet_parses by force
  have "int (length (take 8 gain_packet)) = header_len hdr"
    using h(2) by (simp add: gain_packet_def)
  from stop_bits_keep_fields [OF this, of "0x00800301" "[0, 1, 0, 2]" new_module_state] h(2)
  show ?thesis by (intro exI [of _ hdr]) simp
qed

end
