(* ===== verification/Trim.thy ===== *)
theory Trim
  imports Header Payload_Format
begin

text \<open>
  \<open>trim_data\<close> of \<open>interpreter.py\<close>: the sample payload of a data packet. The header is skipped,
  the trailer dropped when flagged, bytes past the declared size ignored and a partial last
  sample floored away.
\<close>

definition trim_data :: "bytes \<Rightarrow> header \<Rightarrow> int \<Rightarrow> module_state \<Rightarrow> (exn + bytes \<times> int) \<times> module_state" where
  "trim_data b hdr bytes_per_sample g =
    (let declared = packet_size hdr * 4 in
     if int (length b) < declared then (Inl ValueError, g)
     else
      let g' = (if declared < int (length b)
                then g\<lparr>module_log := logged ''trim-length-mismatch'' (module_log g)\<rparr> else g);
          start = header_len hdr;
          stop = max start (min (int (length b)) declared - (if has_trailer hdr then TRAILER_SIZE else 0));
          body = py_slice b start stop
      in if bytes_per_sample = 0 then (Inl ZeroDivisionError, g')
         else
          let num_samples = int (length body) div bytes_per_sample
          in (Inr (py_slice body 0 (num_samples * bytes_per_sample), num_samples), g'))"

lemma trim_data_state_ok: "module_state_ok g \<Longrightarrow> module_state_ok (snd (trim_data b hdr bps g))"
  by (auto simp: trim_data_def Let_def module_state_ok_def)

text \<open>The end of the payload as the declared size gives it.\<close>

definition payload_end :: "header \<Rightarrow> int" where
  "payload_end hdr = packet_size hdr * 4 - (if has_trailer hdr then 4 else 0)"

text \<open>The bytes between the header and the trailer of a datagram of the declared size.\<close>

definition payload_of :: "bytes \<Rightarrow> header \<Rightarrow> bytes" where
  "payload_of b hdr = py_slice b (header_len hdr) (max (header_len hdr) (payload_end hdr))"

lemma trim_data_eq:
  assumes "packet_size hdr * 4 \<le> int (length b)" "bps \<noteq> 0"
  shows "fst (trim_data b hdr bps g) =
    Inr (py_slice (payload_of b hdr) 0 (int (length (payload_of b hdr)) div bps * bps),
         int (length (payload_of b hdr)) div bps)"
  using assms by (simp add: trim_data_def Let_def payload_of_def payload_end_def TRAILER_SIZE_def)

lemma trim_data_short:
  "int (length b) < packet_size hdr * 4 \<Longrightarrow> trim_data b hdr bps g = (Inl ValueError, g)"
  by (simp add: trim_data_def Let_def)

lemma trim_data_Inr:
  assumes "trim_data b hdr bps g = (Inr (body, n), g')"
  shows "packet_size hdr * 4 \<le> int (length b)" "bps \<noteq> 0"
    "body = py_slice (payload_of b hdr) 0 (int (length (payload_of b hdr)) div bps * bps)"
    "n = int (length (payload_of b hdr)) div bps"
  using assms by (auto simp: trim_data_def Let_def payload_of_def payload_end_def TRAILER_SIZE_def split: if_splits)

lemma trim_data_result:
  assumes "trim_data b hdr bps g = (Inr (body, n), g')" "0 < bps"
  shows "body = take (nat (n * bps)) (payload_of b hdr) \<and> int (length body) = n * bps \<and> 0 \<le> n \<and>
    n * bps \<le> int (length (payload_of b hdr)) \<and> int (length (payload_of b hdr)) < (n + 1) * bps"
proof -
  let ?p = "payload_of b hdr"
  have n: "n = int (length ?p) div bps"
    and body: "body = py_slice ?p 0 (int (length ?p) div bps * bps)"
    using trim_data_Inr [OF assms(1)] by blast+
  have nn: "0 \<le> n" using n assms(2) by (simp add: pos_imp_zdiv_nonneg_iff)
  have le: "n * bps \<le> int (length ?p)"
    unfolding n
    using div_mult_mod_eq [of "int (length ?p)" bps] pos_mod_sign [OF assms(2), of "int (length ?p)"]
    by linarith
  have "int (length ?p) = n * bps + int (length ?p) mod bps" using n by simp
  then have lt: "int (length ?p) < (n + 1) * bps"
    using pos_mod_bound [OF assms(2), of "int (length ?p)"] by (simp add: distrib_right)
  have "body = take (nat (n * bps)) ?p"
    using body n nn assms(2) by (simp add: py_slice_nonneg)
  with nn le lt assms(2) show ?thesis by simp
qed

text \<open>C38: a successful trim returns exactly the largest whole number of samples that fits between
  the header and the trailer of the declared packet: a prefix of that payload, of length the sample
  count times the sample size, short of the payload by less than one sample.\<close>

theorem trim_data_exact:
  assumes "trim_data b hdr bps g = (Inr (body, n), g')" "0 < bps"
  shows "body = take (nat (n * bps)) (payload_of b hdr) \<and> int (length body) = n * bps \<and> 0 \<le> n \<and>
    n * bps \<le> int (length (payload_of b hdr)) \<and> int (length (payload_of b hdr)) < (n + 1) * bps"
  by (rule trim_data_result [OF assms])

theorem trim_data_exact_witness:
  "\<exists>body. trim_data (replicate 8 1 @ [1, 2, 3, 4, 5, 6, 7, 8] @ replicate 4 9)
     \<lparr>packet_type = 1, class_id = None, has_trailer = True, tsi = 0, tsf = 0, packet_counter = 0,
      packet_size = 5, stream_id = Some 16843009, int_ts = None, frac_ps = None, header_len = 8\<rparr>
     3 new_module_state = (Inr (body, 2), new_module_state) \<and> int (length body) = 6"
proof -
  let ?b = "replicate 8 1 @ [1, 2, 3, 4, 5, 6, 7, 8] @ replicate 4 9 :: bytes"
  let ?h = "\<lparr>packet_type = 1, class_id = None, has_trailer = True, tsi = 0, tsf = 0,
    packet_counter = 0, packet_size = 5, stream_id = Some 16843009, int_ts = None, frac_ps = None,
    header_len = 8\<rparr> :: header"
  have t: "trim_data ?b ?h 3 new_module_state = (Inr ([1, 2, 3, 4, 5, 6], 2), new_module_state)"
    by code_simp
  show ?thesis
    using trim_data_exact [OF t] t by auto
qed

text \<open>Declared sizes smaller than the header give an empty body, never bytes from the tail.\<close>

lemma trim_data_forged_size:
  assumes "payload_end hdr \<le> header_len hdr" "0 \<le> header_len hdr"
  shows "payload_of b hdr = []"
  using assms by (simp add: payload_of_def py_slice_nonneg max_def)

text \<open>Trailing bytes of an oversized datagram are ignored.\<close>

lemma payload_of_append:
  assumes "packet_size hdr * 4 \<le> int (length b)" "0 \<le> header_len hdr" "header_len hdr \<le> int (length b)"
  shows "payload_of (b @ junk) hdr = payload_of b hdr"
proof -
  have e: "max (header_len hdr) (payload_end hdr) \<le> int (length b)"
    using assms by (simp add: payload_end_def)
  have "nat (header_len hdr) + (nat (max (header_len hdr) (payload_end hdr)) - nat (header_len hdr)) \<le> length b"
    using e assms by linarith
  with assms show ?thesis
    by (simp add: payload_of_def py_slice_nonneg max_def)
qed

text \<open>With a positive sample size, trimming fails exactly when the datagram is shorter than its
  declared size, always with ValueError; any bytes after the declared size are ignored.\<close>

theorem trim_data_truncation:
  assumes "parse_header b = Inr hdr" "0 < bps"
  shows "(fst (trim_data b hdr bps g) = Inl e \<longleftrightarrow> e = ValueError \<and> int (length b) < packet_size hdr * 4) \<and>
    (packet_size hdr * 4 \<le> int (length b) \<longrightarrow>
       fst (trim_data (b @ junk) hdr bps g) = fst (trim_data b hdr bps g))"
proof
  show "fst (trim_data b hdr bps g) = Inl e \<longleftrightarrow> e = ValueError \<and> int (length b) < packet_size hdr * 4"
    using assms(2) trim_data_eq [of hdr b bps g] trim_data_short [of b hdr bps g]
    by (cases "int (length b) < packet_size hdr * 4") auto
  show "packet_size hdr * 4 \<le> int (length b) \<longrightarrow>
       fst (trim_data (b @ junk) hdr bps g) = fst (trim_data b hdr bps g)"
  proof
    assume le: "packet_size hdr * 4 \<le> int (length b)"
    with parse_header_len [OF assms(1)] parse_header_nonneg [OF assms(1)] have "payload_of (b @ junk) hdr = payload_of b hdr"
      by (intro payload_of_append) simp_all
    with le assms(2) show "fst (trim_data (b @ junk) hdr bps g) = fst (trim_data b hdr bps g)"
      by (simp add: trim_data_eq)
  qed
qed

theorem trim_data_truncation_witness:
  "\<exists>hdr. parse_header [0x14, 0, 0, 4, 0, 0, 0, 7, 1, 2, 3, 4, 9, 9, 9, 9] = Inr hdr \<and>
     fst (trim_data ([0x14, 0, 0, 4, 0, 0, 0, 7, 1, 2, 3, 4, 9, 9, 9, 9] @ [5]) hdr 2 new_module_state)
       = fst (trim_data [0x14, 0, 0, 4, 0, 0, 0, 7, 1, 2, 3, 4, 9, 9, 9, 9] hdr 2 new_module_state)"
proof -
  let ?b = "[0x14, 0, 0, 4, 0, 0, 0, 7, 1, 2, 3, 4, 9, 9, 9, 9] :: bytes"
  have h: "parse_header ?b = Inr
      \<lparr>packet_type = 1, class_id = None, has_trailer = True, tsi = 0, tsf = 0, packet_counter = 0,
       packet_size = 4, stream_id = Some 7, int_ts = None, frac_ps = None, header_len = 8\<rparr>"
    by code_simp
  show ?thesis
    using trim_data_truncation [OF h, of 2 new_module_state _ "[5]"] h by simp
qed

end
