(* ===== verification/Stream_Table.thy ===== *)
theory Stream_Table
  imports Prelude
begin

text \<open>
  The contract that the interpreter's context table and the router's buffer table share: a
  dictionary keyed by stream id that an operation may extend by one key, only below the cap, and
  that never loses or reorders a key. The flood protection both classes promise follows from it
  once, for any sequence of operations.
\<close>

locale bounded_table =
  fixes table_keys :: "'s \<Rightarrow> 'k list" and cap :: "'s \<Rightarrow> int" and step :: "'i \<Rightarrow> 's \<Rightarrow> 's"
  assumes step_cap: "cap (step i s) = cap s"
    and step_keys: "table_keys (step i s) = table_keys s \<or>
      (\<exists>k. k \<notin> set (table_keys s) \<and> int (length (table_keys s)) < cap s \<and>
        table_keys (step i s) = table_keys s @ [k])"
begin

lemma run_cap: "cap (fold step is s) = cap s"
  by (induction "is" arbitrary: s) (simp_all add: step_cap)

lemma run_prefix: "\<exists>new. table_keys (fold step is s) = table_keys s @ new"
proof (induction "is" arbitrary: s)
  case Nil
  then show ?case by simp
next
  case (Cons i "is")
  from Cons.IH [of "step i s"] obtain new where
    "table_keys (fold step is (step i s)) = table_keys (step i s) @ new" ..
  with step_keys [of i s] show ?case by auto
qed

lemma run_distinct: "distinct (table_keys s) \<Longrightarrow> distinct (table_keys (fold step is s))"
proof (induction "is" arbitrary: s)
  case (Cons i "is")
  have "distinct (table_keys (step i s))"
    using step_keys [of i s] Cons.prems by auto
  with Cons.IH show ?case by simp
qed simp

lemma run_bounded:
  "int (length (table_keys s)) \<le> max 0 (cap s) \<Longrightarrow>
     int (length (table_keys (fold step is s))) \<le> max 0 (cap s)"
proof (induction "is" arbitrary: s)
  case (Cons i "is")
  have "int (length (table_keys (step i s))) \<le> max 0 (cap s)"
    using step_keys [of i s] Cons.prems by auto
  with Cons.IH [of "step i s"] show ?case by (simp add: step_cap)
qed simp

text \<open>A table that starts empty: bounded, duplicate-free, and every key seen stays in place.\<close>

lemma run_from_empty:
  assumes "table_keys s = []"
  shows "distinct (table_keys (fold step is s)) \<and>
    int (length (table_keys (fold step is s))) \<le> max 0 (cap s) \<and>
    (\<exists>new. table_keys (fold step (is @ js) s) = table_keys (fold step is s) @ new)"
  using assms run_distinct [of s "is"] run_bounded [of s "is"] run_prefix [of js "fold step is s"]
  by simp

end

end
