(* ===== verification/Interp.thy ===== *)
theory Interp
  imports Context Trim Stream_Table
begin

unbundle bit_operations_syntax

text \<open>
  The \<open>Interpreter\<close> class of \<open>interpreter.py\<close>: per-stream contexts and counters, \<open>_process\<close> with
  every drop path, and the \<open>process\<close> guard that turns every parse failure into a count. The
  module-level logging state is threaded through as \<open>module_state\<close>.
\<close>

definition DEFAULT_MAX_STREAMS :: int where "DEFAULT_MAX_STREAMS = 64"

section \<open>Records\<close>

text \<open>
  The metadata dictionary of an interpreter record. Its readers use \<open>.get()\<close> for the fields that
  are optional here (\<open>None\<close> stands for an absent key and for the value \<open>None\<close> alike).
\<close>

record metadata =
  md_stream_id :: "int option"
  md_counter :: int
  md_timestamp :: "rat option"
  md_packet_size :: int
  md_dtype :: pyval
  md_bytes_per_sample :: pyval
  md_is_complex :: pyval
  md_gap_before :: bool

record packet_record =
  rec_type :: string
  rec_metadata :: metadata
  rec_context :: "pydict option"
  rec_data :: "bytes option"

section \<open>State\<close>

record interpreter =
  max_streams :: int
  errors :: int
  dropped :: int
  contexts :: "(int option \<times> pydict) list"
  last_counter :: "(int option \<times> int) list"
  interp_log :: rate_log

definition new_interpreter :: "int \<Rightarrow> interpreter" where
  "new_interpreter n = \<lparr>max_streams = n, errors = 0, dropped = 0, contexts = [],
     last_counter = [], interp_log = new_rate_log\<rparr>"

definition context_for :: "int \<Rightarrow> interpreter \<Rightarrow> pydict option" where
  "context_for sid s = map_of (contexts s) (Some sid)"

definition drop_packet :: "string \<Rightarrow> interpreter \<Rightarrow> interpreter" where
  "drop_packet reason s =
     s\<lparr>dropped := dropped s + 1, interp_log := logged reason (interp_log s)\<rparr>"

definition make_metadata :: "header \<Rightarrow> pydict \<Rightarrow> bool \<Rightarrow> metadata" where
  "make_metadata hdr ctx gap =
     \<lparr>md_stream_id = stream_id hdr, md_counter = packet_counter hdr,
      md_timestamp = Some (timestamp hdr), md_packet_size = packet_size hdr,
      md_dtype = py_get ctx ''component_dtype'',
      md_bytes_per_sample = py_get ctx ''bytes_per_sample'',
      md_is_complex = py_get ctx ''is_complex'', md_gap_before = gap\<rparr>"

section \<open>Processing a datagram\<close>

text \<open>
  \<open>trim_data\<close> takes the context's sample size as an integer; any other value in that key would
  raise in the arithmetic (\<open>TypeError\<close>).
\<close>

definition as_int :: "pyval \<Rightarrow> exn + int" where
  "as_int v = (case v of PInt n \<Rightarrow> Inr n | _ \<Rightarrow> Inl TypeError)"

definition process_context ::
  "bytes \<Rightarrow> header \<Rightarrow> int option \<Rightarrow> interpreter \<Rightarrow> module_state \<Rightarrow>
     (exn + packet_record option) \<times> interpreter \<times> module_state" where
  "process_context raw hdr sid s g =
    (if map_of (contexts s) sid = None \<and> max_streams s \<le> int (length (contexts s)) then
       (Inr None, drop_packet ''stream-flood'' s, g)
     else (case decode_context raw hdr g of
         (Inl e, g') \<Rightarrow> (Inl e, s, g')
       | (Inr ctx, g') \<Rightarrow>
           (Inr (Some \<lparr>rec_type = ''context'', rec_metadata = make_metadata hdr ctx False,
                       rec_context = Some ctx, rec_data = None\<rparr>),
            s\<lparr>contexts := dict_set sid ctx (contexts s)\<rparr>, g')))"

definition gap_before :: "int option \<Rightarrow> int \<Rightarrow> bool" where
  "gap_before prev counter = (case prev of None \<Rightarrow> False | Some p \<Rightarrow> counter \<noteq> (p + 1) mod 16)"

definition process_data ::
  "bytes \<Rightarrow> header \<Rightarrow> int option \<Rightarrow> interpreter \<Rightarrow> module_state \<Rightarrow>
     (exn + packet_record option) \<times> interpreter \<times> module_state" where
  "process_data raw hdr sid s g =
    (case map_of (contexts s) sid of
       None \<Rightarrow> (Inr None, drop_packet ''no-context'' s, g)
     | Some ctx \<Rightarrow>
         if py_get ctx ''supported'' = PBool False \<or> py_get ctx ''bytes_per_sample'' = PNone then
           (Inr None, drop_packet ''unsupported-data'' s, g)
         else (case as_int (py_get ctx ''bytes_per_sample'') of
             Inl e \<Rightarrow> (Inl e, s, g)
           | Inr bps \<Rightarrow>
             (case trim_data raw hdr bps g of
                (Inl e, g') \<Rightarrow> (Inl e, s, g')
              | (Inr (body, num_samples), g') \<Rightarrow>
                  let gap = gap_before (map_of (last_counter s) sid) (packet_counter hdr);
                      s1 = (if gap then s\<lparr>interp_log := logged ''counter-gap'' (interp_log s)\<rparr> else s);
                      s2 = s1\<lparr>last_counter := dict_set sid (packet_counter hdr) (last_counter s1)\<rparr>
                  in (Inr (Some \<lparr>rec_type = ''data'', rec_metadata = make_metadata hdr ctx gap,
                                 rec_context = None, rec_data = Some body\<rparr>), s2, g'))))"

definition process_inner ::
  "bytes \<Rightarrow> interpreter \<Rightarrow> module_state \<Rightarrow>
     (exn + packet_record option) \<times> interpreter \<times> module_state" where
  "process_inner raw s g =
    (case parse_header raw of
       Inl e \<Rightarrow> (Inl e, s, g)
     | Inr hdr \<Rightarrow>
         if packet_type hdr \<notin> {PACKET_TYPE_IF_DATA, PACKET_TYPE_IF_CONTEXT} then
           (Inr None, drop_packet ''unknown-packet-type'' s, g)
         else if packet_type hdr = PACKET_TYPE_IF_CONTEXT then
           process_context raw hdr (stream_id hdr) s g
         else process_data raw hdr (stream_id hdr) s g)"

text \<open>The queue may hold a stray item that is not bytes: every parse of it raises.\<close>

datatype raw_item = Datagram bytes | Stray

definition process ::
  "raw_item \<Rightarrow> interpreter \<Rightarrow> module_state \<Rightarrow> packet_record option \<times> interpreter \<times> module_state" where
  "process raw s g =
    (let r = (case raw of Datagram b \<Rightarrow> process_inner b s g | Stray \<Rightarrow> (Inl TypeError, s, g)) in
     case r of
       (Inr rec, s', g') \<Rightarrow> (rec, s', g')
     | (Inl e, s', g') \<Rightarrow>
         (None, s'\<lparr>errors := errors s' + 1, interp_log := logged ''unparseable'' (interp_log s')\<rparr>, g'))"

section \<open>The abstract step\<close>

text \<open>
  What one call of \<open>process\<close> may do, as an inductive relation: a datagram is counted as an error,
  counted as a policy drop, adopted as a context, or delivered as a data record. Only the last two
  change a per-stream table, each at the datagram's own stream id.
\<close>

definition same_tables :: "interpreter \<Rightarrow> interpreter \<Rightarrow> bool" where
  "same_tables s s' \<longleftrightarrow> contexts s' = contexts s \<and> last_counter s' = last_counter s \<and>
     max_streams s' = max_streams s"

inductive interp_step :: "raw_item \<Rightarrow> interpreter \<Rightarrow> packet_record option \<Rightarrow> interpreter \<Rightarrow> bool" where
  failed: "same_tables s s' \<Longrightarrow> errors s' = errors s + 1 \<Longrightarrow> dropped s' = dropped s \<Longrightarrow>
    interp_step i s None s'"
| refused: "same_tables s s' \<Longrightarrow> errors s' = errors s \<Longrightarrow> dropped s' = dropped s + 1 \<Longrightarrow>
    interp_step i s None s'"
| adopted: "parse_header b = Inr hdr \<Longrightarrow> packet_type hdr = 4 \<Longrightarrow> stream_id hdr = Some sid \<Longrightarrow>
    Some sid \<in> set (dict_keys (contexts s)) \<or> int (length (contexts s)) < max_streams s \<Longrightarrow>
    fst (decode_context b hdr g) = Inr ctx \<Longrightarrow> ctx_wf ctx \<Longrightarrow>
    s' = s\<lparr>contexts := dict_set (Some sid) ctx (contexts s)\<rparr> \<Longrightarrow>
    r = \<lparr>rec_type = ''context'', rec_metadata = make_metadata hdr ctx False,
         rec_context = Some ctx, rec_data = None\<rparr> \<Longrightarrow>
    interp_step (Datagram b) s (Some r) s'"
| delivered: "parse_header b = Inr hdr \<Longrightarrow> packet_type hdr = 1 \<Longrightarrow> stream_id hdr = Some sid \<Longrightarrow>
    map_of (contexts s) (Some sid) = Some ctx \<Longrightarrow> py_get ctx ''supported'' = PBool True \<Longrightarrow>
    py_get ctx ''component_dtype'' = PStr dt \<Longrightarrow> py_get ctx ''bytes_per_sample'' = PInt bps \<Longrightarrow>
    py_get ctx ''is_complex'' = PBool cplx \<Longrightarrow> layout_ok dt cplx bps \<Longrightarrow>
    fst (trim_data b hdr bps g) = Inr (body, n) \<Longrightarrow>
    gap = gap_before (map_of (last_counter s) (Some sid)) (packet_counter hdr) \<Longrightarrow>
    contexts s' = contexts s \<Longrightarrow> max_streams s' = max_streams s \<Longrightarrow>
    last_counter s' = dict_set (Some sid) (packet_counter hdr) (last_counter s) \<Longrightarrow>
    errors s' = errors s \<Longrightarrow> dropped s' = dropped s \<Longrightarrow>
    r = \<lparr>rec_type = ''data'', rec_metadata = make_metadata hdr ctx gap,
         rec_context = None, rec_data = Some body\<rparr> \<Longrightarrow>
    interp_step (Datagram b) s (Some r) s'"

inductive_cases interp_step_NoneE: "interp_step i s None s'"
inductive_cases interp_step_SomeE: "interp_step i s (Some r) s'"

definition contexts_wf :: "interpreter \<Rightarrow> bool" where
  "contexts_wf s \<longleftrightarrow> (\<forall>sid ctx. map_of (contexts s) sid = Some ctx \<longrightarrow> ctx_wf ctx)"

lemma drop_packet_step:
  "interp_step i s None (drop_packet reason s)"
  by (rule interp_step.refused) (simp_all add: drop_packet_def same_tables_def)

lemma parsed_stream_id:
  "parse_header b = Inr hdr \<Longrightarrow> packet_type hdr \<in> {1, 4} \<Longrightarrow> \<exists>sid. stream_id hdr = Some sid"
  using parse_header_wf [of b hdr] by (auto simp: header_wf_def)

lemma process_context_step:
  assumes "parse_header b = Inr hdr" "packet_type hdr = 4" "stream_id hdr = Some sid"
    and "module_state_ok g" "process_context b hdr (Some sid) s g = (res, s', g')"
  shows "(\<forall>e. res = Inl e \<longrightarrow> s' = s) \<and> (\<forall>r. res = Inr r \<longrightarrow> interp_step (Datagram b) s r s') \<and>
    module_state_ok g'"
proof (cases "map_of (contexts s) (Some sid) = None \<and> max_streams s \<le> int (length (contexts s))")
  case True
  with assms(4,5) show ?thesis by (auto simp: process_context_def drop_packet_step)
next
  case False
  then have room: "Some sid \<in> set (dict_keys (contexts s)) \<or> int (length (contexts s)) < max_streams s"
    by (metis map_of_None_iff_keys not_le)
  have nn: "0 \<le> header_len hdr" using parse_header_nonneg [OF assms(1)] by simp
  obtain d g1 where d: "decode_context b hdr g = (d, g1)" by force
  note inv = decode_context_inv [OF assms(4) nn d]
  show ?thesis
  proof (cases d)
    case (Inl e)
    with False d assms(5) inv(1) show ?thesis by (auto simp: process_context_def)
  next
    case (Inr ctx)
    then have "ctx_wf ctx" by (rule inv(2))
    with Inr d have "interp_step (Datagram b) s
        (Some \<lparr>rec_type = ''context'', rec_metadata = make_metadata hdr ctx False,
          rec_context = Some ctx, rec_data = None\<rparr>)
        (s\<lparr>contexts := dict_set (Some sid) ctx (contexts s)\<rparr>)"
      using assms(1-3) room by (intro interp_step.adopted [where g = g]) simp_all
    with False Inr d assms(5) inv(1) show ?thesis by (auto simp: process_context_def)
  qed
qed

lemma process_data_step:
  assumes "parse_header b = Inr hdr" "packet_type hdr = 1" "stream_id hdr = Some sid"
    and "module_state_ok g" "contexts_wf s" "process_data b hdr (Some sid) s g = (res, s', g')"
  shows "(\<forall>e. res = Inl e \<longrightarrow> s' = s) \<and> (\<forall>r. res = Inr r \<longrightarrow> interp_step (Datagram b) s r s') \<and>
    module_state_ok g'"
proof (cases "map_of (contexts s) (Some sid)")
  case None
  with assms(4,6) show ?thesis by (auto simp: process_data_def drop_packet_step)
next
  case (Some ctx)
  show ?thesis
  proof (cases "py_get ctx ''supported'' = PBool False \<or> py_get ctx ''bytes_per_sample'' = PNone")
    case True
    with Some assms(4,6) show ?thesis by (auto simp: process_data_def drop_packet_step)
  next
    case False
    from Some assms(5) have "ctx_wf ctx" by (auto simp: contexts_wf_def)
    with False obtain dt cplx bps where l: "py_get ctx ''supported'' = PBool True"
      "py_get ctx ''component_dtype'' = PStr dt" "py_get ctx ''bytes_per_sample'' = PInt bps"
      "py_get ctx ''is_complex'' = PBool cplx" "layout_ok dt cplx bps"
      by (auto simp: ctx_wf_def)
    obtain t g1 where t: "trim_data b hdr bps g = (t, g1)" by force
    have ok: "module_state_ok g1" using trim_data_state_ok [OF assms(4), of b hdr bps] t by simp
    show ?thesis
    proof (cases t)
      case (Inl e)
      with t ok False Some l assms(6) show ?thesis by (auto simp: process_data_def as_int_def)
    next
      case (Inr bn)
      obtain body n where bn: "bn = (body, n)" by force
      let ?gap = "gap_before (map_of (last_counter s) (Some sid)) (packet_counter hdr)"
      have "interp_step (Datagram b) s
          (Some \<lparr>rec_type = ''data'', rec_metadata = make_metadata hdr ctx ?gap,
            rec_context = None, rec_data = Some body\<rparr>) s'"
        using assms(6) t Inr bn False Some l
        by (intro interp_step.delivered [OF assms(1-3) Some l, where g = g])
          (auto simp: process_data_def as_int_def Let_def)
      with t Inr bn ok False Some l assms(6) show ?thesis
        by (auto simp: process_data_def as_int_def Let_def)
    qed
  qed
qed

lemma process_refines_step:
  assumes "module_state_ok g" "contexts_wf s" "process i s g = (r, s', g')"
  shows "interp_step i s r s' \<and> module_state_ok g'"
proof -
  have fail: "interp_step i s None
      (s\<lparr>errors := errors s + 1, interp_log := logged ''unparseable'' (interp_log s)\<rparr>)"
    by (rule interp_step.failed) (simp_all add: same_tables_def)
  show ?thesis
  proof (cases i)
    case Stray
    with assms fail show ?thesis by (auto simp: process_def)
  next
    case (Datagram b)
    show ?thesis
    proof (cases "parse_header b")
      case (Inl e)
      with Datagram assms fail show ?thesis by (auto simp: process_def process_inner_def)
    next
      case (Inr hdr)
      show ?thesis
      proof (cases "packet_type hdr \<in> {1, 4}")
        case False
        with Datagram Inr assms drop_packet_step [of i s "''unknown-packet-type''"] show ?thesis
          by (auto simp: process_def process_inner_def PACKET_TYPE_IF_DATA_def PACKET_TYPE_IF_CONTEXT_def)
      next
        case True
        with parsed_stream_id [OF Inr] obtain sid where sid: "stream_id hdr = Some sid" by blast
        obtain res s1 g1 where p: "process_inner b s g = (res, s1, g1)" by (metis prod_cases3)
        have "(\<forall>e. res = Inl e \<longrightarrow> s1 = s) \<and> (\<forall>r. res = Inr r \<longrightarrow> interp_step (Datagram b) s r s1) \<and>
            module_state_ok g1"
        proof (cases "packet_type hdr = 4")
          case True
          with p Inr sid have "process_context b hdr (Some sid) s g = (res, s1, g1)"
            by (simp add: process_inner_def PACKET_TYPE_IF_CONTEXT_def PACKET_TYPE_IF_DATA_def)
          then show ?thesis by (rule process_context_step [OF Inr True sid assms(1)])
        next
          case False
          with True have t1: "packet_type hdr = 1" by simp
          with p Inr sid have "process_data b hdr (Some sid) s g = (res, s1, g1)"
            by (simp add: process_inner_def PACKET_TYPE_IF_CONTEXT_def PACKET_TYPE_IF_DATA_def)
          then show ?thesis by (rule process_data_step [OF Inr t1 sid assms(1,2)])
        qed
        with assms(3) fail Datagram p show ?thesis
          by (cases res) (auto simp: process_def)
      qed
    qed
  qed
qed

end
