(* ===== verification/Header_Codec.thy ===== *)
theory Header_Codec
  imports Header
begin

unbundle bit_operations_syntax

text \<open>
  The header encoder of the test builders (\<open>tests/conftest.py\<close>, \<open>build_header\<close> and
  \<open>header_len_for\<close>) and the round trip with \<open>parse_header\<close>. The encoder fails as the code does:
  a field out of range is a \<open>struct.error\<close>, a class id of the wrong length an assertion.
\<close>

definition build_word0 :: "int \<Rightarrow> bool \<Rightarrow> bool \<Rightarrow> int \<Rightarrow> int \<Rightarrow> int \<Rightarrow> int \<Rightarrow> int" where
  "build_word0 ptype has_cid trailer tsi_mode tsf_mode counter total_words =
     (push_bit 28 (ptype AND 0xF)) OR (push_bit 27 (of_bool has_cid)) OR
     (push_bit 26 (of_bool trailer)) OR (push_bit 22 (tsi_mode AND 0x3)) OR
     (push_bit 20 (tsf_mode AND 0x3)) OR (push_bit 16 (counter AND 0xF)) OR
     (total_words AND 0xFFFF)"

definition build_header ::
  "int \<Rightarrow> int \<Rightarrow> int \<Rightarrow> int \<Rightarrow> int \<Rightarrow> int \<Rightarrow> bytes option \<Rightarrow> bool \<Rightarrow> int \<Rightarrow> int \<Rightarrow> exn + bytes" where
  "build_header ptype total_words sid counter its fts cid trailer tsi_mode tsf_mode =
     sbind (pack_uint 4 (build_word0 ptype (cid \<noteq> None) trailer tsi_mode tsf_mode counter total_words)) (\<lambda>w.
     sbind (pack_uint 4 sid) (\<lambda>s.
     sbind (case cid of None \<Rightarrow> Inr []
            | Some c \<Rightarrow> if length c = 8 then Inr c else Inl AssertionError) (\<lambda>c.
     sbind (if tsi_mode \<noteq> 0 then pack_uint 4 its else Inr []) (\<lambda>i.
     sbind (if tsf_mode \<noteq> 0 then pack_uint 8 fts else Inr []) (\<lambda>f.
       Inr (w @ s @ c @ i @ f))))))"

definition header_len_for :: "bool \<Rightarrow> int \<Rightarrow> int \<Rightarrow> int" where
  "header_len_for cid tsi_mode tsf_mode =
     8 + (if cid then 8 else 0) + (if tsi_mode \<noteq> 0 then 4 else 0) + (if tsf_mode \<noteq> 0 then 8 else 0)"

section \<open>The bit windows of word0\<close>

lemma and_masks:
  "(x :: int) AND 15 = take_bit 4 x" "(x :: int) AND 3 = take_bit 2 x"
  "(x :: int) AND 65535 = take_bit 16 x" "(x :: int) AND 1 = take_bit 1 x"
  by (simp_all add: take_bit_eq_mask mask_eq_exp_minus_1)

text \<open>A word built as \<open>push_bit k a OR r\<close> with \<open>r\<close> below \<open>2 ^ k\<close>: its two parts do not overlap.\<close>

lemma or_window_high:
  fixes r :: int
  assumes "0 \<le> r" "r < 2 ^ k"
  shows "drop_bit k (push_bit k a OR r) = a"
proof -
  have "drop_bit k r = 0"
    using assms by (simp add: drop_bit_eq_div)
  then show ?thesis by (simp add: drop_bit_push_bit)
qed

lemma or_window_low:
  fixes r :: int
  assumes "j + m \<le> k"
  shows "take_bit m (drop_bit j (push_bit k a OR r)) = take_bit m (drop_bit j r)"
proof -
  have "take_bit m (drop_bit j (push_bit k a)) = 0"
    using assms by (simp add: drop_bit_push_bit take_bit_push_bit)
  then show ?thesis by simp
qed

lemma or_window_bounds:
  fixes r :: int
  assumes "0 \<le> r" "r < 2 ^ k" "0 \<le> a" "a < 2 ^ m" "n = k + m"
  shows "0 \<le> push_bit k a OR r" "push_bit k a OR r < 2 ^ n"
proof -
  have "(2 :: int) ^ k \<le> 2 ^ (k + m)" by (intro power_increasing) simp_all
  with assms(2) have "r < 2 ^ (k + m)" by (rule order_less_le_trans)
  with assms(1) have "take_bit (k + m) r = r" by (rule take_bit_int_eq_self)
  then have "take_bit n (push_bit k a OR r) = push_bit k a OR r"
    using assms by (simp add: take_bit_push_bit take_bit_int_eq_self)
  then show "0 \<le> push_bit k a OR r" "push_bit k a OR r < 2 ^ n"
    by (metis take_bit_nonnegative, metis take_bit_int_less_exp)
qed

text \<open>Reading each window back, for any arguments: the word keeps each one modulo its width.\<close>

lemma build_word0_windows:
  fixes p i f k n :: int and c t :: bool
  defines "w \<equiv> build_word0 p c t i f k n"
  shows "0 \<le> w" "w < 2 ^ 32" "word0_type w = p AND 15" "word0_flag w 27 = c"
    "word0_flag w 26 = t" "word0_tsi w = i AND 3" "word0_tsf w = f AND 3"
    "(drop_bit 16 w) AND 15 = k AND 15" "w AND 65535 = n AND 65535"
proof -
  define r6 where "r6 = take_bit 16 n"
  define r5 where "r5 = push_bit 16 (take_bit 4 k) OR r6"
  define r4 where "r4 = push_bit 20 (take_bit 2 f) OR r5"
  define r3 where "r3 = push_bit 22 (take_bit 2 i) OR r4"
  define r2 where "r2 = push_bit 26 (of_bool t) OR r3"
  define r1 where "r1 = push_bit 27 (of_bool c) OR r2"
  have w: "w = push_bit 28 (take_bit 4 p) OR r1"
    by (simp add: w_def build_word0_def r1_def r2_def r3_def r4_def r5_def r6_def and_masks)
  have b6: "0 \<le> r6" "r6 < 2 ^ 16"
    unfolding r6_def by (rule take_bit_nonnegative, rule take_bit_int_less_exp)
  have b5: "0 \<le> r5" "r5 < 2 ^ 20" unfolding r5_def
    by (rule or_window_bounds [OF b6, where m = 4]; simp add: take_bit_int_less_exp [of 4, simplified])+
  have b4: "0 \<le> r4" "r4 < 2 ^ 22" unfolding r4_def
    by (rule or_window_bounds [OF b5, where m = 2]; simp add: take_bit_int_less_exp [of 2, simplified])+
  have b3: "0 \<le> r3" "r3 < 2 ^ 24" unfolding r3_def
    by (rule or_window_bounds [OF b4, where m = 2]; simp add: take_bit_int_less_exp [of 2, simplified])+
  have b3': "r3 < 2 ^ 26" using b3 by simp
  have b2: "0 \<le> r2" "r2 < 2 ^ 27" unfolding r2_def
    by (rule or_window_bounds [OF b3(1) b3', where m = 1]; simp)+
  have b1: "0 \<le> r1" "r1 < 2 ^ 28" unfolding r1_def
    by (rule or_window_bounds [OF b2, where m = 1]; simp)+
  show "0 \<le> w" "w < 2 ^ 32" unfolding w
    by (rule or_window_bounds [OF b1, where m = 4]; simp add: take_bit_int_less_exp [of 4, simplified])+
  show "word0_type w = p AND 15"
    unfolding word0_type_def w or_window_high [OF b1] by (simp add: and_masks)
  have d27: "drop_bit 27 r1 = of_bool c" unfolding r1_def by (rule or_window_high [OF b2])
  have d26: "drop_bit 26 r2 = of_bool t" unfolding r2_def by (rule or_window_high [OF b3(1) b3'])
  have d22: "drop_bit 22 r3 = take_bit 2 i" unfolding r3_def by (rule or_window_high [OF b4])
  have d20: "drop_bit 20 r4 = take_bit 2 f" unfolding r4_def by (rule or_window_high [OF b5])
  have d16: "drop_bit 16 r5 = take_bit 4 k" unfolding r5_def by (rule or_window_high [OF b6])
  show "word0_flag w 27 = c"
    unfolding word0_flag_def and_masks w by (subst or_window_low) (simp_all add: d27)
  show "word0_flag w 26 = t"
    unfolding word0_flag_def and_masks w r1_def
    by (subst or_window_low, simp, subst or_window_low) (simp_all add: d26)
  show "word0_tsi w = i AND 3"
    unfolding word0_tsi_def and_masks w r1_def r2_def
    by (subst or_window_low, simp, subst or_window_low, simp, subst or_window_low) (simp_all add: d22)
  show "word0_tsf w = f AND 3"
    unfolding word0_tsf_def and_masks w r1_def r2_def r3_def
    by (subst or_window_low, simp, subst or_window_low, simp, subst or_window_low, simp,
        subst or_window_low) (simp_all add: d20)
  show "(drop_bit 16 w) AND 15 = k AND 15"
    unfolding and_masks w r1_def r2_def r3_def r4_def
    by (subst or_window_low, simp, subst or_window_low, simp, subst or_window_low, simp,
        subst or_window_low, simp, subst or_window_low) (simp_all add: d16)
  show "w AND 65535 = n AND 65535"
    unfolding and_masks w r1_def r2_def r3_def r4_def r5_def r6_def
    by (simp add: take_bit_push_bit)
qed

section \<open>Round trip\<close>

lemma opt_bytes_append:
  assumes "int (length xs) = i" "if p then int (length ys) = n else ys = []"
  shows "opt_bytes p (xs @ ys @ zs) i n = (if p then Some ys else None)"
proof (cases p)
  case True
  with assms have "py_slice (xs @ ys @ zs) i (i + n) = ys" by (intro py_slice_append) simp_all
  with True show ?thesis by (simp add: opt_bytes_def)
qed (simp add: opt_bytes_def)

lemma build_header_Inr:
  assumes "build_header p tw sid ctr its fts cid tr ti tf = Inr hdr"
  obtains c i f where
    "hdr = to_be 4 (build_word0 p (cid \<noteq> None) tr ti tf ctr tw) @ to_be 4 sid @ c @ i @ f"
    "0 \<le> sid" "sid < 2 ^ 32"
    "if cid \<noteq> None then int (length c) = 8 \<and> cid = Some c else c = []"
    "if ti \<noteq> 0 then i = to_be 4 its \<and> 0 \<le> its \<and> its < 2 ^ 32 else i = []"
    "if tf \<noteq> 0 then f = to_be 8 fts \<and> 0 \<le> fts \<and> fts < 2 ^ 64 else f = []"
  using assms
  by (auto simp: build_header_def sbind_Inr_iff pack_uint_Inr split: option.splits if_splits)

lemma build_header_length:
  assumes "build_header p tw sid ctr its fts cid tr ti tf = Inr hdr"
  shows "int (length hdr) = header_len_for (cid \<noteq> None) ti tf"
  using assms
  by (rule build_header_Inr) (auto simp: header_len_for_def split: if_splits)

lemma parse_build_header:
  assumes built: "build_header p tw sid ctr its fts cid tr ti tf = Inr hdr"
    and sidtype: "p AND 15 \<in> {1, 3, 4, 5}"
    and modes: "0 \<le> ti" "ti < 4" "0 \<le> tf" "tf < 4"
  shows "parse_header (hdr @ body) = Inr
    \<lparr>packet_type = p AND 15, class_id = cid, has_trailer = tr, tsi = ti, tsf = tf,
     packet_counter = ctr AND 15, packet_size = tw AND 65535, stream_id = Some sid,
     int_ts = (if ti \<noteq> 0 then Some its else None),
     frac_ps = (if tf \<noteq> 0 then Some fts else None),
     header_len = header_len_for (cid \<noteq> None) ti tf\<rparr>"
proof -
  define W where "W = build_word0 p (cid \<noteq> None) tr ti tf ctr tw"
  from built obtain c i f where hdr: "hdr = to_be 4 W @ to_be 4 sid @ c @ i @ f"
    and sid: "0 \<le> sid" "sid < 2 ^ 32"
    and c: "if cid \<noteq> None then int (length c) = 8 \<and> cid = Some c else c = []"
    and i: "if ti \<noteq> 0 then i = to_be 4 its \<and> 0 \<le> its \<and> its < 2 ^ 32 else i = []"
    and f: "if tf \<noteq> 0 then f = to_be 8 fts \<and> 0 \<le> fts \<and> fts < 2 ^ 64 else f = []"
    unfolding W_def by (rule build_header_Inr)
  have m: "ti AND 3 = ti" "tf AND 3 = tf"
    using modes by (simp_all add: and_masks take_bit_int_eq_self)
  have Wb: "0 \<le> W" "W < 2 ^ 32" and Wt: "word0_type W = p AND 15"
    and Wf: "word0_flag W 27 = (cid \<noteq> None)" "word0_flag W 26 = tr"
    and Wm: "word0_tsi W = ti" "word0_tsf W = tf"
    and Wl: "drop_bit 16 W AND 15 = ctr AND 15" "W AND 65535 = tw AND 65535"
    unfolding W_def using m by (simp_all add: build_word0_windows [simplified])
  let ?b = "hdr @ body"
  have w0: "word0_of ?b = W"
    using Wb py_slice_append [of "[]" 0 4 "to_be 4 W"] by (simp add: word0_of_def hdr)
  have sidc: "carries_stream_id (word0_type W)"
    using sidtype by (simp add: carries_stream_id_def Wt)
  have len: "implied_length W = header_len_for (cid \<noteq> None) ti tf"
    using sidc by (simp add: implied_length_def header_length_def header_len_for_def size_defs Wf Wm)
  let ?o2 = "8 + (if cid \<noteq> None then 8 else 0)" and ?o3 = "8 + (if cid \<noteq> None then 8 else 0) + (if ti \<noteq> 0 then 4 else 0)"
  have s1: "opt_bytes True ?b 4 4 = Some (to_be 4 sid)"
    using opt_bytes_append [of "to_be 4 W" 4 True "to_be 4 sid" 4] by (simp add: hdr)
  have s2: "opt_bytes (cid \<noteq> None) ?b 8 8 = cid"
    using c opt_bytes_append [of "to_be 4 W @ to_be 4 sid" 8 "cid \<noteq> None" c 8]
    by (auto simp: hdr split: if_splits)
  have s3: "opt_bytes (ti \<noteq> 0) ?b ?o2 4 = (if ti \<noteq> 0 then Some (to_be 4 its) else None)"
    using c i opt_bytes_append [of "to_be 4 W @ to_be 4 sid @ c" ?o2 "ti \<noteq> 0" i 4]
    by (auto simp: hdr split: if_splits)
  have s4: "opt_bytes (tf \<noteq> 0) ?b ?o3 8 = (if tf \<noteq> 0 then Some (to_be 8 fts) else None)"
    using c i f opt_bytes_append [of "to_be 4 W @ to_be 4 sid @ c @ i" ?o3 "tf \<noteq> 0" f 8]
    by (auto simp: hdr split: if_splits)
  have "header_len_for (cid \<noteq> None) ti tf \<le> int (length ?b)"
    using build_header_length [OF built] by simp
  moreover have "4 \<le> header_len_for (cid \<noteq> None) ti tf"
    by (simp add: header_len_for_def)
  ultimately have "parse_header ?b = Inr (parsed_header ?b)"
    by (simp add: parse_header_eq w0 len)
  also have "parsed_header ?b = \<lparr>packet_type = p AND 15, class_id = cid, has_trailer = tr, tsi = ti, tsf = tf,
     packet_counter = ctr AND 15, packet_size = tw AND 65535, stream_id = Some sid,
     int_ts = (if ti \<noteq> 0 then Some its else None),
     frac_ps = (if tf \<noteq> 0 then Some fts else None),
     header_len = header_len_for (cid \<noteq> None) ti tf\<rparr>"
    using sidc s1 s2 s3 s4 sid i f
    by (simp add: parsed_header_def Let_def w0 len Wt Wf Wm Wl split: if_splits)
  finally show ?thesis .
qed

end
