(* ===== verification/Packet_Codec.thy ===== *)
theory Packet_Codec
  imports Header_Codec Context Trim
begin

unbundle bit_operations_syntax

text \<open>
  The packet encoders of the test builders (\<open>standard_context_fields\<close>, \<open>build_context_packet\<close>,
  \<open>build_data_packet\<close> of \<open>tests/conftest.py\<close>) and the end-to-end round trips with the parser:
  what the decoder reads out of a built packet is what the builder was given.
\<close>

section \<open>Encoders\<close>

text \<open>\<open>struct.pack(">q", n)\<close> and \<open>int(x)\<close> of a float, which truncates towards zero.\<close>

definition pack_int64 :: "int \<Rightarrow> exn + bytes" where
  "pack_int64 n = (if - (2 ^ 63) \<le> n \<and> n < 2 ^ 63 then Inr (to_be 8 n) else Inl StructError)"

definition py_trunc :: "rat \<Rightarrow> int" where
  "py_trunc x = (if x < 0 then - \<lfloor>- x\<rfloor> else \<lfloor>x\<rfloor>)"

definition encode_freq :: "rat \<Rightarrow> exn + bytes" where
  "encode_freq hz = pack_int64 (py_trunc (fmul hz (of_pyint (2 ^ 20))))"

definition standard_context_fields :: "rat \<Rightarrow> rat \<Rightarrow> rat \<Rightarrow> int \<Rightarrow> exn + (nat \<times> bytes) list" where
  "standard_context_fields bandwidth_hz rf_hz sample_rate_hz payload_format_u64 =
     sbind (encode_freq bandwidth_hz) (\<lambda>bw.
     sbind (encode_freq rf_hz) (\<lambda>rf.
     sbind (encode_freq sample_rate_hz) (\<lambda>sr.
     sbind (pack_uint 8 payload_format_u64) (\<lambda>pf.
       Inr [(29, bw), (27, rf), (21, sr), (15, pf)]))))"

definition cif_word :: "nat list \<Rightarrow> int" where
  "cif_word bits = fold (\<lambda>k cif. cif OR push_bit k 1) bits 0"

definition fields_body :: "nat list \<Rightarrow> (nat \<times> bytes) list \<Rightarrow> bytes" where
  "fields_body bits fs = concat (map (\<lambda>k. the (map_of fs k)) bits)"

definition build_context_packet ::
  "(nat \<times> bytes) list \<Rightarrow> int \<Rightarrow> int \<Rightarrow> int \<Rightarrow> int \<Rightarrow> bytes option \<Rightarrow> int \<Rightarrow> int \<Rightarrow> exn + bytes" where
  "build_context_packet fs sid counter its fts cid tsi_mode tsf_mode =
     sbind (pack_uint 4 (cif_word (dict_keys fs))) (\<lambda>c.
       let body = c @ fields_body (rev (sort (dict_keys fs))) fs;
           total = header_len_for (cid \<noteq> None) tsi_mode tsf_mode + int (length body)
       in if total mod 4 \<noteq> 0 then Inl AssertionError
          else sbind (build_header 4 (total div 4) sid counter its fts cid False tsi_mode tsf_mode)
                 (\<lambda>h. Inr (h @ body)))"

definition build_data_packet ::
  "bytes \<Rightarrow> int \<Rightarrow> int \<Rightarrow> int \<Rightarrow> int \<Rightarrow> bytes option \<Rightarrow> bool \<Rightarrow> int \<Rightarrow> int \<Rightarrow> bytes \<Rightarrow> exn + bytes" where
  "build_data_packet payload sid counter its fts cid trailer tsi_mode tsf_mode pad =
     (let body = payload @ pad @ (if trailer then replicate 4 0xAA else []);
          total = header_len_for (cid \<noteq> None) tsi_mode tsf_mode + int (length body)
      in if total mod 4 \<noteq> 0 then Inl AssertionError
         else sbind (build_header 1 (total div 4) sid counter its fts cid trailer tsi_mode tsf_mode)
                (\<lambda>h. Inr (h @ body)))"

section \<open>The data packet round trip\<close>

lemma header_len_for_bounds: "8 \<le> header_len_for c i f" "header_len_for c i f \<le> 28"
    "header_len_for c i f mod 4 = 0"
  by (simp_all add: header_len_for_def)

text \<open>Both packet builders end the same way: an alignment assertion, then header and body.\<close>

lemma framed_Inr:
  "(if c then Inl e else sbind r (\<lambda>h. Inr (h @ body))) = Inr pkt \<longleftrightarrow> \<not> c \<and> (\<exists>h. r = Inr h \<and> pkt = h @ body)"
  by (auto simp: sbind_Inr_iff)

lemma build_data_packet_Inr:
  assumes "build_data_packet payload sid ctr its fts cid tr ti tf pad = Inr pkt"
  obtains h body where "pkt = h @ body" "body = payload @ pad @ (if tr then replicate 4 0xAA else [])"
    "int (length pkt) mod 4 = 0" "int (length h) = header_len_for (cid \<noteq> None) ti tf"
    "build_header 1 (int (length pkt) div 4) sid ctr its fts cid tr ti tf = Inr h"
proof -
  let ?body = "payload @ pad @ (if tr then replicate 4 0xAA else []) :: bytes"
  let ?total = "header_len_for (cid \<noteq> None) ti tf + int (length ?body)"
  have e: "?total mod 4 = 0 \<and> (\<exists>h. build_header 1 (?total div 4) sid ctr its fts cid tr ti tf = Inr h \<and>
      pkt = h @ ?body)"
    using assms unfolding build_data_packet_def Let_def framed_Inr not_not .
  then obtain h where pkt: "pkt = h @ ?body"
    and h: "build_header 1 (?total div 4) sid ctr its fts cid tr ti tf = Inr h"
    by (elim conjE exE)
  from e have t: "?total mod 4 = 0" ..
  from build_header_length [OF h] pkt have "int (length pkt) = ?total" by simp
  with t h pkt build_header_length [OF h] show ?thesis by (intro that [of h ?body]) simp_all
qed

text \<open>Whole samples followed by padding, cut to whole samples.\<close>

lemma whole_samples:
  fixes payload pad :: bytes
  assumes "int (length payload) mod bps = 0" "0 < bps"
  defines "n \<equiv> int (length payload + length pad) div bps"
  shows "take (nat (n * bps)) (payload @ pad) = payload \<and> n = int (length payload) div bps \<longleftrightarrow> int (length pad) < bps"
proof -
  from assms(1) obtain m where m: "int (length payload) = m * bps" by (metis div_mult_mod_eq add.right_neutral)
  then have n: "n = m + int (length pad) div bps" using assms(2) by (simp add: n_def div_mult_self4 add.commute)
  have "int (length pad) div bps = 0 \<longleftrightarrow> int (length pad) < bps" using assms(2) by (auto simp: zdiv_eq_0_iff)
  moreover have "nat (m * bps) = length payload" using m by (metis nat_int)
  ultimately show ?thesis using n m assms(2) by auto
qed

text \<open>C35: encoder and decoder agree on data packets: whatever payload a packet is built around
  (any header flags, with or without a trailer, padded to the word; the packet fits the 16-bit size
  field), parsing the packet and trimming it, even with foreign bytes glued to its end, returns the
  largest whole number of samples of the payload followed by its padding. For a payload of whole
  samples that is the payload and the number of its samples exactly when the padding is shorter
  than a sample: otherwise the padding is read as samples, the limitation the source documents.\<close>

theorem data_packet_roundtrip:
  assumes built: "build_data_packet payload sid ctr its fts cid tr ti tf pad = Inr pkt"
    and modes: "0 \<le> ti" "ti < 4" "0 \<le> tf" "tf < 4"
    and bps: "0 < bps" and small: "length pkt < 2 ^ 18"
  shows "\<exists>hdr. parse_header (pkt @ junk) = Inr hdr \<and> packet_type hdr = 1 \<and>
    stream_id hdr = Some sid \<and> packet_counter hdr = ctr mod 16 \<and> class_id hdr = cid \<and>
    packet_size hdr * 4 = int (length pkt) \<and>
    (let n = int (length payload + length pad) div bps in
       fst (trim_data (pkt @ junk) hdr bps g) = Inr (take (nat (n * bps)) (payload @ pad), n)) \<and>
    (int (length payload) mod bps = 0 \<longrightarrow>
       (fst (trim_data (pkt @ junk) hdr bps g) = Inr (payload, int (length payload) div bps) \<longleftrightarrow> int (length pad) < bps))"
proof -
  from built obtain h body where pkt: "pkt = h @ body"
    and body: "body = payload @ pad @ (if tr then replicate 4 0xAA else [])"
    and al: "int (length pkt) mod 4 = 0"
    and hl: "int (length h) = header_len_for (cid \<noteq> None) ti tf"
    and h: "build_header 1 (int (length pkt) div 4) sid ctr its fts cid tr ti tf = Inr h"
    by (rule build_data_packet_Inr)
  have "(1 :: int) AND 15 \<in> {1, 3, 4, 5}" by simp
  note parsed = parse_build_header [OF h this modes, of "body @ junk"]
  define hdr where "hdr = \<lparr>packet_type = 1 AND 15, class_id = cid, has_trailer = tr, tsi = ti, tsf = tf,
     packet_counter = ctr AND 15, packet_size = (int (length pkt) div 4) AND 65535, stream_id = Some sid,
     int_ts = (if ti \<noteq> 0 then Some its else None),
     frac_ps = (if tf \<noteq> 0 then Some fts else None),
     header_len = header_len_for (cid \<noteq> None) ti tf\<rparr>"
  have p: "parse_header (pkt @ junk) = Inr hdr" using parsed by (simp add: pkt hdr_def)
  have "int (length pkt) div 4 < 2 ^ 16" "0 \<le> int (length pkt) div 4" using small by simp_all
  then have "(int (length pkt) div 4) AND 65535 = int (length pkt) div 4"
    unfolding and_masks by (simp add: take_bit_int_eq_self)
  then have sz: "packet_size hdr * 4 = int (length pkt)"
    using al by (simp add: hdr_def minus_mod_eq_div_mult [symmetric])
  have hdrlen: "header_len hdr = int (length h)" by (simp add: hdr_def hl)
  have tr: "has_trailer hdr = tr" by (simp add: hdr_def)
  have "payload_end hdr = int (length h) + int (length (payload @ pad))"
    unfolding payload_end_def sz tr pkt body by simp
  then have po: "payload_of (pkt @ junk) hdr = payload @ pad"
    unfolding payload_of_def hdrlen
    by (simp add: py_slice_nonneg pkt body nat_add_distrib)
  let ?n = "int (length payload + length pad) div bps"
  have "packet_size hdr * 4 \<le> int (length (pkt @ junk))" "bps \<noteq> 0" using sz bps by simp_all
  moreover have "0 \<le> ?n * bps" using bps by (simp add: pos_imp_zdiv_nonneg_iff)
  ultimately have trimmed: "fst (trim_data (pkt @ junk) hdr bps g) = Inr (take (nat (?n * bps)) (payload @ pad), ?n)"
    using trim_data_eq [of hdr "pkt @ junk" bps g] unfolding po by (simp add: py_slice_nonneg del: take_append)
  note whole = whole_samples [OF _ bps, of payload pad]
  have fields: "packet_type hdr = 1 \<and> stream_id hdr = Some sid \<and> packet_counter hdr = ctr mod 16 \<and>
      class_id hdr = cid"
    by (simp add: hdr_def and_masks take_bit_eq_mod)
  show ?thesis
    by (intro exI [of _ hdr] conjI impI) (use p sz fields trimmed whole in \<open>simp_all add: Let_def\<close>)
qed

section \<open>The context packet round trip\<close>

lemma cif_word_bit: "bit (cif_word ks) k \<longleftrightarrow> k \<in> set ks"
proof -
  have one: "bit (push_bit m 1 :: int) k \<longleftrightarrow> k = m" for m
    unfolding push_bit_of_1 bit_exp_iff by simp
  have "bit (fold (\<lambda>k cif. cif OR push_bit k 1) ks c) k \<longleftrightarrow> bit c k \<or> k \<in> set ks" for c :: int
  proof (induction ks arbitrary: c)
    case (Cons m ks)
    show ?case unfolding fold.simps comp_def Cons.IH bit_or_iff one by auto
  qed simp
  then show ?thesis by (simp add: cif_word_def)
qed

lemma cif_word_present: "drop_bit k (cif_word ks) AND 1 = 0 \<longleftrightarrow> k \<notin> set ks"
proof -
  have "drop_bit k (cif_word ks) AND 1 = of_bool (bit (cif_word ks) k)"
    by (simp add: and_one_eq mod2_eq_if bit_iff_odd_drop_bit)
  then show ?thesis by (simp add: cif_word_bit)
qed

text \<open>The specification of decoding: each field of the packet in wire order, decoded by itself.\<close>

definition apply_fields ::
  "nat list \<Rightarrow> (nat \<times> bytes) list \<Rightarrow> pydict \<times> module_state \<Rightarrow> pydict \<times> module_state" where
  "apply_fields bits fs = fold (\<lambda>k (ctx, g). decode_field k (the (map_of fs k)) ctx g) bits"

definition fields_sized :: "(nat \<times> bytes) list \<Rightarrow> bool" where
  "fields_sized fs \<longleftrightarrow> distinct (dict_keys fs) \<and>
     (\<forall>(k, v) \<in> set fs. map_of FIELD_SIZE k = Some (int (length v)))"

lemma fields_sized_lookup:
  "fields_sized fs \<Longrightarrow> k \<in> set (dict_keys fs) \<Longrightarrow>
     \<exists>v. map_of fs k = Some v \<and> map_of FIELD_SIZE k = Some (int (length v))"
  by (drule in_keys_map_of) (auto simp: fields_sized_def dest: map_of_SomeD)

lemma fields_sized_bits: "fields_sized fs \<Longrightarrow> k \<in> set (dict_keys fs) \<Longrightarrow> 10 \<le> k \<and> k < 31"
proof -
  assume "fields_sized fs" "k \<in> set (dict_keys fs)"
  then obtain n where "map_of FIELD_SIZE k = Some n"
    using fields_sized_lookup by blast
  then have "k \<in> set (dict_keys FIELD_SIZE)" by (rule map_of_Some_keys)
  then show ?thesis unfolding FIELD_SIZE_keys set_rev set_upt atLeastLessThan_iff .
qed

lemma walk_cif_fields:
  assumes "fields_sized fs" "b = pre @ fields_body (filter (\<lambda>k. k \<in> set (dict_keys fs)) ks) fs @ post"
    and "offset = int (length pre)" "offset + int (length (fields_body (filter (\<lambda>k. k \<in> set (dict_keys fs)) ks) fs)) \<le> end_limit"
  shows "walk_cif b (cif_word (dict_keys fs)) end_limit ks offset ctx g =
    (case apply_fields (filter (\<lambda>k. k \<in> set (dict_keys fs)) ks) fs (ctx, g) of (ctx', g') \<Rightarrow> (Inr ctx', g'))"
  using assms
proof (induction ks arbitrary: pre offset ctx g)
  case Nil
  then show ?case by (simp add: apply_fields_def)
next
  case (Cons k ks)
  let ?rest = "filter (\<lambda>k. k \<in> set (dict_keys fs)) ks"
  show ?case
  proof (cases "k \<in> set (dict_keys fs)")
    case False
    with Cons show ?thesis by (simp add: cif_word_present)
  next
    case True
    then obtain v where v: "map_of fs k = Some v" "map_of FIELD_SIZE k = Some (int (length v))"
      using fields_sized_lookup [OF Cons.prems(1)] by blast
    have "k \<noteq> CONTEXT_FIELD_CHANGE_BIT"
      using fields_sized_bits [OF Cons.prems(1) True] by (simp add: CONTEXT_FIELD_CHANGE_BIT_def)
    have body: "fields_body (filter (\<lambda>k. k \<in> set (dict_keys fs)) (k # ks)) fs = v @ fields_body ?rest fs"
      using True v(1) by (simp add: fields_body_def)
    have b: "b = (pre @ v) @ fields_body ?rest fs @ post"
      using Cons.prems(2) body by simp
    have slice: "py_slice b offset (offset + int (length v)) = v"
      using Cons.prems(3) by (simp add: b py_slice_append)
    have fits: "offset + int (length v) + int (length (fields_body ?rest fs)) \<le> end_limit"
      using Cons.prems(4) unfolding body by simp
    then have "\<not> end_limit < offset + int (length v)" by linarith
    obtain c1 g1 where d: "decode_field k v ctx g = (c1, g1)" by force
    have "walk_cif b (cif_word (dict_keys fs)) end_limit (k # ks) offset ctx g
        = walk_cif b (cif_word (dict_keys fs)) end_limit ks (offset + int (length v)) c1 g1"
      using True \<open>k \<noteq> _\<close> v slice d \<open>\<not> _ < _\<close> by (simp add: cif_word_present)
    also have "\<dots> = (case apply_fields ?rest fs (c1, g1) of (ctx', g') \<Rightarrow> (Inr ctx', g'))"
      using Cons.prems(3) fits by (intro Cons.IH [OF Cons.prems(1) b]) simp_all
    also have "apply_fields ?rest fs (c1, g1) = apply_fields (filter (\<lambda>k. k \<in> set (dict_keys fs)) (k # ks)) fs (ctx, g)"
      using True v(1) d by (simp add: apply_fields_def)
    finally show ?thesis .
  qed
qed

lemma present_bits:
  assumes "fields_sized fs"
  shows "filter (\<lambda>k. k \<in> set (dict_keys fs)) (rev [0..<32]) = rev (sort (dict_keys fs))"
proof -
  have "sorted (filter (\<lambda>k. k \<in> set (dict_keys fs)) [0..<32])"
    by (rule sorted_filter [where f = id, unfolded list.map_id id_apply]) (rule sorted_upt)
  moreover have "distinct (filter (\<lambda>k. k \<in> set (dict_keys fs)) [0..<32])" by (simp del: list.set_map)
  moreover have "set (filter (\<lambda>k. k \<in> set (dict_keys fs)) [0..<32]) = set (sort (dict_keys fs))"
    using fields_sized_bits [OF assms] by (fastforce simp del: list.set_map upt_conv_Cons upt_rec_numeral)
  moreover have "sorted (sort (dict_keys fs))" by (rule sorted_sort)
  moreover have "distinct (sort (dict_keys fs))" using assms by (simp add: fields_sized_def)
  ultimately have "filter (\<lambda>k. k \<in> set (dict_keys fs)) [0..<32] = sort (dict_keys fs)"
    by (intro sorted_distinct_set_unique)
  then show ?thesis by (simp only: rev_filter [symmetric])
qed

lemma build_context_packet_Inr:
  assumes "build_context_packet fs sid ctr its fts cid ti tf = Inr pkt"
  obtains h body where "pkt = h @ body"
    "body = to_be 4 (cif_word (dict_keys fs)) @ fields_body (rev (sort (dict_keys fs))) fs"
    "cif_word (dict_keys fs) < 2 ^ 32" "0 \<le> cif_word (dict_keys fs)"
    "int (length pkt) mod 4 = 0" "int (length h) = header_len_for (cid \<noteq> None) ti tf"
    "build_header 4 (int (length pkt) div 4) sid ctr its fts cid False ti tf = Inr h"
proof -
  obtain c where c: "pack_uint 4 (cif_word (dict_keys fs)) = Inr c"
    using assms unfolding build_context_packet_def by (cases "pack_uint 4 (cif_word (dict_keys fs))") simp_all
  let ?body = "c @ fields_body (rev (sort (dict_keys fs))) fs"
  let ?total = "header_len_for (cid \<noteq> None) ti tf + int (length ?body)"
  have e: "?total mod 4 = 0 \<and> (\<exists>h. build_header 4 (?total div 4) sid ctr its fts cid False ti tf = Inr h \<and>
      pkt = h @ ?body)"
    using assms unfolding build_context_packet_def Let_def c sbind_simps framed_Inr not_not .
  then obtain h where pkt: "pkt = h @ ?body"
    and h: "build_header 4 (?total div 4) sid ctr its fts cid False ti tf = Inr h"
    by (elim conjE exE)
  from e have t: "?total mod 4 = 0" ..
  from build_header_length [OF h] pkt have l: "int (length pkt) = ?total" by simp
  from c have c': "c = to_be 4 (cif_word (dict_keys fs))" "cif_word (dict_keys fs) < 2 ^ 32"
    "0 \<le> cif_word (dict_keys fs)" by (simp_all add: pack_uint_Inr)
  show ?thesis
    using pkt t h build_header_length [OF h] c' unfolding l [symmetric]
    by (intro that [of h ?body]) simp_all
qed

lemma context_packet_decodes:
  assumes built: "build_context_packet fs sid ctr its fts cid ti tf = Inr pkt"
    and modes: "0 \<le> ti" "ti < 4" "0 \<le> tf" "tf < 4"
    and sized: "fields_sized fs"
    and small: "length pkt < 2 ^ 18"
  shows "\<exists>hdr. parse_header (pkt @ junk) = Inr hdr \<and> packet_type hdr = 4 \<and> stream_id hdr = Some sid \<and>
    decode_context (pkt @ junk) hdr g =
      (case apply_fields (rev (sort (dict_keys fs))) fs ([], g) of (ctx, g') \<Rightarrow> (Inr ctx, g'))"
proof -
  let ?cif = "cif_word (dict_keys fs)" and ?fields = "fields_body (rev (sort (dict_keys fs))) fs"
  from built obtain h body where pkt: "pkt = h @ body" and body: "body = to_be 4 ?cif @ ?fields"
    and cif: "?cif < 2 ^ 32" "0 \<le> ?cif" and al: "int (length pkt) mod 4 = 0"
    and hl: "int (length h) = header_len_for (cid \<noteq> None) ti tf"
    and h: "build_header 4 (int (length pkt) div 4) sid ctr its fts cid False ti tf = Inr h"
    by (rule build_context_packet_Inr)
  have "(4 :: int) AND 15 \<in> {1, 3, 4, 5}" by simp
  note parsed = parse_build_header [OF h this modes, of "body @ junk"]
  define hdr where "hdr = \<lparr>packet_type = 4 AND 15, class_id = cid, has_trailer = False, tsi = ti, tsf = tf,
     packet_counter = ctr AND 15, packet_size = (int (length pkt) div 4) AND 65535, stream_id = Some sid,
     int_ts = (if ti \<noteq> 0 then Some its else None),
     frac_ps = (if tf \<noteq> 0 then Some fts else None),
     header_len = header_len_for (cid \<noteq> None) ti tf\<rparr>"
  have p: "parse_header (pkt @ junk) = Inr hdr" using parsed by (simp add: pkt hdr_def)
  have "int (length pkt) div 4 < 2 ^ 16" "0 \<le> int (length pkt) div 4" using small by simp_all
  then have "(int (length pkt) div 4) AND 65535 = int (length pkt) div 4"
    unfolding and_masks by (simp add: take_bit_int_eq_self)
  then have sz: "packet_size hdr * 4 = int (length pkt)"
    using al by (simp add: hdr_def minus_mod_eq_div_mult [symmetric])
  have hdrlen: "header_len hdr = int (length h)" by (simp add: hdr_def hl)
  have lim: "usable_end (pkt @ junk) hdr = int (length pkt)"
    unfolding usable_end_def sz by simp
  have "py_slice (pkt @ junk) (int (length h)) (int (length h) + 4) = to_be 4 ?cif"
    by (simp add: pkt body py_slice_append)
  then have c: "be_int (py_slice (pkt @ junk) (int (length h)) (int (length h) + 4)) = ?cif"
    using cif by simp
  have "walk_cif (pkt @ junk) ?cif (int (length pkt)) (rev [0..<32]) (int (length h) + 4) [] g
      = (case apply_fields (rev (sort (dict_keys fs))) fs ([], g) of (ctx', g') \<Rightarrow> (Inr ctx', g'))"
    using walk_cif_fields [OF sized, where ks = "rev [0..<32]" and pre = "h @ to_be 4 ?cif" and post = junk
        and b = "pkt @ junk" and offset = "int (length h) + 4" and end_limit = "int (length pkt)",
        unfolded present_bits [OF sized]]
    by (simp add: pkt body)
  moreover have "\<not> int (length pkt) < int (length h) + 4" by (simp add: pkt body)
  ultimately have "decode_context (pkt @ junk) hdr g =
      (case apply_fields (rev (sort (dict_keys fs))) fs ([], g) of (ctx, g') \<Rightarrow> (Inr ctx, g'))"
    unfolding decode_context_def Let_def usable_end_def [symmetric] lim hdrlen c
    by simp
  moreover have "packet_type hdr = 4 \<and> stream_id hdr = Some sid" by (simp add: hdr_def)
  ultimately show ?thesis using p by blast
qed

text \<open>C34: encoder and decoder agree on context packets: for any dictionary of sized CIF0 fields, in
  any insertion order, parsing and decoding the built packet, even with foreign bytes glued to its
  end, gives exactly the fields decoded one by one in descending bit order: skipped fields never
  shift the ones behind them.\<close>

theorem context_packet_roundtrip:
  assumes built: "build_context_packet fs sid ctr its fts cid ti tf = Inr pkt"
    and modes: "0 \<le> ti" "ti < 4" "0 \<le> tf" "tf < 4"
    and sized: "fields_sized fs"
    and small: "length pkt < 2 ^ 18"
  shows "\<exists>hdr. parse_header (pkt @ junk) = Inr hdr \<and> packet_type hdr = 4 \<and> stream_id hdr = Some sid \<and>
    decode_context (pkt @ junk) hdr g =
      (case apply_fields (rev (sort (dict_keys fs))) fs ([], g) of (ctx, g') \<Rightarrow> (Inr ctx, g'))"
  using context_packet_decodes [OF assms] .

section \<open>The standard context\<close>

text \<open>A frequency that is a multiple of the wire's resolution (and small enough for a double)
  survives encoding and decoding unchanged.\<close>

definition on_wire_grid :: "rat \<Rightarrow> bool" where
  "on_wire_grid hz \<longleftrightarrow> (\<exists>n. \<bar>n\<bar> \<le> 2 ^ 53 \<and> hz = of_int n / 2 ^ 20)"

lemma py_trunc_of_int [simp]: "py_trunc (of_int n) = n"
  by (simp add: py_trunc_def)

lemma encode_freq_grid:
  assumes "\<bar>n\<bar> \<le> 2 ^ 53"
  shows "encode_freq (of_int n / 2 ^ 20) = Inr (to_be 8 n)"
proof -
  have "of_pyint (2 ^ 20) = 2 ^ 20"
    using of_pyint_exact [of "2 ^ 20"] by simp
  then have "fmul (of_int n / 2 ^ 20) (of_pyint (2 ^ 20)) = of_int n"
    using fl_id [OF is_float_of_int [OF assms]] by (simp add: fmul_def)
  moreover have "- (2 ^ 63) \<le> n" "n < 2 ^ 63" using assms by (simp_all add: abs_le_iff)
  ultimately show ?thesis
    unfolding encode_freq_def pack_int64_def by (simp del: power_numeral semiring_norm)
qed

lemma encode_freq_decodes:
  assumes "on_wire_grid hz" "encode_freq hz = Inr bs"
  shows "length bs = 8" "freq_field bs = PFloat hz"
proof -
  from assms(1) obtain n where n: "\<bar>n\<bar> \<le> 2 ^ 53" "hz = of_int n / 2 ^ 20"
    unfolding on_wire_grid_def by blast
  have bs: "bs = to_be 8 n" using assms(2) unfolding n(2) encode_freq_grid [OF n(1)] by simp
  have "to_signed 64 (n mod 2 ^ 64) = n"
    using n(1) by (intro to_signed_encode) simp_all
  then have "to_signed 64 (be_int bs) = n" by (simp add: bs)
  with int_div_power2_exact [OF n(1), of 20] n(2) show "freq_field bs = PFloat hz"
    by (simp add: freq_field_def RADIX_FREQ_HZ_def)
  show "length bs = 8" by (simp add: bs)
qed

lemma standard_context_fields_Inr:
  assumes "standard_context_fields bw rf sr u = Inr fs"
  obtains b r s where "encode_freq bw = Inr b" "encode_freq rf = Inr r" "encode_freq sr = Inr s"
    "0 \<le> u" "u < 2 ^ 64" "fs = [(29, b), (27, r), (21, s), (15, to_be 8 u)]"
  using assms by (auto simp: standard_context_fields_def sbind_Inr_iff pack_uint_Inr)

text \<open>C33: the context the radio sends (bandwidth, RF frequency, sample rate on the wire's grid and
  a supported payload format) is decoded to exactly those values: the three frequencies as given,
  and the format's dtype, sample size and real/complex flag, marked supported.\<close>

theorem standard_context_roundtrip:
  assumes std: "standard_context_fields bw rf sr (canonical_word cplx fmt bits) = Inr fs"
    and grid: "on_wire_grid bw" "on_wire_grid rf" "on_wire_grid sr"
    and fmt: "map_of ITEM_FORMAT_DTYPES (fmt, bits) = Some dt"
    and built: "build_context_packet fs sid ctr its fts cid ti tf = Inr pkt"
    and modes: "0 \<le> ti" "ti < 4" "0 \<le> tf" "tf < 4"
  shows "\<exists>hdr. parse_header pkt = Inr hdr \<and> packet_type hdr = 4 \<and> stream_id hdr = Some sid \<and>
    decode_context pkt hdr g =
      (Inr [(''bandwidth_hz'', PFloat bw), (''rf_hz'', PFloat rf), (''sample_rate_hz'', PFloat sr),
            (''supported'', PBool True), (''component_dtype'', PStr dt),
            (''bytes_per_sample'', PInt ((if cplx then 2 else 1) * (bits div 8))),
            (''is_complex'', PBool cplx), (''data_item_format'', PInt fmt)], g)"
proof -
  from std obtain b r s where f: "encode_freq bw = Inr b" "encode_freq rf = Inr r" "encode_freq sr = Inr s"
    and u: "0 \<le> canonical_word cplx fmt bits" "canonical_word cplx fmt bits < 2 ^ 64"
    and fs: "fs = [(29, b), (27, r), (21, s), (15, to_be 8 (canonical_word cplx fmt bits))]"
    by (rule standard_context_fields_Inr)
  note fields = encode_freq_decodes [OF grid(1) f(1)] encode_freq_decodes [OF grid(2) f(2)]
    encode_freq_decodes [OF grid(3) f(3)]
  have sorted: "rev (sort (dict_keys fs)) = [29, 27, 21, 15]" by (simp add: fs)
  have "fields_sized fs"
    using fields by (simp add: fields_sized_def fs FIELD_SIZE_def cif_bits)
  moreover have "length pkt < 2 ^ 18"
  proof -
    from built obtain h body where "pkt = h @ body"
      "body = to_be 4 (cif_word (dict_keys fs)) @ fields_body (rev (sort (dict_keys fs))) fs"
      "int (length h) = header_len_for (cid \<noteq> None) ti tf"
      by (rule build_context_packet_Inr)
    with header_len_for_bounds(2) [of "cid \<noteq> None" ti tf] fields show ?thesis
      unfolding sorted by (simp add: fs fields_body_def)
  qed
  ultimately obtain hdr where hdr: "parse_header pkt = Inr hdr" "packet_type hdr = 4" "stream_id hdr = Some sid"
    and d: "decode_context pkt hdr g =
      (case apply_fields [29, 27, 21, 15] fs ([], g) of (ctx, g') \<Rightarrow> (Inr ctx, g'))"
    using context_packet_decodes [OF built modes, of "[]" g] unfolding sorted by auto
  have "be_int (to_be 8 (canonical_word cplx fmt bits)) = canonical_word cplx fmt bits"
    using u by simp
  then have "apply_fields [29, 27, 21, 15] fs ([], g) =
      ([(''bandwidth_hz'', PFloat bw), (''rf_hz'', PFloat rf), (''sample_rate_hz'', PFloat sr),
        (''supported'', PBool True), (''component_dtype'', PStr dt),
        (''bytes_per_sample'', PInt ((if cplx then 2 else 1) * (bits div 8))),
        (''is_complex'', PBool cplx), (''data_item_format'', PInt fmt)], g)"
    using fields
    by (simp add: apply_fields_def fs decode_field_def cif_bits canonical_word_decodes [OF fmt]
        format_fields_def pv_str_def pv_int_def del: be_int_to_be)
  with d hdr show ?thesis by auto
qed

section \<open>Concrete packets\<close>

text \<open>The packets the witnesses run on: the context of the recordings (97.3 MHz, complex float32)
  on stream 123 and data packets of the same stream with a class id and a trailer.\<close>

definition demo_fields :: "(nat \<times> bytes) list" where
  "demo_fields = [(29, to_be 8 (500000 * 2 ^ 20)), (27, to_be 8 (97300000 * 2 ^ 20)),
     (21, to_be 8 (625000 * 2 ^ 20)), (15, to_be 8 (canonical_word True 14 32))]"

definition demo_class_id :: bytes where
  "demo_class_id = [0x00, 0xff, 0xff, 0xa0, 0x20, 0x11, 0x00, 0x03]"

definition demo_context :: bytes where
  "demo_context = (case build_context_packet demo_fields 123 0 1750000000 0 (Some demo_class_id) 1 2 of
     Inr p \<Rightarrow> p | Inl _ \<Rightarrow> [])"

definition demo_data :: "int \<Rightarrow> bytes \<Rightarrow> bytes" where
  "demo_data ctr payload =
     (case build_data_packet payload 123 ctr 1750000000 0 (Some demo_class_id) True 1 2 [] of
        Inr p \<Rightarrow> p | Inl _ \<Rightarrow> [])"

definition demo_payload :: bytes where
  "demo_payload = [0x3f, 0x80, 0, 0, 0x40, 0, 0, 0, 0x40, 0x40, 0, 0, 0x40, 0x80, 0, 0]"

lemma demo_standard_fields:
  "standard_context_fields 500000 97300000 625000 (canonical_word True 14 32) = Inr demo_fields"
proof -
  have "0 \<le> canonical_word True 14 32" "canonical_word True 14 32 < 2 ^ 64" by code_simp+
  then show ?thesis
    using encode_freq_grid [of "500000 * 2 ^ 20"] encode_freq_grid [of "97300000 * 2 ^ 20"]
      encode_freq_grid [of "625000 * 2 ^ 20"]
    by (simp add: standard_context_fields_def pack_uint_def demo_fields_def)
qed

lemma demo_context_built:
  "build_context_packet demo_fields 123 0 1750000000 0 (Some demo_class_id) 1 2 = Inr demo_context"
  by code_simp

lemma demo_data_built:
  "build_data_packet demo_payload 123 3 1750000000 0 (Some demo_class_id) True 1 2 [] = Inr (demo_data 3 demo_payload)"
  by code_simp

theorem data_packet_roundtrip_witness:
  "\<exists>hdr. parse_header (demo_data 3 demo_payload @ [1, 2, 3]) = Inr hdr \<and>
     fst (trim_data (demo_data 3 demo_payload @ [1, 2, 3]) hdr 8 new_module_state) = Inr (demo_payload, 2)"
proof -
  have "length (demo_data 3 demo_payload) = 48" "length demo_payload = 16" by code_simp+
  then have l: "length (demo_data 3 demo_payload) < 2 ^ 18" "int (length demo_payload) = 16" by simp_all
  show ?thesis
    using data_packet_roundtrip [OF demo_data_built _ _ _ _ _ l(1), of 8 "[1, 2, 3]" new_module_state] l(2)
    by auto
qed

theorem context_packet_roundtrip_witness:
  "\<exists>hdr. parse_header (demo_context @ [7]) = Inr hdr \<and>
     decode_context (demo_context @ [7]) hdr new_module_state =
       (case apply_fields (rev (sort (dict_keys demo_fields))) demo_fields ([], new_module_state) of
          (ctx, g') \<Rightarrow> (Inr ctx, g'))"
proof -
  have s: "fields_sized demo_fields" "length demo_context = 64" by code_simp+
  then have "length demo_context < 2 ^ 18" by simp
  note s(1) this
  from context_packet_roundtrip [OF demo_context_built _ _ _ _ this, of "[7]" new_module_state]
  show ?thesis by auto
qed

theorem standard_context_roundtrip_witness:
  "\<exists>hdr ctx. parse_header demo_context = Inr hdr \<and>
     decode_context demo_context hdr new_module_state = (Inr ctx, new_module_state) \<and>
     py_get ctx ''rf_hz'' = PFloat 97300000 \<and> py_get ctx ''component_dtype'' = PStr ''>f4'' \<and>
     py_get ctx ''bytes_per_sample'' = PInt 8"
proof -
  have "on_wire_grid 500000" "on_wire_grid 97300000" "on_wire_grid 625000"
    unfolding on_wire_grid_def
    by (rule exI [of _ "500000 * 2 ^ 20"], simp, rule exI [of _ "97300000 * 2 ^ 20"], simp,
        rule exI [of _ "625000 * 2 ^ 20"], simp)
  moreover have "map_of ITEM_FORMAT_DTYPES (14, 32) = Some ''>f4''" by code_simp
  ultimately show ?thesis
    using standard_context_roundtrip [OF demo_standard_fields _ _ _ _ demo_context_built, of "''>f4''" new_module_state]
    by (auto simp: py_get_def)
qed

end
