(* ===== verification/Interp_Laws.thy ===== *)
theory Interp_Laws
  imports Interp Packet_Codec
begin

text \<open>
  Laws of the interpreter over any sequence of datagrams: the invariant of its tables, the bound on
  tracked streams, the accounting of every datagram, the gap flags and stream isolation. All of
  them go through the abstract step relation or the shared table contract.
\<close>

section \<open>Running over a sequence of items\<close>

fun process_all ::
  "raw_item list \<Rightarrow> interpreter \<Rightarrow> module_state \<Rightarrow>
     packet_record option list \<times> interpreter \<times> module_state" where
  "process_all [] s g = ([], s, g)"
| "process_all (i # is) s g =
    (case process i s g of (r, s1, g1) \<Rightarrow>
       (case process_all is s1 g1 of (rs, s2, g2) \<Rightarrow> (r # rs, s2, g2)))"

lemma process_all_append:
  "process_all (xs @ ys) s g =
    (case process_all xs s g of (rs, s1, g1) \<Rightarrow>
       (case process_all ys s1 g1 of (rs', s2, g2) \<Rightarrow> (rs @ rs', s2, g2)))"
  by (induction xs arbitrary: s g) (auto split: prod.splits)

lemma process_all_snoc:
  "process_all (xs @ [x]) s g =
    (case process_all xs s g of (rs, s1, g1) \<Rightarrow>
       (case process x s1 g1 of (r, s2, g2) \<Rightarrow> (rs @ [r], s2, g2)))"
  by (simp add: process_all_append split: prod.splits)

lemma length_process_all: "process_all xs s g = (rs, s', g') \<Longrightarrow> length rs = length xs"
  by (induction xs arbitrary: s g rs) (auto split: prod.splits)

section \<open>The tracked-stream table\<close>

text \<open>Either the table is unchanged or one admitted stream id is set.\<close>

definition table_step :: "interpreter \<Rightarrow> interpreter \<Rightarrow> bool" where
  "table_step s s' \<longleftrightarrow> max_streams s' = max_streams s \<and>
    (contexts s' = contexts s \<or>
      (\<exists>sid ctx. contexts s' = dict_set sid ctx (contexts s) \<and>
        (sid \<in> set (dict_keys (contexts s)) \<or> int (length (contexts s)) < max_streams s)))"

lemma table_step_refl [simp]:
  "table_step s (drop_packet reason s)" "table_step s s"
  "table_step s (s\<lparr>errors := e, interp_log := l\<rparr>)"
  by (simp_all add: table_step_def drop_packet_def)

lemma table_step_counts:
  "table_step s s1 \<Longrightarrow> table_step s (s1\<lparr>errors := e, interp_log := l\<rparr>)"
  by (simp add: table_step_def)

lemma table_step_set:
  "map_of (contexts s) k \<noteq> None \<or> \<not> max_streams s \<le> int (length (contexts s)) \<Longrightarrow>
     table_step s (s\<lparr>contexts := dict_set k ctx (contexts s)\<rparr>)"
  unfolding table_step_def map_of_None_iff_keys by auto

lemma process_context_table:
  "process_context b hdr k s g = (res, s1, g1) \<Longrightarrow> table_step s s1"
  using table_step_set [of s k]
  by (auto simp: process_context_def split: if_splits prod.splits sum.splits)

lemma process_data_table:
  "process_data b hdr k s g = (res, s1, g1) \<Longrightarrow> table_step s s1"
  by (auto simp: process_data_def Let_def table_step_def drop_packet_def
      split: if_splits prod.splits sum.splits option.splits)

lemma process_inner_table:
  "process_inner b s g = (res, s1, g1) \<Longrightarrow> table_step s s1"
  using process_context_table process_data_table
  by (auto simp: process_inner_def split: if_splits sum.splits)

lemma process_table:
  assumes "process i s g = (r, s', g')"
  shows "table_step s s'"
proof (cases i)
  case Stray
  with assms show ?thesis by (auto simp: process_def)
next
  case (Datagram b)
  obtain res s1 g1 where p: "process_inner b s g = (res, s1, g1)" by (metis prod_cases3)
  from process_inner_table [OF p] assms Datagram p show ?thesis
    by (cases res) (auto simp: process_def table_step_counts)
qed

definition interp_exec :: "raw_item \<Rightarrow> interpreter \<times> module_state \<Rightarrow> interpreter \<times> module_state" where
  "interp_exec i sg = (case process i (fst sg) (snd sg) of (r, s', g') \<Rightarrow> (s', g'))"

lemma process_all_exec:
  "process_all xs s g = (rs, s', g') \<Longrightarrow> fold interp_exec xs (s, g) = (s', g')"
  by (induction xs arbitrary: s g rs) (auto simp: interp_exec_def split: prod.splits)

interpretation ctx_table: bounded_table
  "\<lambda>sg. dict_keys (contexts (fst sg))" "\<lambda>sg. max_streams (fst sg)" interp_exec
proof unfold_locales
  fix i and sg :: "interpreter \<times> module_state"
  obtain r s' g' where p: "process i (fst sg) (snd sg) = (r, s', g')" by (metis prod_cases3)
  note t = process_table [OF p]
  show "max_streams (fst (interp_exec i sg)) = max_streams (fst sg)"
    using t p by (simp add: interp_exec_def table_step_def)
  have e: "contexts (fst (interp_exec i sg)) = contexts s'"
    using p by (simp add: interp_exec_def)
  from t consider "contexts s' = contexts (fst sg)"
    | k ctx where "contexts s' = dict_set k ctx (contexts (fst sg))"
        "k \<in> set (dict_keys (contexts (fst sg)))"
    | k ctx where "contexts s' = dict_set k ctx (contexts (fst sg))"
        "k \<notin> set (dict_keys (contexts (fst sg)))" "int (length (contexts (fst sg))) < max_streams (fst sg)"
    unfolding table_step_def by blast
  then show "dict_keys (contexts (fst (interp_exec i sg))) = dict_keys (contexts (fst sg)) \<or>
      (\<exists>k. k \<notin> set (dict_keys (contexts (fst sg))) \<and>
         int (length (dict_keys (contexts (fst sg)))) < max_streams (fst sg) \<and>
         dict_keys (contexts (fst (interp_exec i sg))) = dict_keys (contexts (fst sg)) @ [k])"
    unfolding e by cases (simp_all add: dict_keys_set del: list.set_map)
qed

section \<open>The invariant\<close>

definition interp_inv :: "interpreter \<Rightarrow> bool" where
  "interp_inv s \<longleftrightarrow> contexts_wf s \<and> distinct (dict_keys (contexts s)) \<and>
     int (length (contexts s)) \<le> max 0 (max_streams s) \<and>
     fst ` set (last_counter s) \<subseteq> fst ` set (contexts s) \<and>
     (\<forall>k \<in> fst ` set (contexts s). k \<noteq> None) \<and>
     (\<forall>k c. map_of (last_counter s) k = Some c \<longrightarrow> 0 \<le> c \<and> c < 16)"

lemma new_interpreter_inv [simp]: "interp_inv (new_interpreter n)"
  by (simp add: interp_inv_def new_interpreter_def contexts_wf_def)

lemma same_tables_inv: "same_tables s s' \<Longrightarrow> interp_inv s \<Longrightarrow> interp_inv s'"
  by (simp add: same_tables_def interp_inv_def contexts_wf_def)

lemma interp_step_inv: "interp_step i s r s' \<Longrightarrow> interp_inv s \<Longrightarrow> interp_inv s'"
proof (induction rule: interp_step.induct)
  case (adopted b hdr sid s g ctx s' r)
  then have "int (length (dict_set (Some sid) ctx (contexts s))) \<le> max 0 (max_streams s)"
    by (auto simp: interp_inv_def length_dict_set)
  with adopted show ?case
    by (auto simp: interp_inv_def contexts_wf_def distinct_dict_set)
next
  case (delivered b hdr sid s ctx dt bps cplx g body n gap s' r)
  have "Some sid \<in> fst ` set (contexts s)"
    using map_of_Some_keys [OF delivered(4)] by simp
  moreover have "0 \<le> packet_counter hdr \<and> packet_counter hdr < 16"
    using parse_header_wf [OF delivered(1)] by (simp add: header_wf_def)
  ultimately show ?case
    using delivered by (auto simp: interp_inv_def contexts_wf_def)
qed (simp_all add: same_tables_inv)

lemma interp_inv_contexts: "interp_inv s \<Longrightarrow> contexts_wf s"
  by (simp add: interp_inv_def)

lemma process_all_steps:
  assumes "module_state_ok g" "interp_inv s" "process_all xs s g = (rs, s', g')"
  shows "interp_inv s' \<and> module_state_ok g'"
  using assms
proof (induction xs arbitrary: s g rs)
  case Nil
  then show ?case by simp
next
  case (Cons x xs)
  obtain r s1 g1 where p: "process x s g = (r, s1, g1)" by (metis prod_cases3)
  have "interp_step x s r s1 \<and> module_state_ok g1"
    using Cons.prems(1) interp_inv_contexts [OF Cons.prems(2)] p by (rule process_refines_step)
  with Cons.prems(2) have "interp_inv s1" "module_state_ok g1"
    by (auto intro: interp_step_inv)
  with Cons p show ?case by (auto split: prod.splits)
qed

text \<open>C7: whatever datagrams arrive, the interpreter's tables stay well formed: at most
  \<open>max_streams\<close> tracked streams without duplicates, every adopted context either without a payload
  format, unsupported, or with a layout of the format table, counters only for tracked streams and
  below 16, and at most 64 distinct unsupported words remembered for logging.\<close>

theorem interpreter_invariant:
  assumes "process_all items (new_interpreter n) new_module_state = (rs, s, g)"
  shows "interp_inv s \<and> module_state_ok g"
  using process_all_steps [OF new_module_state_ok new_interpreter_inv assms] .

text \<open>Flood protection. From a fresh interpreter the set of tracked streams is duplicate-free and
  never exceeds the cap, and whatever arrives later, a tracked stream is never evicted or moved.\<close>

theorem interpreter_flood_bound:
  assumes "process_all items (new_interpreter n) new_module_state = (rs, s, g)"
    and "process_all later s g = (rs', s', g')"
  shows "distinct (dict_keys (contexts s)) \<and> int (length (contexts s)) \<le> max 0 n \<and>
    (\<exists>new. dict_keys (contexts s') = dict_keys (contexts s) @ new)"
proof -
  have e: "fold interp_exec items (new_interpreter n, new_module_state) = (s, g)"
    "fold interp_exec (items @ later) (new_interpreter n, new_module_state) = (s', g')"
    using process_all_exec [OF assms(1)] process_all_exec [OF assms(2)] by simp_all
  show ?thesis
    using ctx_table.run_from_empty [of "(new_interpreter n, new_module_state)" items later] e
    by (simp add: new_interpreter_def)
qed

section \<open>Accounting\<close>

definition delivered_count :: "packet_record option list \<Rightarrow> int" where
  "delivered_count rs = int (length (filter (\<lambda>r. r \<noteq> None) rs))"

lemma interp_step_account:
  "interp_step i s r s' \<Longrightarrow> errors s' + dropped s' + of_bool (r \<noteq> None) = errors s + dropped s + 1"
  by (induction rule: interp_step.induct) simp_all

lemma process_all_account:
  assumes "module_state_ok g" "interp_inv s" "process_all xs s g = (rs, s', g')"
  shows "delivered_count rs + errors s' + dropped s' = int (length xs) + errors s + dropped s"
  using assms
proof (induction xs arbitrary: s g rs s' g')
  case Nil
  then show ?case by (simp add: delivered_count_def)
next
  case (Cons x xs)
  obtain r s1 g1 where p: "process x s g = (r, s1, g1)" by (metis prod_cases3)
  obtain rs1 s2 g2 where q: "process_all xs s1 g1 = (rs1, s2, g2)" by (metis prod_cases3)
  have st: "interp_step x s r s1" and g1: "module_state_ok g1"
    using process_refines_step [OF Cons.prems(1) interp_inv_contexts [OF Cons.prems(2)] p] by simp_all
  have "delivered_count rs1 + errors s2 + dropped s2 = int (length xs) + errors s1 + dropped s1"
    using g1 interp_step_inv [OF st Cons.prems(2)] q by (rule Cons.IH)
  then show ?case
    using Cons.prems(3) p q interp_step_account [OF st]
    by (cases r) (auto simp: delivered_count_def)
qed

text \<open>Every datagram is accounted for exactly once: as a record, in \<open>errors\<close> or in \<open>dropped\<close>.\<close>

theorem interpreter_accounting:
  assumes "process_all items (new_interpreter n) new_module_state = (rs, s, g)"
  shows "delivered_count rs + errors s + dropped s = int (length items)"
  using process_all_account [OF new_module_state_ok new_interpreter_inv assms]
  by (simp add: new_interpreter_def)

section \<open>Gap flags\<close>

text \<open>The counters of the data records delivered so far on one stream, oldest first.\<close>

definition is_data :: "packet_record \<Rightarrow> bool" where
  "is_data r \<longleftrightarrow> rec_type r = ''data''"

definition delivered_counters :: "int option \<Rightarrow> packet_record option list \<Rightarrow> int list" where
  "delivered_counters k rs =
     concat (map (\<lambda>r. case r of None \<Rightarrow> []
       | Some p \<Rightarrow> if is_data p \<and> md_stream_id (rec_metadata p) = k
                  then [md_counter (rec_metadata p)] else []) rs)"

lemma delivered_counters_Nil [simp]: "delivered_counters k [] = []"
  by (simp add: delivered_counters_def)

lemma delivered_counters_snoc [simp]:
  "delivered_counters k (rs @ [r]) = delivered_counters k rs @
     (case r of None \<Rightarrow> [] | Some p \<Rightarrow> if is_data p \<and> md_stream_id (rec_metadata p) = k
        then [md_counter (rec_metadata p)] else [])"
  by (simp add: delivered_counters_def)

definition last_delivered :: "int list \<Rightarrow> int option" where
  "last_delivered cs = (if cs = [] then None else Some (last cs))"

lemma last_delivered_simps [simp]:
  "last_delivered [] = None" "last_delivered (cs @ [c]) = Some c"
  by (simp_all add: last_delivered_def)

lemma interp_step_counters:
  assumes "interp_step i s r s'"
  shows "map_of (last_counter s') k =
    (case r of None \<Rightarrow> map_of (last_counter s) k
     | Some p \<Rightarrow> if is_data p \<and> md_stream_id (rec_metadata p) = k
                then Some (md_counter (rec_metadata p)) else map_of (last_counter s) k)"
  using assms
  by (cases rule: interp_step.cases) (auto simp: same_tables_def is_data_def make_metadata_def)

lemma interp_step_gap:
  assumes "interp_step i s (Some p) s'" "is_data p"
  shows "md_gap_before (rec_metadata p) =
    gap_before (map_of (last_counter s) (md_stream_id (rec_metadata p))) (md_counter (rec_metadata p))"
  using assms
  by (cases rule: interp_step.cases) (auto simp: is_data_def make_metadata_def)

lemma counters_follow_records:
  assumes "process_all xs (new_interpreter n) new_module_state = (rs, s, g)"
  shows "map_of (last_counter s) k = last_delivered (delivered_counters k rs)"
  using assms
proof (induction xs arbitrary: rs s g rule: rev_induct)
  case Nil
  then show ?case by (auto simp: new_interpreter_def)
next
  case (snoc x xs)
  obtain rs1 s1 g1 where q: "process_all xs (new_interpreter n) new_module_state = (rs1, s1, g1)"
    by (metis prod_cases3)
  obtain r s2 g2 where p: "process x s1 g1 = (r, s2, g2)" by (metis prod_cases3)
  have "interp_step x s1 r s2"
    using process_refines_step [OF _ _ p] process_all_steps [OF new_module_state_ok new_interpreter_inv q]
    by (simp add: interp_inv_contexts)
  from interp_step_counters [OF this, of k] snoc.IH [OF q] snoc.prems p q
  show ?case by (auto simp: process_all_snoc split: option.splits)
qed

text \<open>C6: the gap flag of every data record compares its counter with that of the previous data
  record delivered on the same stream, modulo 16, and is off for the first one: datagrams dropped
  in between (truncated, of another type, before a context or under an unsupported one) and
  datagrams of other streams neither hide a gap nor raise one.\<close>

theorem gap_flag_follows_delivered:
  assumes "process_all items (new_interpreter n) new_module_state = (rs, s, g)"
    and "j < length rs" "rs ! j = Some p" "is_data p"
  shows "md_gap_before (rec_metadata p) \<longleftrightarrow>
    (\<exists>q. last_delivered (delivered_counters (md_stream_id (rec_metadata p)) (take j rs)) = Some q \<and>
       md_counter (rec_metadata p) \<noteq> (q + 1) mod 16)"
proof -
  have len: "length rs = length items" using assms(1) by (rule length_process_all)
  then have split: "items = take j items @ [items ! j] @ drop (Suc j) items"
    using assms(2) by (simp add: id_take_nth_drop)
  obtain rs1 s1 g1 where q: "process_all (take j items) (new_interpreter n) new_module_state = (rs1, s1, g1)"
    by (metis prod_cases3)
  obtain r s2 g2 where x: "process (items ! j) s1 g1 = (r, s2, g2)" by (metis prod_cases3)
  obtain rs3 s3 g3 where y: "process_all (drop (Suc j) items) s2 g2 = (rs3, s3, g3)"
    by (metis prod_cases3)
  have "process_all (take j items @ [items ! j] @ drop (Suc j) items) (new_interpreter n) new_module_state
      = (rs1 @ [r] @ rs3, s3, g3)"
    using q x y by (simp add: process_all_append)
  with assms(1) split have rs: "rs = rs1 @ [r] @ rs3" by simp
  have l1: "length rs1 = j"
    using length_process_all [OF q] assms(2) len by simp
  with rs assms(3) have r: "r = Some p" and tk: "take j rs = rs1"
    by (simp_all add: nth_append)
  have "interp_step (items ! j) s1 (Some p) s2"
    using process_refines_step [OF _ _ x] process_all_steps [OF new_module_state_ok new_interpreter_inv q] r
    by (simp add: interp_inv_contexts)
  from interp_step_gap [OF this assms(4)] counters_follow_records [OF q] show ?thesis
    by (simp add: tk gap_before_def split: option.split)
qed

section \<open>Stream isolation\<close>

text \<open>The stream id a datagram carries, when it parses.\<close>

definition item_stream :: "raw_item \<Rightarrow> int option" where
  "item_stream i = (case i of Stray \<Rightarrow> None
     | Datagram b \<Rightarrow> (case parse_header b of Inl e \<Rightarrow> None | Inr hdr \<Rightarrow> stream_id hdr))"

text \<open>Processing a datagram never touches another stream: the context and the counter of every
  stream other than the one in its header are unchanged, and a record it produces carries that
  header's stream id.\<close>

theorem streams_isolated:
  assumes "interp_inv s" "module_state_ok g" "process i s g = (r, s', g')"
  shows "(\<forall>k. k \<noteq> item_stream i \<longrightarrow>
      map_of (contexts s') k = map_of (contexts s) k \<and>
      map_of (last_counter s') k = map_of (last_counter s) k) \<and>
    (\<forall>p. r = Some p \<longrightarrow> md_stream_id (rec_metadata p) = item_stream i)"
proof -
  have "interp_step i s r s'"
    using process_refines_step [OF assms(2) interp_inv_contexts [OF assms(1)] assms(3)] by simp
  then show ?thesis
    by (cases rule: interp_step.cases)
      (auto simp: same_tables_def item_stream_def make_metadata_def)
qed

section \<open>A concrete run\<close>

text \<open>A context, two data packets with one missing between them, and an item that is not bytes.\<close>

definition demo_items :: "raw_item list" where
  "demo_items = [Datagram demo_context, Datagram (demo_data 3 demo_payload),
     Datagram (demo_data 5 demo_payload), Stray]"

abbreviation demo_run :: "packet_record option list \<times> interpreter \<times> module_state" where
  "demo_run \<equiv> process_all demo_items (new_interpreter 64) new_module_state"

lemma demo_run_split: "demo_run = (fst demo_run, fst (snd demo_run), snd (snd demo_run))"
  by simp

lemma demo_run_records:
  "map (map_option rec_type) (fst demo_run) = [Some ''context'', Some ''data'', Some ''data'', None]"
  "map (map_option (\<lambda>p. md_counter (rec_metadata p))) (fst demo_run) = [Some 0, Some 3, Some 5, None]"
  "map (map_option (\<lambda>p. md_stream_id (rec_metadata p))) (fst demo_run) = [Some (Some 123), Some (Some 123), Some (Some 123), None]"
  by code_simp+

theorem interpreter_invariant_witness:
  "interp_inv (fst (snd demo_run)) \<and> module_state_ok (snd (snd demo_run))"
  using interpreter_invariant [OF demo_run_split] .

theorem interpreter_flood_bound_witness:
  "int (length (contexts (fst (snd demo_run)))) \<le> 64 \<and>
   (\<exists>new. dict_keys (contexts (fst (snd (process_all [Stray] (fst (snd demo_run)) (snd (snd demo_run))))))
      = dict_keys (contexts (fst (snd demo_run))) @ new)"
  using interpreter_flood_bound [OF demo_run_split,
      of "[Stray]" "fst (process_all [Stray] (fst (snd demo_run)) (snd (snd demo_run)))"
        "fst (snd (process_all [Stray] (fst (snd demo_run)) (snd (snd demo_run))))"
        "snd (snd (process_all [Stray] (fst (snd demo_run)) (snd (snd demo_run))))"]
  by simp

theorem interpreter_accounting_witness:
  "errors (fst (snd demo_run)) + dropped (fst (snd demo_run)) = 1"
proof -
  have "delivered_count (fst demo_run) = 3" "length demo_items = 4" by code_simp+
  with interpreter_accounting [OF demo_run_split] show ?thesis by simp
qed

theorem gap_flag_follows_delivered_witness:
  "\<exists>p. fst demo_run ! 2 = Some p \<and> md_gap_before (rec_metadata p)"
proof -
  have l: "length (fst demo_run) = 4" using arg_cong [OF demo_run_records(1), of length] by simp
  then have n: "map_option rec_type (fst demo_run ! 2) = Some ''data''"
    "map_option (\<lambda>p. md_counter (rec_metadata p)) (fst demo_run ! 2) = Some 5"
    "map_option (\<lambda>p. md_stream_id (rec_metadata p)) (fst demo_run ! 2) = Some (Some 123)"
    using arg_cong [OF demo_run_records(1), of "\<lambda>xs. xs ! 2"]
      arg_cong [OF demo_run_records(2), of "\<lambda>xs. xs ! 2"] arg_cong [OF demo_run_records(3), of "\<lambda>xs. xs ! 2"]
    by simp_all
  then obtain p where p: "fst demo_run ! 2 = Some p" "rec_type p = ''data''"
    "md_counter (rec_metadata p) = 5" "md_stream_id (rec_metadata p) = Some 123" by auto
  have "last_delivered (delivered_counters (Some 123) (take 2 (fst demo_run))) = Some 3" by code_simp
  with gap_flag_follows_delivered [OF demo_run_split _ p(1)] l p show ?thesis
    by (simp add: is_data_def)
qed

theorem streams_isolated_witness:
  "map_of (contexts (fst (snd (process (Datagram demo_context) (new_interpreter 64) new_module_state)))) (Some 7)
     = None"
proof -
  have "item_stream (Datagram demo_context) = Some 123" by code_simp
  then show ?thesis
    using streams_isolated [OF new_interpreter_inv new_module_state_ok, of "Datagram demo_context" 64
      "fst (process (Datagram demo_context) (new_interpreter 64) new_module_state)"
      "fst (snd (process (Datagram demo_context) (new_interpreter 64) new_module_state))"
      "snd (snd (process (Datagram demo_context) (new_interpreter 64) new_module_state))"]
    by (simp add: new_interpreter_def)
qed

end
