(* ===== verification/Buffer.thy ===== *)
theory Buffer
  imports Interp
begin

text \<open>
  \<open>IngestBuffer\<close> of \<open>buffer.py\<close>: one stream's accumulator. The state is the record \<open>buffer\<close>; every
  method returns an outcome (the exception it raised, if any, the buffer and the world it left).

  Outside code is the record \<open>env\<close>: the monotonic clock and the emit callback, which act on an
  abstract world, and the three numpy operations the buffer calls. What the proofs use of numpy and
  of the callback is stated once, in \<open>env_ok\<close>.
\<close>

section \<open>Outside code\<close>

datatype 'f samples = Float32 "'f list" | Complex64 "('f \<times> 'f) list"

text \<open>The unit a flush emits; \<open>u_metadata\<close> repeats four of its fields, as the source does.\<close>

record 'f unit_rec =
  u_samples :: "'f samples"
  u_context :: "pydict option"
  u_start_timestamp :: "rat option"
  u_num_samples :: int
  u_stream_id :: "int option"
  u_component_dtype :: pyval
  u_is_complex :: "bool option"
  u_bytes_per_sample :: "int option"
  u_metadata :: "int option \<times> pyval \<times> bool option \<times> int option"

text \<open>
  \<open>np_dtype\<close> is \<open>np.dtype(x)\<close> read for its kind and item size; \<open>np_float32 d raw\<close> is
  \<open>np.frombuffer(raw, dtype=d).astype(np.float32)\<close>; \<open>np_complex64\<close> is \<open>arr.view(np.complex64)\<close>.
\<close>

record ('f, 'w) env =
  monotonic :: "'w \<Rightarrow> rat \<times> 'w"
  emit :: "'f unit_rec \<Rightarrow> 'w \<Rightarrow> exn option \<times> 'w"
  np_dtype :: "pyval \<Rightarrow> exn + char \<times> int"
  np_float32 :: "pyval \<Rightarrow> bytes \<Rightarrow> exn + 'f list"
  np_complex64 :: "'f list \<Rightarrow> exn + ('f \<times> 'f) list"

section \<open>State\<close>

definition DEFAULT_FLUSH_FIELDS :: "string list" where
  "DEFAULT_FLUSH_FIELDS = [''rf_hz'', ''sample_rate_hz'', ''component_dtype'', ''is_complex'']"

record buffer =
  max_samples :: int
  max_age_s :: rat
  buf_stream_id :: "int option"
  flush_fields :: "string list"
  chunks :: "bytes list"
  num_samples :: int
  component_dtype :: pyval
  bytes_per_sample :: "int option"
  is_complex :: "bool option"
  start_timestamp :: "rat option"
  first_arrival :: "rat option"
  current_context :: "pydict option"
  inert :: bool
  buf_dropped :: int
  buf_log :: rate_log

definition new_buffer :: "int \<Rightarrow> rat \<Rightarrow> int option \<Rightarrow> string list \<Rightarrow> buffer" where
  "new_buffer n age sid fs =
     \<lparr>max_samples = n, max_age_s = age, buf_stream_id = sid, flush_fields = fs, chunks = [],
      num_samples = 0, component_dtype = PNone, bytes_per_sample = None, is_complex = None,
      start_timestamp = None, first_arrival = None, current_context = None, inert = False,
      buf_dropped = 0, buf_log = new_rate_log\<rparr>"

definition reset_window :: "buffer \<Rightarrow> buffer" where
  "reset_window b = b\<lparr>chunks := [], num_samples := 0, component_dtype := PNone,
     bytes_per_sample := None, is_complex := None, start_timestamp := None, first_arrival := None\<rparr>"

definition drop_record :: "string \<Rightarrow> buffer \<Rightarrow> buffer" where
  "drop_record reason b = b\<lparr>buf_dropped := buf_dropped b + 1, buf_log := logged reason (buf_log b)\<rparr>"

section \<open>Flushing\<close>

definition convert_window :: "('f, 'w) env \<Rightarrow> buffer \<Rightarrow> exn + 'f samples" where
  "convert_window env b =
     sbind (np_float32 env (component_dtype b) (concat (chunks b))) (\<lambda>arr.
       if is_complex b = Some True
       then sbind (np_complex64 env arr) (\<lambda>ps. Inr (Complex64 ps))
       else Inr (Float32 arr))"

definition window_unit :: "'f samples \<Rightarrow> buffer \<Rightarrow> 'f unit_rec" where
  "window_unit arr b =
     \<lparr>u_samples = arr, u_context = current_context b, u_start_timestamp = start_timestamp b,
      u_num_samples = num_samples b, u_stream_id = buf_stream_id b,
      u_component_dtype = component_dtype b, u_is_complex = is_complex b,
      u_bytes_per_sample = bytes_per_sample b,
      u_metadata = (buf_stream_id b, component_dtype b, is_complex b, bytes_per_sample b)\<rparr>"

definition flush :: "('f, 'w) env \<Rightarrow> buffer \<Rightarrow> 'w \<Rightarrow> (buffer, 'w) outcome" where
  "flush env b w =
    (if chunks b = [] then (None, b, w)
     else case convert_window env b of
         Inl e \<Rightarrow> (Some e, b, w)
       | Inr arr \<Rightarrow>
           (case emit env (window_unit arr b) w of (r, w') \<Rightarrow> (r, reset_window b, w')))"

definition maybe_flush_on_age :: "('f, 'w) env \<Rightarrow> buffer \<Rightarrow> 'w \<Rightarrow> (buffer, 'w) outcome" where
  "maybe_flush_on_age env b w =
    (if chunks b = [] then (None, b, w)
     else case monotonic env w of (now, w') \<Rightarrow>
       (case first_arrival b of
          None \<Rightarrow> (Some TypeError, b, w')
        | Some t \<Rightarrow> if max_age_s b \<le> fsub now t then flush env b w' else (None, b, w')))"

section \<open>Contexts\<close>

definition differs :: "buffer \<Rightarrow> pydict \<Rightarrow> bool" where
  "differs b new_ctx = (case current_context b of None \<Rightarrow> True
     | Some old \<Rightarrow> list_ex (\<lambda>f. \<not> py_eq (py_get old f) (py_get new_ctx f)) (flush_fields b))"

definition unsupported_ctx :: "pydict \<Rightarrow> bool" where
  "unsupported_ctx ctx \<longleftrightarrow> py_get ctx ''supported'' = PBool False \<or> py_get ctx ''component_dtype'' = PNone"

definition adopt_context :: "pydict \<Rightarrow> buffer \<Rightarrow> buffer" where
  "adopt_context ctx b =
    (let b1 = b\<lparr>current_context := Some ctx, inert := unsupported_ctx ctx\<rparr>
     in if inert b1 then b1\<lparr>buf_log := logged ''inert-context'' (buf_log b1)\<rparr> else b1)"

definition push_context :: "('f, 'w) env \<Rightarrow> pydict option \<Rightarrow> buffer \<Rightarrow> 'w \<Rightarrow> (buffer, 'w) outcome" where
  "push_context env c b w =
    (case c of None \<Rightarrow> (None, b, w)
     | Some ctx \<Rightarrow>
         and_then (if chunks b \<noteq> [] \<and> differs b ctx then flush env b w else (None, b, w))
           (\<lambda>b1 w1. (None, adopt_context ctx b1, w1)))"

section \<open>Data\<close>

definition py_truthy :: "pyval \<Rightarrow> bool" where
  "py_truthy v = (case v of PNone \<Rightarrow> False | PBool x \<Rightarrow> x | PInt n \<Rightarrow> n \<noteq> 0
     | PFloat x \<Rightarrow> x \<noteq> 0 | PStr s \<Rightarrow> s \<noteq> [])"

text \<open>The three outcomes of \<open>_latch\<close>: converted and latched, refused, or an exception other than the
  \<open>TypeError\<close> it catches.\<close>

definition latch :: "('f, 'w) env \<Rightarrow> pyval \<Rightarrow> bool \<Rightarrow> int \<Rightarrow> buffer \<Rightarrow> exn + (bool \<times> buffer)" where
  "latch env dt cplx bps b =
    (case (case np_dtype env dt of Inl e \<Rightarrow> if e = TypeError then Inr None else Inl e
             | Inr ki \<Rightarrow> Inr (Some ki)) of
       Inl e \<Rightarrow> Inl e
     | Inr d \<Rightarrow>
         if (case d of None \<Rightarrow> True
             | Some (kind, itemsize) \<Rightarrow>
                 kind \<notin> {CHR ''i'', CHR ''u'', CHR ''f''} \<or> itemsize * (if cplx then 2 else 1) \<noteq> bps)
         then Inr (False, b\<lparr>buf_log := logged ''latch-invalid'' (buf_log b)\<rparr>)
         else Inr (True, b\<lparr>component_dtype := dt, is_complex := Some cplx, bytes_per_sample := Some bps\<rparr>))"

text \<open>Appending to an open window, then the size trigger.\<close>

definition append_chunk :: "('f, 'w) env \<Rightarrow> bytes \<Rightarrow> int \<Rightarrow> buffer \<Rightarrow> 'w \<Rightarrow> (buffer, 'w) outcome" where
  "append_chunk env data bps b w =
    (let b1 = b\<lparr>chunks := chunks b @ [data],
               num_samples := num_samples b + int (length data) div bps\<rparr>
     in if max_samples b1 \<le> num_samples b1 then flush env b1 w else (None, b1, w))"

definition open_window ::
  "('f, 'w) env \<Rightarrow> metadata \<Rightarrow> bytes \<Rightarrow> int \<Rightarrow> buffer \<Rightarrow> 'w \<Rightarrow> (buffer, 'w) outcome" where
  "open_window env md data bps b w =
    (case latch env (md_dtype md) (py_truthy (md_is_complex md)) bps b of
       Inl e \<Rightarrow> (Some e, b, w)
     | Inr (False, b1) \<Rightarrow> (None, b1\<lparr>buf_dropped := buf_dropped b1 + 1\<rparr>, w)
     | Inr (True, b1) \<Rightarrow>
         (case monotonic env w of (now, w1) \<Rightarrow>
            append_chunk env data bps
              (b1\<lparr>start_timestamp := md_timestamp md, first_arrival := Some now\<rparr>) w1))"

definition interpretation_changed :: "metadata \<Rightarrow> int \<Rightarrow> buffer \<Rightarrow> bool" where
  "interpretation_changed md bps b \<longleftrightarrow>
     \<not> py_eq (md_dtype md) (component_dtype b) \<or>
     Some (py_truthy (md_is_complex md)) \<noteq> is_complex b \<or> Some bps \<noteq> bytes_per_sample b"

text \<open>
  \<open>_push_data\<close>. The record's sample size is an \<open>int | None\<close> by its type; a record without one (or
  with zero), or whose data is not a whole number of samples, is dropped, and data that is absent
  has no length (\<open>TypeError\<close>).
\<close>

definition push_data :: "('f, 'w) env \<Rightarrow> packet_record \<Rightarrow> buffer \<Rightarrow> 'w \<Rightarrow> (buffer, 'w) outcome" where
  "push_data env r b w =
    (if current_context b = None \<or> inert b then (None, drop_record ''no-usable-context'' b, w)
     else
      let md = rec_metadata r in
      if md_dtype md = PNone \<or> \<not> py_truthy (md_bytes_per_sample md)
      then (None, drop_record ''unusable-data'' b, w)
      else (case rec_data r of
          None \<Rightarrow> (Some TypeError, b, w)
        | Some data \<Rightarrow>
          (case as_int (md_bytes_per_sample md) of
             Inl e \<Rightarrow> (Some e, b, w)
           | Inr bps \<Rightarrow>
             if int (length data) mod bps \<noteq> 0 then (None, drop_record ''unusable-data'' b, w)
             else
               and_then (if chunks b \<noteq> [] \<and> md_gap_before md then flush env b w else (None, b, w))
               (\<lambda>b1 w1.
               and_then (if chunks b1 \<noteq> [] \<and> interpretation_changed md bps b1
                         then flush env b1 w1 else (None, b1, w1))
               (\<lambda>b2 w2.
                 if data = [] then (None, b2, w2)
                 else if chunks b2 = [] then open_window env md data bps b2 w2
                 else append_chunk env data bps b2 w2)))))"

definition push :: "('f, 'w) env \<Rightarrow> packet_record option \<Rightarrow> buffer \<Rightarrow> 'w \<Rightarrow> (buffer, 'w) outcome" where
  "push env rec b w =
    (case rec of None \<Rightarrow> (None, b, w)
     | Some r \<Rightarrow>
         if rec_type r = ''context'' then push_context env (rec_context r) b w
         else if rec_type r = ''data'' then push_data env r b w
         else (None, b, w))"

end
