(* ===== verification/Buffer_Windows.thy ===== *)
theory Buffer_Windows
  imports Buffer
begin

text \<open>
  What the ingest buffer promises, independent of how it accumulates: the records it accepts
  (\<open>arrivals\<close>, which knows nothing of windows), the windows it may emit (\<open>window_ok\<close>, \<open>unit_ok\<close>), and
  the invariant \<open>win_inv\<close> that ties the buffer and the units sent so far to the accepted records.
\<close>

section \<open>What is assumed of numpy and the callback\<close>

definition numeric_kind :: "char \<Rightarrow> bool" where
  "numeric_kind k \<longleftrightarrow> k \<in> {CHR ''i'', CHR ''u'', CHR ''f''}"

text \<open>
  \<open>np.dtype\<close> of a number is a \<open>TypeError\<close>, the only exception it raises, and sizes are not
  negative; \<open>frombuffer\<close> of a whole number of items decodes them one by one; \<open>view(complex64)\<close> pairs
  neighbours of an even-length array; reading the clock sends nothing; and the world of the callback
  records every unit it was called with. The first half is \<open>numpy_ok\<close>; whether the callback raises is
  left open in \<open>env_logs\<close>, \<open>env_ok\<close> adds that it does not.
\<close>

definition numpy_ok :: "('f, 'w) env \<Rightarrow> (pyval \<Rightarrow> bytes \<Rightarrow> 'f) \<Rightarrow> bool" where
  "numpy_ok env item \<longleftrightarrow>
     (\<forall>d e. np_dtype env d = Inl e \<longrightarrow> e = TypeError) \<and>
     (\<forall>d k n. np_dtype env d = Inr (k, n) \<longrightarrow> 0 \<le> n \<and> py_number d = None) \<and>
     (\<forall>d k n raw. np_dtype env d = Inr (k, n) \<longrightarrow> numeric_kind k \<longrightarrow> 0 < n \<longrightarrow> raw \<noteq> [] \<longrightarrow>
        n dvd int (length raw) \<longrightarrow> np_float32 env d raw = Inr (map (item d) (chunks_of (nat n) raw))) \<and>
     (\<forall>xs. even (length xs) \<longrightarrow> np_complex64 env xs = Inr (adjacent_pairs xs))"

definition env_logs ::
  "('f, 'w) env \<Rightarrow> (pyval \<Rightarrow> bytes \<Rightarrow> 'f) \<Rightarrow> ('w \<Rightarrow> 'f unit_rec list) \<Rightarrow> bool" where
  "env_logs env item sent \<longleftrightarrow> numpy_ok env item \<and>
     (\<forall>u w. sent (snd (emit env u w)) = sent w @ [u]) \<and> (\<forall>w. sent (snd (monotonic env w)) = sent w)"

definition env_ok ::
  "('f, 'w) env \<Rightarrow> (pyval \<Rightarrow> bytes \<Rightarrow> 'f) \<Rightarrow> ('w \<Rightarrow> 'f unit_rec list) \<Rightarrow> bool" where
  "env_ok env item sent \<longleftrightarrow> env_logs env item sent \<and> (\<forall>u w. fst (emit env u w) = None)"

lemma env_okD: "env_ok env item sent \<Longrightarrow> env_logs env item sent"
  by (simp add: env_ok_def)

text \<open>An exception the callback raised on one of these units.\<close>

definition raised_on :: "('f, 'w) env \<Rightarrow> 'f unit_rec list \<Rightarrow> exn \<Rightarrow> bool" where
  "raised_on env us e \<longleftrightarrow> (\<exists>u \<in> set us. \<exists>w. fst (emit env u w) = Some e)"

lemma raised_on_append: "raised_on env (us @ vs) e \<longleftrightarrow> raised_on env us e \<or> raised_on env vs e"
  by (auto simp: raised_on_def)

lemma env_ok_silent: "env_ok env item sent \<Longrightarrow> \<not> raised_on env us e"
  by (simp add: env_ok_def raised_on_def)

section \<open>Accepted records\<close>

definition rec_cplx :: "packet_record \<Rightarrow> bool" where
  "rec_cplx r = py_truthy (md_is_complex (rec_metadata r))"

definition rec_bps :: "packet_record \<Rightarrow> int" where
  "rec_bps r = (case md_bytes_per_sample (rec_metadata r) of PInt n \<Rightarrow> n | _ \<Rightarrow> 0)"

definition rec_bytes :: "packet_record \<Rightarrow> bytes" where
  "rec_bytes r = (case rec_data r of Some d \<Rightarrow> d | None \<Rightarrow> [])"

definition components_per_sample :: "bool \<Rightarrow> int" where
  "components_per_sample cplx = (if cplx then 2 else 1)"

text \<open>A record the buffer can convert: a dtype of a numeric kind whose item size matches the sample
  size, and a non-empty whole number of samples.\<close>

definition convertible :: "('f, 'w) env \<Rightarrow> pyval \<Rightarrow> bool \<Rightarrow> int \<Rightarrow> bool" where
  "convertible env dt cplx bps \<longleftrightarrow> (case np_dtype env dt of Inl e \<Rightarrow> False
     | Inr (k, n) \<Rightarrow> numeric_kind k \<and> n * components_per_sample cplx = bps)"

definition usable :: "('f, 'w) env \<Rightarrow> packet_record \<Rightarrow> bool" where
  "usable env r \<longleftrightarrow> md_dtype (rec_metadata r) \<noteq> PNone \<and> rec_bps r \<noteq> 0 \<and>
     convertible env (md_dtype (rec_metadata r)) (rec_cplx r) (rec_bps r) \<and>
     rec_bytes r \<noteq> [] \<and> rec_bps r dvd int (length (rec_bytes r))"

text \<open>Numbers compare by value in Python: a context's identity is its normalised flush fields.\<close>

definition py_norm :: "pyval \<Rightarrow> pyval" where
  "py_norm v = (case py_number v of Some x \<Rightarrow> PFloat x | None \<Rightarrow> v)"

lemma py_eq_norm: "py_eq a b \<longleftrightarrow> py_norm a = py_norm b"
  by (cases a; cases b) (auto simp: py_eq_def py_norm_def)

definition flush_label :: "string list \<Rightarrow> pydict \<Rightarrow> pyval list" where
  "flush_label fs ctx = map (\<lambda>f. py_norm (py_get ctx f)) fs"

lemma differs_label:
  "differs b ctx \<longleftrightarrow> (case current_context b of None \<Rightarrow> True
     | Some old \<Rightarrow> flush_label (flush_fields b) old \<noteq> flush_label (flush_fields b) ctx)"
  by (auto simp: differs_def flush_label_def py_eq_norm list_ex_iff split: option.splits)

type_synonym arrival = "pyval list \<times> packet_record"

definition next_context :: "packet_record option \<Rightarrow> pydict option \<Rightarrow> pydict option" where
  "next_context rec c = (case rec of None \<Rightarrow> c | Some r \<Rightarrow>
     if rec_type r = ''context'' then (case rec_context r of None \<Rightarrow> c | Some ctx \<Rightarrow> Some ctx) else c)"

definition arrival_of ::
  "('f, 'w) env \<Rightarrow> string list \<Rightarrow> pydict option \<Rightarrow> packet_record option \<Rightarrow> arrival list" where
  "arrival_of env fs c rec = (case (rec, c) of
     (Some r, Some ctx) \<Rightarrow>
       if rec_type r = ''data'' \<and> \<not> unsupported_ctx ctx \<and> usable env r then [(flush_label fs ctx, r)] else []
   | _ \<Rightarrow> [])"

fun arrivals ::
  "('f, 'w) env \<Rightarrow> string list \<Rightarrow> pydict option \<Rightarrow> packet_record option list \<Rightarrow> arrival list" where
  "arrivals env fs c [] = []"
| "arrivals env fs c (rec # rs) = arrival_of env fs c rec @ arrivals env fs (next_context rec c) rs"

section \<open>Windows\<close>

text \<open>
  A window: accepted records that share the context label and the interpretation, none after the
  first preceded by a counter gap; its start is the first record's timestamp and its size the sum
  of theirs.
\<close>

definition window_ok ::
  "('f, 'w) env \<Rightarrow> string list \<Rightarrow> arrival list \<Rightarrow> pydict option \<Rightarrow> pyval \<Rightarrow> bool option \<Rightarrow> int option \<Rightarrow>
     rat option \<Rightarrow> int \<Rightarrow> bool" where
  "window_ok env fs os ctx dt cplx bps ts n \<longleftrightarrow> os \<noteq> [] \<and>
     (\<forall>(l, r) \<in> set os. usable env r \<and> Some l = map_option (flush_label fs) ctx \<and>
        md_dtype (rec_metadata r) = dt \<and> Some (rec_cplx r) = cplx \<and> Some (rec_bps r) = bps) \<and>
     (\<forall>(l, r) \<in> set (tl os). \<not> md_gap_before (rec_metadata r)) \<and>
     ts = md_timestamp (rec_metadata (snd (hd os))) \<and>
     n = sum_list (map (\<lambda>(l, r). int (length (rec_bytes r)) div rec_bps r) os)"

text \<open>The samples of a record, component by component, and of an emitted array.\<close>

definition rec_items :: "(pyval \<Rightarrow> bytes \<Rightarrow> 'f) \<Rightarrow> packet_record \<Rightarrow> 'f list" where
  "rec_items item r = map (item (md_dtype (rec_metadata r)))
     (chunks_of (nat (rec_bps r div components_per_sample (rec_cplx r))) (rec_bytes r))"

fun samples_items :: "'f samples \<Rightarrow> 'f list" where
  "samples_items (Float32 xs) = xs"
| "samples_items (Complex64 ps) = concat (map (\<lambda>(a, b). [a, b]) ps)"

fun is_complex_array :: "'f samples \<Rightarrow> bool" where
  "is_complex_array (Float32 xs) = False"
| "is_complex_array (Complex64 ps) = True"

text \<open>An emitted unit is exactly one window: its label, its interpretation, its samples in order.\<close>

definition unit_ok ::
  "('f, 'w) env \<Rightarrow> (pyval \<Rightarrow> bytes \<Rightarrow> 'f) \<Rightarrow> string list \<Rightarrow> arrival list \<Rightarrow> 'f unit_rec \<Rightarrow> bool" where
  "unit_ok env item fs os u \<longleftrightarrow>
     window_ok env fs os (u_context u) (u_component_dtype u) (u_is_complex u) (u_bytes_per_sample u)
       (u_start_timestamp u) (u_num_samples u) \<and>
     samples_items (u_samples u) = concat (map (\<lambda>(l, r). rec_items item r) os) \<and>
     Some (is_complex_array (u_samples u)) = u_is_complex u \<and>
     u_metadata u = (u_stream_id u, u_component_dtype u, u_is_complex u, u_bytes_per_sample u)"

definition open_ok :: "('f, 'w) env \<Rightarrow> arrival list \<Rightarrow> buffer \<Rightarrow> bool" where
  "open_ok env os b \<longleftrightarrow> chunks b = map (\<lambda>(l, r). rec_bytes r) os \<and>
     (inert b \<longleftrightarrow> (case current_context b of None \<Rightarrow> False | Some ctx \<Rightarrow> unsupported_ctx ctx)) \<and>
     (if os = [] then num_samples b = 0
      else first_arrival b \<noteq> None \<and> num_samples b < max_samples b \<and>
        window_ok env (flush_fields b) os (current_context b) (component_dtype b) (is_complex b)
          (bytes_per_sample b) (start_timestamp b) (num_samples b))"

text \<open>
  The invariant: the records accepted so far (\<open>acc\<close>) are the windows already sent (\<open>us\<close>), one unit
  each, followed by the window still open in the buffer.
\<close>

definition win_inv ::
  "('f, 'w) env \<Rightarrow> (pyval \<Rightarrow> bytes \<Rightarrow> 'f) \<Rightarrow> buffer \<Rightarrow> 'f unit_rec list \<Rightarrow> arrival list \<Rightarrow> bool" where
  "win_inv env item b us acc \<longleftrightarrow>
     (\<exists>ws os. acc = concat ws @ os \<and> list_all2 (unit_ok env item (flush_fields b)) ws us \<and> open_ok env os b)"

lemma new_buffer_inv: "win_inv env item (new_buffer n age sid fs) [] []"
  unfolding win_inv_def by (intro exI [of _ "[]"]) (simp add: open_ok_def new_buffer_def)

section \<open>Converting a window\<close>

lemma samples_items_pairs: "even (length xs) \<Longrightarrow> concat (map (\<lambda>(a, b). [a, b]) (adjacent_pairs xs)) = xs"
  by (induction xs rule: adjacent_pairs.induct) auto

lemma chunks_of_concat:
  assumes "0 < n" "\<forall>x \<in> set xs. n dvd length x"
  shows "chunks_of n (concat xs) = concat (map (chunks_of n) xs)"
  using assms by (induction xs) (simp_all add: chunks_of_append)

lemma dvd_length_concat: "\<forall>x \<in> set xs. n dvd length x \<Longrightarrow> n dvd length (concat xs)"
  by (induction xs) auto

lemma usable_component:
  assumes "env_logs env item sent" "usable env r"
  obtains k n where "np_dtype env (md_dtype (rec_metadata r)) = Inr (k, n)" "numeric_kind k" "0 < n"
    "n * components_per_sample (rec_cplx r) = rec_bps r" "rec_bps r div components_per_sample (rec_cplx r) = n"
    "n dvd int (length (rec_bytes r))"
    "rec_cplx r \<Longrightarrow> even (int (length (rec_bytes r)) div n)" "0 < rec_bps r"
proof -
  from assms(2) obtain k n where d: "np_dtype env (md_dtype (rec_metadata r)) = Inr (k, n)" "numeric_kind k"
    "n * components_per_sample (rec_cplx r) = rec_bps r"
    by (auto simp: usable_def convertible_def split: sum.splits)
  have "0 \<le> n" using assms(1) d(1) unfolding env_logs_def numpy_ok_def by blast
  moreover have "rec_bps r \<noteq> 0" "rec_bps r dvd int (length (rec_bytes r))"
    using assms(2) by (simp_all add: usable_def)
  ultimately have n: "0 < n" using d(3) by (cases "n = 0") auto
  have dv: "n dvd rec_bps r" using d(3) by (metis dvd_triv_left)
  then have dl: "n dvd int (length (rec_bytes r))"
    using \<open>rec_bps r dvd _\<close> by (rule dvd_trans)
  have ev: "even (int (length (rec_bytes r)) div n)" if "rec_cplx r"
  proof -
    from \<open>rec_bps r dvd _\<close> obtain q where "int (length (rec_bytes r)) = rec_bps r * q" ..
    then have "int (length (rec_bytes r)) = n * (2 * q)"
      using d(3) that by (simp add: components_per_sample_def mult.assoc)
    with n show ?thesis by simp
  qed
  have "rec_bps r div components_per_sample (rec_cplx r) = n"
    using d(3) by (auto simp: components_per_sample_def split: if_splits)
  moreover have "0 < rec_bps r"
    using d(3) n by (auto simp: components_per_sample_def split: if_splits)
  ultimately show ?thesis using d n dl ev by (intro that)
qed

lemma convert_window_ok:
  assumes env: "env_logs env item sent"
    and w: "window_ok env fs os ctx (component_dtype b) (is_complex b) (bytes_per_sample b) ts n"
    and ch: "chunks b = map (\<lambda>(l, r). rec_bytes r) os"
  shows "\<exists>arr. convert_window env b = Inr arr \<and>
    samples_items arr = concat (map (\<lambda>(l, r). rec_items item r) os) \<and>
    Some (is_complex_array arr) = is_complex b"
proof -
  obtain l0 r0 os' where os: "os = (l0, r0) # os'"
    using w unfolding window_ok_def by (cases os) auto
  let ?dt = "component_dtype b"
  have all: "usable env r \<and> md_dtype (rec_metadata r) = ?dt \<and> Some (rec_cplx r) = is_complex b \<and>
      Some (rec_bps r) = bytes_per_sample b" if "(l, r) \<in> set os" for l r
    using w that unfolding window_ok_def by auto
  have r0: "usable env r0" "md_dtype (rec_metadata r0) = ?dt" "Some (rec_cplx r0) = is_complex b"
    using all [of l0 r0] os by auto
  obtain k c where c: "np_dtype env ?dt = Inr (k, c)" "numeric_kind k" "0 < c"
    "rec_bps r0 div components_per_sample (rec_cplx r0) = c"
    using usable_component [OF env r0(1)] unfolding r0(2) by metis
  have each: "c dvd int (length (rec_bytes r)) \<and> rec_bps r div components_per_sample (rec_cplx r) = c \<and>
      (rec_cplx r0 \<longrightarrow> even (int (length (rec_bytes r)) div c)) \<and> rec_bytes r \<noteq> []"
    if m: "(l, r) \<in> set os" for l r
  proof -
    note a = all [OF m]
    have e: "rec_cplx r = rec_cplx r0" using a r0(3) by (metis option.inject)
    obtain k' c' where c': "np_dtype env (md_dtype (rec_metadata r)) = Inr (k', c')"
      "rec_bps r div components_per_sample (rec_cplx r) = c'"
      "c' dvd int (length (rec_bytes r))" "rec_cplx r \<Longrightarrow> even (int (length (rec_bytes r)) div c')"
      using usable_component [OF env conjunct1 [OF a]] by metis
    have "c' = c" using c'(1) a c(1) by simp
    moreover have "rec_bytes r \<noteq> []" using a by (simp add: usable_def)
    ultimately show ?thesis using c' e by simp
  qed
  let ?raw = "concat (chunks b)"
  have raw: "?raw \<noteq> []" using each [of l0 r0] by (simp add: ch os)
  have dv: "\<forall>x \<in> set (chunks b). nat c dvd length x"
    using each c(3) by (auto simp: ch nat_dvd_iff)
  have dvraw: "c dvd int (length ?raw)"
    using dvd_length_concat [OF dv] c(3) by (simp add: nat_dvd_iff)
  have conv: "np_float32 env ?dt ?raw = Inr (map (item ?dt) (chunks_of (nat c) ?raw))"
    using env c raw dvraw unfolding env_logs_def numpy_ok_def by blast
  have items: "map (item ?dt) (chunks_of (nat c) ?raw) = concat (map (\<lambda>(l, r). rec_items item r) os)"
  proof -
    have "chunks_of (nat c) ?raw = concat (map (chunks_of (nat c)) (chunks b))"
      using c(3) dv by (intro chunks_of_concat) auto
    then have "map (item ?dt) (chunks_of (nat c) ?raw)
        = concat (map (\<lambda>x. map (item ?dt) (chunks_of (nat c) x)) (chunks b))"
      by (simp add: map_concat comp_def)
    also have "\<dots> = concat (map (\<lambda>(l, r). rec_items item r) os)"
      unfolding ch map_map
      by (intro arg_cong [of _ _ concat] map_cong) (use all each in \<open>fastforce simp: rec_items_def\<close>)+
    finally show ?thesis .
  qed
  show ?thesis
  proof (cases "rec_cplx r0")
    case False
    with r0(3) have "is_complex b = Some False" by simp
    with conv items show ?thesis by (simp add: convert_window_def)
  next
    case True
    with r0(3) have ic: "is_complex b = Some True" by simp
    have "\<forall>x \<in> set (map (\<lambda>(l, r). rec_items item r) os). 2 dvd length x"
    proof safe
      fix x assume "x \<in> set (map (\<lambda>(l, r). rec_items item r) os)"
      then obtain l r where m: "(l, r) \<in> set os" and x: "x = rec_items item r" by auto
      have "length x = length (rec_bytes r) div nat c"
        using each [OF m] c(3) by (simp add: x rec_items_def length_chunks_of nat_dvd_iff)
      then have "int (length x) = int (length (rec_bytes r)) div c"
        using c(3) by (simp add: zdiv_int)
      with each [OF m] True show "2 dvd length x" by (metis even_of_nat)
    qed
    then have "even (length (concat (map (\<lambda>(l, r). rec_items item r) os)))"
      by (rule dvd_length_concat)
    with env conv items ic show ?thesis
      unfolding env_logs_def numpy_ok_def by (simp add: convert_window_def samples_items_pairs)
  qed
qed

section \<open>The shape of a unit\<close>

fun samples_length :: "'f samples \<Rightarrow> nat" where
  "samples_length (Float32 xs) = length xs"
| "samples_length (Complex64 ps) = length ps"

lemma samples_items_length:
  "int (length (samples_items arr)) = components_per_sample (is_complex_array arr) * int (samples_length arr)"
  by (cases arr) (simp_all add: components_per_sample_def length_concat case_prod_unfold comp_def sum_list_triv)

lemma rec_items_length:
  assumes env: "env_logs env item sent" and u: "usable env r"
  shows "int (length (rec_items item r)) = components_per_sample (rec_cplx r) * (int (length (rec_bytes r)) div rec_bps r)"
proof -
  obtain k n where n: "0 < n" "n * components_per_sample (rec_cplx r) = rec_bps r"
    "rec_bps r div components_per_sample (rec_cplx r) = n" "n dvd int (length (rec_bytes r))"
    using usable_component [OF env u] by metis
  have "rec_bps r dvd int (length (rec_bytes r))" using u by (simp add: usable_def)
  then obtain q where q: "int (length (rec_bytes r)) = rec_bps r * q" ..
  have "nat n dvd length (rec_bytes r)" using n(1,4) by (simp add: nat_dvd_iff)
  then have "int (length (rec_items item r)) = int (length (rec_bytes r)) div n"
    using n(1) by (simp add: rec_items_def n(3) length_chunks_of zdiv_int)
  also have "\<dots> = components_per_sample (rec_cplx r) * q"
    using n(1) by (simp add: q n(2) [symmetric])
  finally show ?thesis using n(1) by (simp add: q n(2) [symmetric] components_per_sample_def)
qed

text \<open>The array of a unit has as many entries as the unit says it has samples.\<close>

lemma unit_shape:
  assumes env: "env_logs env item sent" and u: "unit_ok env item fs os u"
  shows "int (samples_length (u_samples u)) = u_num_samples u" "0 < u_num_samples u"
proof -
  let ?c = "components_per_sample (is_complex_array (u_samples u))"
  have each: "usable env r \<and> rec_cplx r = is_complex_array (u_samples u)" if "(l, r) \<in> set os" for l r
  proof -
    from u that have "usable env r" "Some (rec_cplx r) = u_is_complex u"
      "Some (is_complex_array (u_samples u)) = u_is_complex u"
      unfolding unit_ok_def window_ok_def by auto
    then show ?thesis by (metis option.inject)
  qed
  have sum: "int (length (concat (map (\<lambda>(l, r). rec_items item r) xs)))
      = ?c * sum_list (map (\<lambda>(l, r). int (length (rec_bytes r)) div rec_bps r) xs)" if "set xs \<subseteq> set os" for xs
    using that
  proof (induction xs)
    case (Cons lr xs)
    obtain l r where lr: "lr = (l, r)" by force
    with Cons.prems each have "usable env r" "rec_cplx r = is_complex_array (u_samples u)" by auto
    with rec_items_length [OF env, of r] Cons lr show ?case by (simp add: distrib_left)
  qed simp
  have "int (length (samples_items (u_samples u))) = ?c * u_num_samples u"
    using u sum [of os] by (simp add: unit_ok_def window_ok_def)
  then show "int (samples_length (u_samples u)) = u_num_samples u"
    unfolding samples_items_length by (auto simp: components_per_sample_def split: if_splits)
  from u have ne: "os \<noteq> []" by (simp add: unit_ok_def window_ok_def)
  have pos: "0 < int (length (rec_bytes r)) div rec_bps r" if "(l, r) \<in> set os" for l r
  proof -
    have us: "usable env r" using each [OF that] by blast
    then have "0 < rec_bps r" using usable_component [OF env us] by metis
    moreover have "rec_bps r dvd int (length (rec_bytes r))" "rec_bytes r \<noteq> []" using us by (simp_all add: usable_def)
    ultimately show ?thesis by (auto simp: pos_imp_zdiv_pos_iff zdvd_imp_le)
  qed
  have "0 < sum_list (map (\<lambda>(l, r). int (length (rec_bytes r)) div rec_bps r) os)"
    using ne pos by (induction os rule: list_nonempty_induct) (auto intro: add_pos_pos)
  then show "0 < u_num_samples u" using u by (simp add: unit_ok_def window_ok_def)
qed

end
