(* ===== verification/Buffer_Laws.thy ===== *)
theory Buffer_Laws
  imports Buffer_Windows "HOL-Library.Sublist"
begin

text \<open>
  Every operation of the ingest buffer advances the window invariant, whatever the callback does: it
  extends what was sent by units of its own stream, the accepted records stay partitioned into the
  windows sent and the open one, and it raises only what the callback raised on a unit it sent. An
  operation that raised may have left its record out, one that did not has taken it in.
\<close>

section \<open>Advancing the invariant\<close>

definition config :: "buffer \<Rightarrow> int \<times> rat \<times> int option \<times> string list" where
  "config b = (max_samples b, max_age_s b, buf_stream_id b, flush_fields b)"

definition context_state :: "buffer \<Rightarrow> pydict option \<times> bool \<times> int" where
  "context_state b = (current_context b, inert b, buf_dropped b)"

definition advances ::
  "('f, 'w) env \<Rightarrow> (pyval \<Rightarrow> bytes \<Rightarrow> 'f) \<Rightarrow> ('w \<Rightarrow> 'f unit_rec list) \<Rightarrow> 'f unit_rec list \<Rightarrow> arrival list \<Rightarrow>
     buffer \<Rightarrow> 'w \<Rightarrow> arrival list \<Rightarrow> (buffer, 'w) outcome \<Rightarrow> bool" where
  "advances env item sent us acc b w extra out \<longleftrightarrow>
     (\<exists>e b' w' news taken. out = (e, b', w') \<and> config b' = config b \<and> sent w' = sent w @ news \<and>
        (\<forall>u \<in> set news. u_stream_id u = buf_stream_id b) \<and> win_inv env item b' (us @ news) (acc @ taken) \<and>
        (case e of None \<Rightarrow> taken = extra | Some x \<Rightarrow> prefix taken extra \<and> raised_on env news x))"

lemma advances_skip:
  "win_inv env item b' us acc \<Longrightarrow> config b' = config b \<Longrightarrow> sent w' = sent w \<Longrightarrow>
     advances env item sent us acc b w [] (None, b', w')"
  unfolding advances_def by (intro exI [of _ b'] exI [of _ w'] exI [of _ "[]"] exI [of _ None]) simp

lemma advances_then:
  assumes "advances env item sent us acc b w e1 out"
    and "\<And>b1 w1 news. out = (None, b1, w1) \<Longrightarrow> config b1 = config b \<Longrightarrow>
      win_inv env item b1 (us @ news) (acc @ e1) \<Longrightarrow>
      advances env item sent (us @ news) (acc @ e1) b1 w1 e2 (f b1 w1)"
  shows "advances env item sent us acc b w (e1 @ e2) (and_then out f)"
proof -
  from assms(1) obtain e b1 w1 news taken where o1: "out = (e, b1, w1)" "config b1 = config b"
    "sent w1 = sent w @ news" "\<forall>u \<in> set news. u_stream_id u = buf_stream_id b"
    "win_inv env item b1 (us @ news) (acc @ taken)"
    "case e of None \<Rightarrow> taken = e1 | Some x \<Rightarrow> prefix taken e1 \<and> raised_on env news x"
    unfolding advances_def by blast
  show ?thesis
  proof (cases e)
    case (Some x)
    with o1 show ?thesis
      unfolding advances_def
      by (intro exI [of _ e] exI [of _ b1] exI [of _ w1] exI [of _ news] exI [of _ taken]) simp
  next
    case None
    with o1 have t: "taken = e1" by simp
    from assms(2) [OF o1(1) [unfolded None] o1(2) o1(5) [unfolded t]] obtain e' b2 w2 news2 taken2 where o2:
      "f b1 w1 = (e', b2, w2)" "config b2 = config b1" "sent w2 = sent w1 @ news2"
      "\<forall>u \<in> set news2. u_stream_id u = buf_stream_id b1"
      "win_inv env item b2 ((us @ news) @ news2) ((acc @ e1) @ taken2)"
      "case e' of None \<Rightarrow> taken2 = e2 | Some x \<Rightarrow> prefix taken2 e2 \<and> raised_on env news2 x"
      unfolding advances_def by blast
    have "buf_stream_id b1 = buf_stream_id b" using o1(2) by (simp add: config_def)
    with o1 o2 None show ?thesis
      unfolding advances_def
      by (intro exI [of _ e'] exI [of _ b2] exI [of _ w2] exI [of _ "news @ news2"] exI [of _ "e1 @ taken2"])
        (auto simp: raised_on_append split: option.splits)
  qed
qed

text \<open>Regarding records already in the buffer as taken by the operation.\<close>

lemma advances_regard:
  assumes "advances env item sent us (acc @ e1) b1 w []  out" "config b1 = config b"
  shows "advances env item sent us acc b w e1 out"
proof -
  have "buf_stream_id b1 = buf_stream_id b" using assms(2) by (simp add: config_def)
  moreover have "taken = []" if "case e of None \<Rightarrow> taken = [] | Some x \<Rightarrow> prefix taken [] \<and> raised_on env news x"
    for e taken news using that by (auto split: option.splits)
  ultimately show ?thesis
    using assms unfolding advances_def by (fastforce split: option.splits)
qed

section \<open>Flushing\<close>

lemma reset_window_frame [simp]:
  "config (reset_window b) = config b" "context_state (reset_window b) = context_state b"
  "chunks (reset_window b) = []"
  by (simp_all add: reset_window_def config_def context_state_def)

lemma flush_window:
  assumes env: "env_logs env item sent"
    and ws: "list_all2 (unit_ok env item (flush_fields b)) ws us"
    and ch: "chunks b = map (\<lambda>(l, r). rec_bytes r) os"
    and win: "window_ok env (flush_fields b) os (current_context b) (component_dtype b) (is_complex b)
      (bytes_per_sample b) (start_timestamp b) (num_samples b)"
    and inert: "inert b \<longleftrightarrow> (case current_context b of None \<Rightarrow> False | Some ctx \<Rightarrow> unsupported_ctx ctx)"
  shows "advances env item sent us (concat ws @ os) b w [] (flush env b w)"
    "\<exists>r w'. flush env b w = (r, reset_window b, w')"
proof -
  from win have ne: "chunks b \<noteq> []" unfolding ch window_ok_def by simp
  from convert_window_ok [OF env win ch] obtain arr where arr: "convert_window env b = Inr arr"
    "samples_items arr = concat (map (\<lambda>(l, r). rec_items item r) os)"
    "Some (is_complex_array arr) = is_complex b" by blast
  let ?u = "window_unit arr b"
  obtain r w' where e: "emit env ?u w = (r, w')" by force
  with env have r: "sent w' = sent w @ [?u]" unfolding env_logs_def numpy_ok_def by (metis snd_conv)
  have x: "raised_on env [?u] y" if "r = Some y" for y using e that by (auto simp: raised_on_def intro: exI [of _ w])
  from ne arr e have f: "flush env b w = (r, reset_window b, w')"
    by (simp add: flush_def)
  then show "\<exists>r w'. flush env b w = (r, reset_window b, w')" by blast
  have u: "unit_ok env item (flush_fields b) os ?u"
    using win arr by (simp add: unit_ok_def window_unit_def)
  have "win_inv env item (reset_window b) (us @ [?u]) (concat ws @ os)"
    unfolding win_inv_def
    by (rule exI [of _ "ws @ [os]"], rule exI [of _ "[]"])
      (use ws u inert in \<open>simp add: reset_window_def open_ok_def list_all2_appendI\<close>)
  moreover have "u_stream_id ?u = buf_stream_id b" by (simp add: window_unit_def)
  ultimately show "advances env item sent us (concat ws @ os) b w [] (flush env b w)"
    unfolding advances_def f
    by (intro exI [of _ r] exI [of _ "reset_window b"] exI [of _ w'] exI [of _ "[?u]"] exI [of _ "[]"])
      (simp add: r x split: option.split)
qed

lemma flush_empty: "chunks b = [] \<Longrightarrow> flush env b w = (None, b, w)"
  by (simp add: flush_def)

lemma flush_advances:
  assumes env: "env_logs env item sent" and inv: "win_inv env item b us acc"
  shows "advances env item sent us acc b w [] (flush env b w)"
    "\<exists>r b' w'. flush env b w = (r, b', w') \<and> chunks b' = [] \<and> context_state b' = context_state b"
proof -
  from inv obtain ws os where acc: "acc = concat ws @ os"
    and ws: "list_all2 (unit_ok env item (flush_fields b)) ws us" and o: "open_ok env os b"
    unfolding win_inv_def by blast
  have "advances env item sent us acc b w [] (flush env b w) \<and>
    (\<exists>r b' w'. flush env b w = (r, b', w') \<and> chunks b' = [] \<and> context_state b' = context_state b)"
  proof (cases "os = []")
    case True
    with o have "chunks b = []" by (simp add: open_ok_def)
    with inv show ?thesis by (simp add: flush_empty advances_skip)
  next
    case False
    with o have "chunks b = map (\<lambda>(l, r). rec_bytes r) os"
      "window_ok env (flush_fields b) os (current_context b) (component_dtype b) (is_complex b)
        (bytes_per_sample b) (start_timestamp b) (num_samples b)"
      "inert b \<longleftrightarrow> (case current_context b of None \<Rightarrow> False | Some ctx \<Rightarrow> unsupported_ctx ctx)"
      by (simp_all add: open_ok_def)
    from flush_window [OF env ws this] show ?thesis unfolding acc by force
  qed
  then show "advances env item sent us acc b w [] (flush env b w)"
    "\<exists>r b' w'. flush env b w = (r, b', w') \<and> chunks b' = [] \<and> context_state b' = context_state b"
    by blast+
qed

text \<open>A guarded flush, as the context change, the gap and the interpretation triggers use it.\<close>

lemma guarded_flush:
  assumes env: "env_logs env item sent" and inv: "win_inv env item b us acc"
  shows "advances env item sent us acc b w [] (if chunks b \<noteq> [] \<and> c then flush env b w else (None, b, w))"
    "(if chunks b \<noteq> [] \<and> c then flush env b w else (None, b, w)) = (None, b1, w1) \<Longrightarrow>
       context_state b1 = context_state b \<and> (chunks b1 = [] \<or> b1 = b \<and> \<not> c)"
  using flush_advances [OF assms, of w] inv
  by (auto simp: advances_skip split: if_splits)

section \<open>The age trigger\<close>

lemma maybe_flush_on_age_advances:
  assumes env: "env_logs env item sent" and inv: "win_inv env item b us acc"
  shows "advances env item sent us acc b w [] (maybe_flush_on_age env b w)"
proof (cases "chunks b = []")
  case True
  with inv show ?thesis by (simp add: maybe_flush_on_age_def advances_skip)
next
  case False
  from inv obtain os where "open_ok env os b" unfolding win_inv_def by blast
  with False obtain t where t: "first_arrival b = Some t" by (auto simp: open_ok_def split: if_splits)
  obtain now w1 where m: "monotonic env w = (now, w1)" by force
  with env have s: "sent w1 = sent w" unfolding env_logs_def numpy_ok_def by (metis snd_conv)
  have "advances env item sent us acc b w1 [] (flush env b w1)"
    using env inv by (rule flush_advances)
  then have "advances env item sent us acc b w [] (flush env b w1)"
    unfolding advances_def s .
  with False t m s inv show ?thesis
    by (simp add: maybe_flush_on_age_def advances_skip)
qed

section \<open>Appending\<close>

lemma append_advances:
  assumes env: "env_logs env item sent"
    and ws: "list_all2 (unit_ok env item (flush_fields b)) ws us"
    and ch: "chunks b = map (\<lambda>(l, r). rec_bytes r) os"
    and win: "window_ok env (flush_fields b) (os @ [(l, r)]) (current_context b) (component_dtype b)
      (is_complex b) (bytes_per_sample b) (start_timestamp b)
      (num_samples b + int (length (rec_bytes r)) div rec_bps r)"
    and arr: "first_arrival b \<noteq> None"
    and inert: "inert b \<longleftrightarrow> (case current_context b of None \<Rightarrow> False | Some ctx \<Rightarrow> unsupported_ctx ctx)"
  shows "advances env item sent us (concat ws @ os) b w [(l, r)] (append_chunk env (rec_bytes r) (rec_bps r) b w)"
proof -
  define b1 where "b1 = b\<lparr>chunks := chunks b @ [rec_bytes r],
    num_samples := num_samples b + int (length (rec_bytes r)) div rec_bps r\<rparr>"
  have f: "flush_fields b1 = flush_fields b" "config b1 = config b" "buf_stream_id b1 = buf_stream_id b"
    by (simp_all add: b1_def config_def)
  have ch1: "chunks b1 = map (\<lambda>(l, r). rec_bytes r) (os @ [(l, r)])" by (simp add: b1_def ch)
  have win1: "window_ok env (flush_fields b1) (os @ [(l, r)]) (current_context b1) (component_dtype b1)
      (is_complex b1) (bytes_per_sample b1) (start_timestamp b1) (num_samples b1)"
    using win by (simp add: b1_def)
  have inert1: "inert b1 \<longleftrightarrow> (case current_context b1 of None \<Rightarrow> False | Some ctx \<Rightarrow> unsupported_ctx ctx)"
    using inert by (simp add: b1_def)
  have app: "append_chunk env (rec_bytes r) (rec_bps r) b w =
      (if max_samples b1 \<le> num_samples b1 then flush env b1 w else (None, b1, w))"
    unfolding append_chunk_def Let_def b1_def by simp
  show ?thesis
  proof (cases "max_samples b1 \<le> num_samples b1")
    case True
    have "advances env item sent us ((concat ws @ os) @ [(l, r)]) b1 w [] (flush env b1 w)"
      using flush_window(1) [OF env _ ch1 win1 inert1] ws f(1) by simp
    from advances_regard [OF this f(2)]
    have "advances env item sent us (concat ws @ os) b w [(l, r)] (flush env b1 w)" .
    with True show ?thesis unfolding app by simp
  next
    case False
    have "open_ok env (os @ [(l, r)]) b1"
      unfolding open_ok_def using ch1 win1 inert1 False arr by (simp add: b1_def)
    then have "win_inv env item b1 us (concat ws @ os @ [(l, r)])"
      unfolding win_inv_def using ws f(1) by auto
    with False show ?thesis
      unfolding app advances_def
      by (intro exI [of _ None] exI [of _ b1] exI [of _ w] exI [of _ "[]"] exI [of _ "[(l, r)]"]) (simp add: f)
  qed
qed

section \<open>Contexts\<close>

lemma window_ok_relabel:
  assumes "window_ok env fs os c dt cx bp ts n" "map_option (flush_label fs) c = map_option (flush_label fs) c'"
  shows "window_ok env fs os c' dt cx bp ts n"
  using assms by (simp add: window_ok_def)

lemma adopt_context_frame:
  "config (adopt_context ctx b) = config b" "chunks (adopt_context ctx b) = chunks b"
  "current_context (adopt_context ctx b) = Some ctx"
  by (simp_all add: adopt_context_def Let_def config_def)

lemma adopt_context_inv:
  assumes inv: "win_inv env item b us acc" and same: "chunks b = [] \<or> \<not> differs b ctx"
  shows "win_inv env item (adopt_context ctx b) us acc"
proof -
  from inv obtain ws os where acc: "acc = concat ws @ os"
    and ws: "list_all2 (unit_ok env item (flush_fields b)) ws us" and o: "open_ok env os b"
    unfolding win_inv_def by blast
  have f: "flush_fields (adopt_context ctx b) = flush_fields b"
    by (simp add: adopt_context_def Let_def)
  have "open_ok env os (adopt_context ctx b)"
  proof (cases "os = []")
    case True
    with o show ?thesis by (simp add: open_ok_def adopt_context_def Let_def)
  next
    case False
    with o have "chunks b \<noteq> []" by (simp add: open_ok_def)
    with same obtain old where old: "current_context b = Some old"
      "flush_label (flush_fields b) old = flush_label (flush_fields b) ctx"
      unfolding differs_label by (auto split: option.splits)
    have "window_ok env (flush_fields b) os (Some old) (component_dtype b) (is_complex b)
        (bytes_per_sample b) (start_timestamp b) (num_samples b)"
      using o False unfolding open_ok_def old(1) [symmetric] by simp
    then have "window_ok env (flush_fields b) os (Some ctx) (component_dtype b) (is_complex b)
        (bytes_per_sample b) (start_timestamp b) (num_samples b)"
      by (rule window_ok_relabel) (simp only: option.map old(2))
    with o False show ?thesis by (simp add: open_ok_def adopt_context_def Let_def)
  qed
  with ws show ?thesis unfolding win_inv_def acc f by blast
qed

lemma push_context_advances:
  assumes env: "env_logs env item sent" and inv: "win_inv env item b us acc"
  shows "advances env item sent us acc b w [] (push_context env c b w)"
proof (cases c)
  case None
  with inv show ?thesis by (simp add: push_context_def advances_skip)
next
  case (Some ctx)
  have "advances env item sent us acc b w ([] @ [])
    (and_then (if chunks b \<noteq> [] \<and> differs b ctx then flush env b w else (None, b, w))
      (\<lambda>b1 w1. (None, adopt_context ctx b1, w1)))"
  proof (rule advances_then [OF guarded_flush(1) [OF env inv]])
    fix b1 w1 news
    assume o: "(if chunks b \<noteq> [] \<and> differs b ctx then flush env b w else (None, b, w)) = (None, b1, w1)"
      and i1: "win_inv env item b1 (us @ news) (acc @ [])"
    from guarded_flush(2) [OF env inv o] have "chunks b1 = [] \<or> \<not> differs b1 ctx" by auto
    with i1 have "win_inv env item (adopt_context ctx b1) (us @ news) (acc @ [])"
      by (rule adopt_context_inv)
    then show "advances env item sent (us @ news) (acc @ []) b1 w1 [] (None, adopt_context ctx b1, w1)"
      by (simp add: advances_skip adopt_context_frame)
  qed
  with Some show ?thesis by (simp add: push_context_def)
qed

section \<open>Data records\<close>

text \<open>The types of a data record: its data is present and its sample size an integer or absent.\<close>

definition record_typed :: "packet_record \<Rightarrow> bool" where
  "record_typed r \<longleftrightarrow> (rec_type r = ''data'' \<longrightarrow> rec_data r \<noteq> None \<and>
     (\<forall>v. md_bytes_per_sample (rec_metadata r) = v \<longrightarrow> v = PNone \<or> (\<exists>n. v = PInt n)))"

lemma win_inv_uncounted:
  "win_inv env item (b\<lparr>buf_dropped := d, buf_log := l\<rparr>) us acc = win_inv env item b us acc"
  "win_inv env item (b\<lparr>buf_log := l, buf_dropped := d\<rparr>) us acc = win_inv env item b us acc"
  by (simp_all add: win_inv_def open_ok_def)

lemma drop_record_inv [simp]:
  "win_inv env item (drop_record reason b) us acc = win_inv env item b us acc"
  "config (drop_record reason b) = config b"
  by (simp_all add: drop_record_def win_inv_uncounted config_def)

lemma latch_result:
  assumes env: "env_logs env item sent" and l: "latch env dt cplx bps b = res"
  shows "res = (if convertible env dt cplx bps
      then Inr (True, b\<lparr>component_dtype := dt, is_complex := Some cplx, bytes_per_sample := Some bps\<rparr>)
      else Inr (False, b\<lparr>buf_log := logged ''latch-invalid'' (buf_log b)\<rparr>))"
proof (cases "np_dtype env dt")
  case (Inl e)
  with env have "e = TypeError" unfolding env_logs_def numpy_ok_def by blast
  with Inl l show ?thesis by (simp add: latch_def convertible_def)
next
  case (Inr ki)
  with l show ?thesis
    by (cases ki) (auto simp: latch_def convertible_def numeric_kind_def components_per_sample_def)
qed

lemma window_ok_single:
  assumes "usable env r" "current_context b = Some ctx"
  shows "window_ok env fs [(flush_label fs ctx, r)] (current_context b) (md_dtype (rec_metadata r))
    (Some (rec_cplx r)) (Some (rec_bps r)) (md_timestamp (rec_metadata r))
    (int (length (rec_bytes r)) div rec_bps r)"
  using assms by (simp add: window_ok_def)

lemma open_window_advances:
  assumes env: "env_logs env item sent" and inv: "win_inv env item b us acc" and ch: "chunks b = []"
    and ctx: "current_context b = Some ctx"
    and r: "md_dtype (rec_metadata r) \<noteq> PNone" "rec_bps r \<noteq> 0" "rec_bytes r \<noteq> []"
      "rec_bps r dvd int (length (rec_bytes r))"
  shows "advances env item sent us acc b w
    (if usable env r then [(flush_label (flush_fields b) ctx, r)] else [])
    (open_window env (rec_metadata r) (rec_bytes r) (rec_bps r) b w)"
proof -
  have u: "usable env r \<longleftrightarrow> convertible env (md_dtype (rec_metadata r)) (rec_cplx r) (rec_bps r)"
    using r by (simp add: usable_def)
  note latched = latch_result [OF env refl, of "md_dtype (rec_metadata r)" "rec_cplx r" "rec_bps r" b]
  show ?thesis
  proof (cases "usable env r")
    case False
    have "win_inv env item (b\<lparr>buf_log := logged ''latch-invalid'' (buf_log b), buf_dropped := buf_dropped b + 1\<rparr>) us acc"
      unfolding win_inv_uncounted by (rule inv)
    with False u show ?thesis
      unfolding open_window_def rec_cplx_def [symmetric] latched
      by (simp add: advances_skip config_def)
  next
    case True
    obtain now w1 where m: "monotonic env w = (now, w1)" by force
    with env have s: "sent w1 = sent w" unfolding env_logs_def numpy_ok_def by (metis snd_conv)
    define b1 where "b1 = b\<lparr>component_dtype := md_dtype (rec_metadata r), is_complex := Some (rec_cplx r),
      bytes_per_sample := Some (rec_bps r), start_timestamp := md_timestamp (rec_metadata r),
      first_arrival := Some now\<rparr>"
    from inv obtain ws os where acc: "acc = concat ws @ os"
      and ws: "list_all2 (unit_ok env item (flush_fields b)) ws us" and o: "open_ok env os b"
      unfolding win_inv_def by blast
    with ch have os: "os = []" "num_samples b = 0" by (auto simp: open_ok_def)
    have fr: "flush_fields b1 = flush_fields b" "config b1 = config b" "current_context b1 = current_context b"
      "chunks b1 = map (\<lambda>(l, r). rec_bytes r) []" "first_arrival b1 \<noteq> None" "buf_stream_id b1 = buf_stream_id b"
      by (simp_all add: b1_def config_def ch)
    have win: "window_ok env (flush_fields b1) ([] @ [(flush_label (flush_fields b) ctx, r)]) (current_context b1)
        (component_dtype b1) (is_complex b1) (bytes_per_sample b1) (start_timestamp b1)
        (num_samples b1 + int (length (rec_bytes r)) div rec_bps r)"
      using window_ok_single [OF True ctx, of "flush_fields b"] os(2) by (simp add: b1_def)
    have inert: "inert b1 \<longleftrightarrow> (case current_context b1 of None \<Rightarrow> False | Some ctx \<Rightarrow> unsupported_ctx ctx)"
      using o by (simp add: b1_def open_ok_def)
    have "advances env item sent us (concat ws @ []) b1 w1 [(flush_label (flush_fields b) ctx, r)]
        (append_chunk env (rec_bytes r) (rec_bps r) b1 w1)"
      using append_advances [OF env _ fr(4) win fr(5) inert] ws fr(1) by simp
    then have "advances env item sent us acc b w [(flush_label (flush_fields b) ctx, r)]
        (append_chunk env (rec_bytes r) (rec_bps r) b1 w1)"
      unfolding advances_def fr s acc os by simp
    moreover have "open_window env (rec_metadata r) (rec_bytes r) (rec_bps r) b w
        = append_chunk env (rec_bytes r) (rec_bps r) b1 w1"
      using True u unfolding open_window_def rec_cplx_def [symmetric] latched by (simp add: m b1_def)
    ultimately show ?thesis using True by simp
  qed
qed

lemma extend_window_advances:
  assumes env: "env_logs env item sent" and inv: "win_inv env item b us acc" and ch: "chunks b \<noteq> []"
    and ctx: "current_context b = Some ctx"
    and r: "md_dtype (rec_metadata r) \<noteq> PNone" "rec_bps r \<noteq> 0" "rec_bytes r \<noteq> []"
      "rec_bps r dvd int (length (rec_bytes r))"
    and same: "\<not> interpretation_changed (rec_metadata r) (rec_bps r) b"
    and gap: "\<not> md_gap_before (rec_metadata r)"
  shows "advances env item sent us acc b w
    (if usable env r then [(flush_label (flush_fields b) ctx, r)] else [])
    (append_chunk env (rec_bytes r) (rec_bps r) b w)"
proof -
  from inv obtain ws os where acc: "acc = concat ws @ os"
    and ws: "list_all2 (unit_ok env item (flush_fields b)) ws us" and o: "open_ok env os b"
    unfolding win_inv_def by blast
  with ch have os: "os \<noteq> []" by (auto simp: open_ok_def)
  with o have win: "window_ok env (flush_fields b) os (current_context b) (component_dtype b)
      (is_complex b) (bytes_per_sample b) (start_timestamp b) (num_samples b)"
    and chs: "chunks b = map (\<lambda>(l, r). rec_bytes r) os" and arr: "first_arrival b \<noteq> None"
    and inert: "inert b \<longleftrightarrow> (case current_context b of None \<Rightarrow> False | Some ctx \<Rightarrow> unsupported_ctx ctx)"
    unfolding open_ok_def by simp_all
  obtain l0 r0 os' where e: "os = (l0, r0) # os'" using os by (cases os) auto
  with win have r0: "usable env r0" "md_dtype (rec_metadata r0) = component_dtype b"
    "Some (rec_cplx r0) = is_complex b" "Some (rec_bps r0) = bytes_per_sample b"
    unfolding window_ok_def by auto
  from same r0 have i: "rec_cplx r = rec_cplx r0" "rec_bps r = rec_bps r0"
    "py_eq (md_dtype (rec_metadata r)) (component_dtype b)"
    unfolding interpretation_changed_def rec_cplx_def [symmetric] by (metis option.inject)+
  have "convertible env (component_dtype b) (rec_cplx r0) (rec_bps r0)"
    using r0(1,2) by (simp add: usable_def)
  then obtain k n where "np_dtype env (component_dtype b) = Inr (k, n)"
    by (auto simp: convertible_def split: sum.splits)
  with env have "py_number (component_dtype b) = None" unfolding env_logs_def numpy_ok_def by blast
  with i(3) have dt: "md_dtype (rec_metadata r) = component_dtype b"
    by (auto simp: py_eq_def split: option.splits)
  have u: "usable env r"
    using r r0(1,2) i(1,2) dt by (simp add: usable_def)
  have "window_ok env (flush_fields b) (os @ [(flush_label (flush_fields b) ctx, r)]) (current_context b)
      (component_dtype b) (is_complex b) (bytes_per_sample b) (start_timestamp b)
      (num_samples b + int (length (rec_bytes r)) div rec_bps r)"
    using win u dt i(1,2) r0(3,4) gap ctx os unfolding window_ok_def by auto
  from append_advances [OF env ws chs this arr inert] u show ?thesis unfolding acc by simp
qed

text \<open>The body of \<open>_push_data\<close> after its guards: the two guarded flushes, then the append.\<close>

lemma advances_after_flush:
  assumes "advances env item sent us acc b w [] out"
    and "\<And>b1 w1 news. out = (None, b1, w1) \<Longrightarrow> config b1 = config b \<Longrightarrow>
      win_inv env item b1 (us @ news) acc \<Longrightarrow> advances env item sent (us @ news) acc b1 w1 extra (f b1 w1)"
  shows "advances env item sent us acc b w extra (and_then out f)"
  using advances_then [OF assms(1), of extra f] assms(2) by simp

lemma push_data_advances:
  assumes env: "env_logs env item sent" and inv: "win_inv env item b us acc"
    and typed: "record_typed r" and data: "rec_type r = ''data''"
  shows "advances env item sent us acc b w
    (arrival_of env (flush_fields b) (current_context b) (Some r)) (push_data env r b w)"
proof -
  let ?md = "rec_metadata r"
  let ?extra = "arrival_of env (flush_fields b) (current_context b) (Some r)"
  from inv obtain os where "open_ok env os b" unfolding win_inv_def by blast
  then have inert: "inert b \<longleftrightarrow> (case current_context b of None \<Rightarrow> False | Some ctx \<Rightarrow> unsupported_ctx ctx)"
    by (simp add: open_ok_def)
  have drop: "advances env item sent us acc b w [] (None, drop_record reason b, w)" for reason
    using inv by (simp add: advances_skip)
  from typed data obtain d where d: "rec_data r = Some d" "rec_bytes r = d"
    by (auto simp: record_typed_def rec_bytes_def)
  show ?thesis
  proof (cases "current_context b = None \<or> inert b")
    case True
    with inert have "?extra = []" by (auto simp: arrival_of_def split: option.splits)
    with True drop show ?thesis by (simp add: push_data_def)
  next
    case False
    then obtain ctx where ctx: "current_context b = Some ctx" and sup: "\<not> unsupported_ctx ctx"
      using inert by auto
    have extra: "?extra = (if usable env r then [(flush_label (flush_fields b) ctx, r)] else [])"
      using ctx sup data by (simp add: arrival_of_def)
    show ?thesis
    proof (cases "md_dtype ?md = PNone \<or> \<not> py_truthy (md_bytes_per_sample ?md)")
      case True
      with typed data have "\<not> usable env r"
        by (auto simp: usable_def rec_bps_def record_typed_def py_truthy_def)
      with True False drop show ?thesis unfolding extra by (simp add: push_data_def Let_def)
    next
      case ok: False
      with typed data obtain n where n: "md_bytes_per_sample ?md = PInt n" "rec_bps r = n" "n \<noteq> 0"
        by (auto simp: record_typed_def rec_bps_def py_truthy_def)
      show ?thesis
      proof (cases "int (length d) mod n = 0")
        case m: False
        then have "\<not> usable env r" using d n by (simp add: usable_def dvd_eq_mod_eq_0)
        with False ok d n m drop show ?thesis unfolding extra by (simp add: push_data_def Let_def as_int_def)
      next
        case m: True
        have r: "md_dtype ?md \<noteq> PNone" "rec_bps r \<noteq> 0" "rec_bps r dvd int (length (rec_bytes r))"
          using ok n d m by (simp_all add: dvd_eq_mod_eq_0)
        have eq: "push_data env r b w =
          and_then (if chunks b \<noteq> [] \<and> md_gap_before ?md then flush env b w else (None, b, w))
            (\<lambda>b1 w1. and_then (if chunks b1 \<noteq> [] \<and> interpretation_changed ?md (rec_bps r) b1
                         then flush env b1 w1 else (None, b1, w1))
              (\<lambda>b2 w2. if rec_bytes r = [] then (None, b2, w2)
                 else if chunks b2 = [] then open_window env ?md (rec_bytes r) (rec_bps r) b2 w2
                 else append_chunk env (rec_bytes r) (rec_bps r) b2 w2))"
        proof -
          have "\<not> inert b" "md_dtype ?md \<noteq> PNone" "py_truthy (PInt n)"
            using False ok n by simp_all
          then show ?thesis
            unfolding push_data_def Let_def ctx n d by (simp add: as_int_def m)
        qed
        show ?thesis
          unfolding eq extra
        proof (rule advances_after_flush [OF guarded_flush(1) [OF env inv]], rule advances_after_flush)
          fix b1 w1 news
          assume o1: "(if chunks b \<noteq> [] \<and> md_gap_before ?md then flush env b w else (None, b, w)) = (None, b1, w1)"
            and c1: "config b1 = config b" and i1: "win_inv env item b1 (us @ news) acc"
          show "advances env item sent (us @ news) acc b1 w1 []
            (if chunks b1 \<noteq> [] \<and> interpretation_changed ?md (rec_bps r) b1 then flush env b1 w1 else (None, b1, w1))"
            by (rule guarded_flush(1) [OF env i1])
          fix b2 w2 news2
          assume o2: "(if chunks b1 \<noteq> [] \<and> interpretation_changed ?md (rec_bps r) b1 then flush env b1 w1 else (None, b1, w1))
              = (None, b2, w2)"
            and c2: "config b2 = config b1" and i2: "win_inv env item b2 ((us @ news) @ news2) acc"
          note s1 = guarded_flush(2) [OF env inv o1] and s2 = guarded_flush(2) [OF env i1 o2]
          have ctx2: "current_context b2 = Some ctx"
            using s1 s2 ctx by (simp add: context_state_def)
          have ff: "flush_fields b2 = flush_fields b" using c1 c2 by (simp add: config_def)
          have whole: "chunks b2 = [] \<or> (\<not> md_gap_before ?md \<and> \<not> interpretation_changed ?md (rec_bps r) b2)"
            using s1 s2 by auto
          show "advances env item sent ((us @ news) @ news2) acc b2 w2
            (if usable env r then [(flush_label (flush_fields b) ctx, r)] else [])
            (if rec_bytes r = [] then (None, b2, w2)
             else if chunks b2 = [] then open_window env ?md (rec_bytes r) (rec_bps r) b2 w2
             else append_chunk env (rec_bytes r) (rec_bps r) b2 w2)"
          proof (cases "rec_bytes r = []")
            case True
            then have "\<not> usable env r" by (simp add: usable_def)
            with True i2 show ?thesis by (simp add: advances_skip)
          next
            case nonempty: False
            show ?thesis
            proof (cases "chunks b2 = []")
              case True
              with open_window_advances [OF env i2 True ctx2 r(1,2) nonempty r(3), of w2] nonempty show ?thesis
                unfolding ff by simp
            next
              case ne: False
              with whole have "\<not> interpretation_changed ?md (rec_bps r) b2" "\<not> md_gap_before ?md" by simp_all
              from extend_window_advances [OF env i2 ne ctx2 r(1,2) nonempty r(3) this, of w2] nonempty ne
              show ?thesis unfolding ff by simp
            qed
          qed
        qed
      qed
    qed
  qed
qed

lemma push_advances:
  assumes "env_logs env item sent" "win_inv env item b us acc" "\<forall>r. rec = Some r \<longrightarrow> record_typed r"
  shows "advances env item sent us acc b w (arrival_of env (flush_fields b) (current_context b) rec) (push env rec b w)"
proof (cases rec)
  case None
  with assms show ?thesis by (simp add: push_def arrival_of_def advances_skip)
next
  case (Some r)
  show ?thesis
  proof (cases "rec_type r = ''data''")
    case True
    with assms Some push_data_advances [of env item sent b us acc r w] show ?thesis by (simp add: push_def)
  next
    case False
    then have "arrival_of env (flush_fields b) (current_context b) rec = []"
      using Some by (auto simp: arrival_of_def split: option.splits)
    with False Some assms show ?thesis
      by (simp add: push_def push_context_advances advances_skip)
  qed
qed

end
