(* ===== verification/Router.thy ===== *)
theory Router
  imports Buffer_Laws Stream_Table
begin

text \<open>
  \<open>BufferRouter\<close> of \<open>buffer.py\<close>: one ingest buffer per stream id, created on the stream's first
  record and bounded by \<open>max_streams\<close>. The two operations that visit every buffer (the age poll and
  the final flush) share the contract \<open>stream_op\<close>.
\<close>

section \<open>State and operations\<close>

record router =
  rt_max_samples :: int
  rt_max_age_s :: rat
  rt_flush_fields :: "string list"
  rt_max_streams :: int
  buffers :: "(int option \<times> buffer) list"
  rt_dropped :: int
  rt_log :: rate_log

definition new_router :: "int \<Rightarrow> rat \<Rightarrow> string list \<Rightarrow> int \<Rightarrow> router" where
  "new_router n age fs m =
     \<lparr>rt_max_samples = n, rt_max_age_s = age, rt_flush_fields = fs, rt_max_streams = m,
      buffers = [], rt_dropped = 0, rt_log = new_rate_log\<rparr>"

text \<open>Handing a record to the buffer of its stream; the table holds the object, so its new state stays
  even when it raised.\<close>

definition push_into ::
  "('f, 'w) env \<Rightarrow> packet_record \<Rightarrow> int option \<Rightarrow> buffer \<Rightarrow> router \<Rightarrow> 'w \<Rightarrow> (router, 'w) outcome" where
  "push_into env r sid b rt w =
    (case push env (Some r) b w of
       (e, b', w') \<Rightarrow> (e, rt\<lparr>buffers := dict_set sid b' (buffers rt)\<rparr>, w'))"

definition router_push ::
  "('f, 'w) env \<Rightarrow> packet_record option \<Rightarrow> router \<Rightarrow> 'w \<Rightarrow> (router, 'w) outcome" where
  "router_push env rec rt w =
    (case rec of None \<Rightarrow> (None, rt, w)
     | Some r \<Rightarrow>
        let sid = md_stream_id (rec_metadata r) in
        (case map_of (buffers rt) sid of
           Some b \<Rightarrow> push_into env r sid b rt w
         | None \<Rightarrow>
             if rt_max_streams rt \<le> int (length (buffers rt)) then
               (None, rt\<lparr>rt_dropped := rt_dropped rt + 1, rt_log := logged ''stream-flood'' (rt_log rt)\<rparr>, w)
             else push_into env r sid
               (new_buffer (rt_max_samples rt) (rt_max_age_s rt) sid (rt_flush_fields rt)) rt w))"

text \<open>The loop over \<open>_buffers.values()\<close>: in insertion order, left at the first exception.\<close>

fun for_each ::
  "(buffer \<Rightarrow> 'w \<Rightarrow> (buffer, 'w) outcome) \<Rightarrow> (int option \<times> buffer) list \<Rightarrow> 'w \<Rightarrow>
     ((int option \<times> buffer) list, 'w) outcome" where
  "for_each f [] w = (None, [], w)"
| "for_each f ((k, b) # bs) w =
     (case f b w of
        (Some e, b', w') \<Rightarrow> (Some e, (k, b') # bs, w')
      | (None, b', w') \<Rightarrow> (case for_each f bs w' of (r, bs', w'') \<Rightarrow> (r, (k, b') # bs', w'')))"

definition visit_all ::
  "(buffer \<Rightarrow> 'w \<Rightarrow> (buffer, 'w) outcome) \<Rightarrow> router \<Rightarrow> 'w \<Rightarrow> (router, 'w) outcome" where
  "visit_all f rt w = (case for_each f (buffers rt) w of (r, bs, w') \<Rightarrow> (r, rt\<lparr>buffers := bs\<rparr>, w'))"

definition router_age :: "('f, 'w) env \<Rightarrow> router \<Rightarrow> 'w \<Rightarrow> (router, 'w) outcome" where
  "router_age env = visit_all (maybe_flush_on_age env)"

definition flush_all :: "('f, 'w) env \<Rightarrow> router \<Rightarrow> 'w \<Rightarrow> (router, 'w) outcome" where
  "flush_all env = visit_all (flush env)"

section \<open>Contexts of a buffer\<close>

lemma flush_context: "flush env b w = (r, b', w') \<Longrightarrow> context_state b' = context_state b"
  by (auto simp: flush_def split: if_splits sum.splits prod.splits)

lemma age_context: "maybe_flush_on_age env b w = (r, b', w') \<Longrightarrow> context_state b' = context_state b"
  by (auto simp: maybe_flush_on_age_def flush_context split: if_splits option.splits prod.splits dest: flush_context)

lemma flush_current: "flush env b w = (r, b', w') \<Longrightarrow> current_context b' = current_context b"
  using flush_context [of env b w r b' w'] by (simp add: context_state_def)

lemma append_current: "append_chunk env d n b w = (r, b', w') \<Longrightarrow> current_context b' = current_context b"
  by (auto simp: append_chunk_def Let_def dest: flush_current split: if_splits)

lemma latch_current: "latch env dt c n b = Inr (x, b') \<Longrightarrow> current_context b' = current_context b"
  by (auto simp: latch_def split: sum.splits option.splits if_splits prod.splits)

lemma open_current: "open_window env md d n b w = (r, b', w') \<Longrightarrow> current_context b' = current_context b"
  by (auto simp: open_window_def split: sum.splits prod.splits bool.splits dest!: append_current dest: latch_current)

lemma push_data_current: "push_data env rc b w = (r, b', w') \<Longrightarrow> current_context b' = current_context b"
  by (auto simp: push_data_def Let_def drop_record_def and_then_def split: if_splits option.splits sum.splits prod.splits
      dest!: flush_current append_current open_current)

lemma push_current:
  "push env rec b w = (None, b', w') \<Longrightarrow> current_context b' = next_context rec (current_context b)"
  by (auto simp: push_def push_context_def next_context_def and_then_def adopt_context_frame
      split: option.splits if_splits prod.splits dest: push_data_current flush_current)

section \<open>Operations that visit every buffer\<close>

locale stream_op =
  fixes op :: "('f, 'w) env \<Rightarrow> buffer \<Rightarrow> 'w \<Rightarrow> (buffer, 'w) outcome"
  assumes op_advances: "env_logs env item sent \<Longrightarrow> win_inv env item b us acc \<Longrightarrow>
      advances env item sent us acc b w [] (op env b w)"
    and op_context: "op env b w = (r, b', w') \<Longrightarrow> context_state b' = context_state b"
begin

text \<open>Visiting a table of buffers: the same keys in the same order, every buffer advances on the units
  of its own stream, also when the visit is left by an exception of the callback.\<close>

lemma visit:
  assumes env: "env_logs env item sent" and dist: "distinct (dict_keys bs)"
    and own: "\<forall>(k, b) \<in> set bs. buf_stream_id b = k"
    and inv: "\<forall>(k, b) \<in> set bs. win_inv env item b (filter (\<lambda>u. u_stream_id u = k) us) (acc k)"
  shows "\<exists>e bs' w' news. for_each (op env) bs w = (e, bs', w') \<and> sent w' = sent w @ news \<and>
    dict_keys bs' = dict_keys bs \<and> (\<forall>u \<in> set news. u_stream_id u \<in> set (dict_keys bs)) \<and>
    (\<forall>k b'. map_of bs' k = Some b' \<longrightarrow> (\<exists>b. map_of bs k = Some b \<and> config b' = config b \<and>
       context_state b' = context_state b)) \<and>
    (\<forall>(k, b) \<in> set bs'. win_inv env item b (filter (\<lambda>u. u_stream_id u = k) (us @ news)) (acc k)) \<and>
    (\<forall>x. e = Some x \<longrightarrow> raised_on env news x)"
  using dist own inv
proof (induction bs arbitrary: w us)
  case Nil
  then show ?case by (intro exI [of _ None] exI [of _ "[]"]) simp
next
  case (Cons kb bs)
  obtain k b where kb: "kb = (k, b)" by force
  from Cons.prems kb have bk: "buf_stream_id b = k"
    and ib: "win_inv env item b (filter (\<lambda>u. u_stream_id u = k) us) (acc k)" by auto
  from op_advances [OF env ib, of w] obtain e b' w1 news where o: "op env b w = (e, b', w1)"
    "config b' = config b" "sent w1 = sent w @ news" "\<forall>u \<in> set news. u_stream_id u = k"
    "win_inv env item b' (filter (\<lambda>u. u_stream_id u = k) us @ news) (acc k)"
    "\<forall>x. e = Some x \<longrightarrow> raised_on env news x"
    unfolding advances_def bk by (auto split: option.splits)
  have k: "k \<notin> set (dict_keys bs)" using Cons.prems(1) kb by simp
  have other: "filter (\<lambda>u. u_stream_id u = k') (us @ news) = filter (\<lambda>u. u_stream_id u = k') us"
    if "k' \<noteq> k" for k'
    using o(4) that by (auto simp: filter_empty_conv)
  have own: "filter (\<lambda>u. u_stream_id u = k) news = news"
    using o(4) by (simp add: filter_id_conv)
  have rest: "\<forall>(k', c) \<in> set bs. win_inv env item c (filter (\<lambda>u. u_stream_id u = k') (us @ news)) (acc k')"
  proof safe
    fix k' c assume m: "(k', c) \<in> set bs"
    then have "k' \<noteq> k" using k by force
    with Cons.prems(3) m show "win_inv env item c (filter (\<lambda>u. u_stream_id u = k') (us @ news)) (acc k')"
      unfolding other [OF \<open>k' \<noteq> k\<close>] by auto
  qed
  note ctx = op_context [OF o(1)]
  show ?case
  proof (cases e)
    case (Some x)
    from k have tl: "map_of bs k' = Some c \<Longrightarrow> k' \<noteq> k" for k' c by (auto dest: map_of_Some_keys)
    from o rest ctx own Some tl show ?thesis
      unfolding kb
      by (intro exI [of _ e] exI [of _ "(k, b') # bs"] exI [of _ w1] exI [of _ news]) auto
  next
    case None
    from rest Cons.IH [of "us @ news" w1] Cons.prems obtain e' bs' w' news' where r:
      "for_each (op env) bs w1 = (e', bs', w')" "sent w' = sent w1 @ news'" "dict_keys bs' = dict_keys bs"
      "\<forall>u \<in> set news'. u_stream_id u \<in> set (dict_keys bs)"
      "\<forall>k b'. map_of bs' k = Some b' \<longrightarrow> (\<exists>b. map_of bs k = Some b \<and> config b' = config b \<and>
         context_state b' = context_state b)"
      "\<forall>(k, b) \<in> set bs'. win_inv env item b (filter (\<lambda>u. u_stream_id u = k) ((us @ news) @ news')) (acc k)"
      "\<forall>x. e' = Some x \<longrightarrow> raised_on env news' x"
      by auto
    have "filter (\<lambda>u. u_stream_id u = k) news' = []"
      using r(4) k by (auto simp: filter_empty_conv)
    then have "filter (\<lambda>u. u_stream_id u = k) (us @ news @ news') = filter (\<lambda>u. u_stream_id u = k) us @ news"
      using own by simp
    with o r ctx None show ?thesis
      unfolding kb
      by (intro exI [of _ e'] exI [of _ "(k, b') # bs'"] exI [of _ w'] exI [of _ "news @ news'"])
        (auto simp: raised_on_append)
  qed
qed

end

interpretation age_op: stream_op maybe_flush_on_age
  by unfold_locales (simp add: maybe_flush_on_age_advances, rule age_context)

interpretation flush_op: stream_op flush
  by unfold_locales (simp add: flush_advances(1), rule flush_context)

end
