(* ===== verification/Demo_Env.thy ===== *)
theory Demo_Env
  imports Buffer_Windows
begin

text \<open>
  A concrete environment for the witnesses: numpy read as exact integers (an item is the unsigned
  big-endian value of its bytes, whatever its kind), a clock that advances a quarter of a second per
  reading, and a callback that records the units.
\<close>

definition demo_dtype :: "pyval \<Rightarrow> exn + char \<times> int" where
  "demo_dtype d = (case d of PStr s \<Rightarrow>
       (case map_of [(''>i1'', CHR ''i'', 1), (''>i2'', CHR ''i'', 2), (''>i4'', CHR ''i'', 4), (''>u1'', CHR ''u'', 1),
              (''>u2'', CHR ''u'', 2), (''>u4'', CHR ''u'', 4), (''>f4'', CHR ''f'', 4), (''>f8'', CHR ''f'', 8)] s of
          None \<Rightarrow> Inl TypeError | Some ki \<Rightarrow> Inr ki)
     | _ \<Rightarrow> Inl TypeError)"

definition demo_item :: "pyval \<Rightarrow> bytes \<Rightarrow> int" where
  "demo_item d raw = be_int raw"

definition demo_float32 :: "pyval \<Rightarrow> bytes \<Rightarrow> exn + int list" where
  "demo_float32 d raw = (case demo_dtype d of Inl e \<Rightarrow> Inl e
     | Inr (k, n) \<Rightarrow> if raw \<noteq> [] \<and> n dvd int (length raw)
         then Inr (map (demo_item d) (chunks_of (nat n) raw)) else Inl ValueError)"

definition demo_complex64 :: "int list \<Rightarrow> exn + (int \<times> int) list" where
  "demo_complex64 xs = (if even (length xs) then Inr (adjacent_pairs xs) else Inl ValueError)"

type_synonym demo_world = "rat \<times> int unit_rec list"

definition demo_env :: "(int, demo_world) env" where
  "demo_env = \<lparr>monotonic = \<lambda>(t, us). (t, (t + 1 / 4, us)), emit = \<lambda>u (t, us). (None, (t, us @ [u])),
     np_dtype = demo_dtype, np_float32 = demo_float32, np_complex64 = demo_complex64\<rparr>"

lemma demo_env_ok: "env_ok demo_env demo_item snd"
  unfolding env_ok_def env_logs_def numpy_ok_def
proof (intro conjI allI impI)
  fix d e assume "np_dtype demo_env d = Inl e"
  then show "e = TypeError"
    by (auto simp: demo_env_def demo_dtype_def split: pyval.splits option.splits)
next
  fix d k n assume "np_dtype demo_env d = Inr (k, n)"
  then show "0 \<le> n" "py_number d = None"
    by (auto simp: demo_env_def demo_dtype_def split: pyval.splits option.splits if_splits)
next
  fix d k n and raw :: bytes
  assume "np_dtype demo_env d = Inr (k, n)" "raw \<noteq> []" "n dvd int (length raw)"
  then show "np_float32 demo_env d raw = Inr (map (demo_item d) (chunks_of (nat n) raw))"
    by (simp add: demo_env_def demo_float32_def)
next
  fix xs :: "int list" assume "even (length xs)"
  then show "np_complex64 demo_env xs = Inr (adjacent_pairs xs)"
    by (simp add: demo_env_def demo_complex64_def)
qed (simp_all add: demo_env_def split: prod.splits)

section \<open>Records for the witnesses\<close>

text \<open>A context of real unsigned 16-bit samples on stream 7, and its data records.\<close>

definition demo_ctx :: "int \<Rightarrow> pydict" where
  "demo_ctx rf = [(''rf_hz'', PInt rf), (''supported'', PBool True), (''component_dtype'', PStr ''>u2''),
     (''bytes_per_sample'', PInt 2), (''is_complex'', PBool False)]"

definition demo_md :: "bool \<Rightarrow> metadata" where
  "demo_md gap = \<lparr>md_stream_id = Some 7, md_counter = 1, md_timestamp = Some 0, md_packet_size = 4,
     md_dtype = PStr ''>u2'', md_bytes_per_sample = PInt 2, md_is_complex = PBool False, md_gap_before = gap\<rparr>"

definition demo_context_record :: "int \<Rightarrow> packet_record" where
  "demo_context_record rf = \<lparr>rec_type = ''context'', rec_metadata = demo_md False,
     rec_context = Some (demo_ctx rf), rec_data = None\<rparr>"

definition demo_data_record :: "bool \<Rightarrow> bytes \<Rightarrow> packet_record" where
  "demo_data_record gap d = \<lparr>rec_type = ''data'', rec_metadata = demo_md gap, rec_context = None, rec_data = Some d\<rparr>"

end
