(* ===== verification/Router_Laws.thy ===== *)
theory Router_Laws
  imports Router Demo_Env
begin

text \<open>
  Laws of the buffer router: the bound on its table whatever the callbacks do, and the refinement of
  the multiplexed router to independent per-stream partitions into windows.
\<close>

section \<open>Sequences of router operations\<close>

datatype router_op = Push "packet_record option" | Age_Poll | Flush_All

fun router_step :: "('f, 'w) env \<Rightarrow> router_op \<Rightarrow> router \<Rightarrow> 'w \<Rightarrow> (router, 'w) outcome" where
  "router_step env (Push rec) rt w = router_push env rec rt w"
| "router_step env Age_Poll rt w = router_age env rt w"
| "router_step env Flush_All rt w = flush_all env rt w"

fun router_run :: "('f, 'w) env \<Rightarrow> router_op list \<Rightarrow> router \<Rightarrow> 'w \<Rightarrow> (router, 'w) outcome" where
  "router_run env [] rt w = (None, rt, w)"
| "router_run env (op # ops) rt w = and_then (router_step env op rt w) (router_run env ops)"

section \<open>The table of buffers\<close>

lemma for_each_keys: "for_each f bs w = (r, bs', w') \<Longrightarrow> dict_keys bs' = dict_keys bs"
proof (induction bs arbitrary: w r bs')
  case (Cons kb bs)
  then show ?case by (cases kb) (auto split: prod.splits option.splits)
qed simp

lemma visit_all_table:
  "visit_all f rt w = (r, rt', w') \<Longrightarrow>
     dict_keys (buffers rt') = dict_keys (buffers rt) \<and> rt_max_streams rt' = rt_max_streams rt"
  by (auto simp: visit_all_def simp del: list.set_map split: prod.splits dest: for_each_keys)

lemma push_into_table:
  "push_into env p sid b rt w = (r, rt', w') \<Longrightarrow>
     rt_max_streams rt' = rt_max_streams rt \<and>
     dict_keys (buffers rt') = (if sid \<in> set (dict_keys (buffers rt)) then dict_keys (buffers rt)
       else dict_keys (buffers rt) @ [sid])"
proof -
  assume a: "push_into env p sid b rt w = (r, rt', w')"
  obtain e b' w1 where "push env (Some p) b w = (e, b', w1)" by (metis prod_cases3)
  with a have "rt' = rt\<lparr>buffers := dict_set sid b' (buffers rt)\<rparr>" by (simp add: push_into_def)
  then show ?thesis by (simp add: dict_keys_set del: list.set_map)
qed

definition router_exec :: "router_op \<Rightarrow> ('f, 'w) env \<times> router \<times> 'w \<Rightarrow> ('f, 'w) env \<times> router \<times> 'w" where
  "router_exec op = (\<lambda>(env, rt, w). case router_step env op rt w of (r, rt', w') \<Rightarrow> (env, rt', w'))"

lemma router_step_table:
  assumes "router_step env op rt w = (r, rt', w')"
  shows "rt_max_streams rt' = rt_max_streams rt" (is ?cap)
    "dict_keys (buffers rt') = dict_keys (buffers rt) \<or>
      (\<exists>k. k \<notin> set (dict_keys (buffers rt)) \<and> int (length (dict_keys (buffers rt))) < rt_max_streams rt \<and>
         dict_keys (buffers rt') = dict_keys (buffers rt) @ [k])" (is ?keys)
proof -
  have "?cap \<and> ?keys"
  proof (cases op)
    case (Push rec)
    show ?thesis
    proof (cases rec)
      case None
      with Push assms show ?thesis by (simp add: router_push_def)
    next
      case (Some p)
      let ?sid = "md_stream_id (rec_metadata p)"
      show ?thesis
      proof (cases "map_of (buffers rt) ?sid")
        case None
        then have n: "?sid \<notin> set (dict_keys (buffers rt))" unfolding map_of_None_iff_keys .
        show ?thesis
        proof (cases "rt_max_streams rt \<le> int (length (buffers rt))")
          case True
          with Push Some None assms show ?thesis by (auto simp: router_push_def Let_def)
        next
          case False
          with Push Some None assms have "push_into env p ?sid
              (new_buffer (rt_max_samples rt) (rt_max_age_s rt) ?sid (rt_flush_fields rt)) rt w = (r, rt', w')"
            by (simp add: router_push_def Let_def)
          from push_into_table [OF this] n False show ?thesis by (simp del: list.set_map)
        qed
      next
        case (Some b)
        then have k: "?sid \<in> set (dict_keys (buffers rt))" by (rule map_of_Some_keys)
        from Push Some \<open>rec = Some p\<close> assms have "push_into env p ?sid b rt w = (r, rt', w')"
          by (simp add: router_push_def Let_def)
        from push_into_table [OF this] k show ?thesis by (simp del: list.set_map)
      qed
    qed
  next
    case Age_Poll
    with assms have "visit_all (maybe_flush_on_age env) rt w = (r, rt', w')" by (simp add: router_age_def)
    from visit_all_table [OF this] show ?thesis by simp
  next
    case Flush_All
    with assms have "visit_all (flush env) rt w = (r, rt', w')" by (simp add: flush_all_def)
    from visit_all_table [OF this] show ?thesis by simp
  qed
  then show ?cap ?keys by blast+
qed

interpretation buf_table: bounded_table "\<lambda>(env, rt, w). dict_keys (buffers rt)"
  "\<lambda>(env, rt, w). rt_max_streams rt" "router_exec :: router_op \<Rightarrow> ('f, 'w) env \<times> router \<times> 'w \<Rightarrow> _"
proof unfold_locales
  fix i :: router_op and s :: "('f, 'w) env \<times> router \<times> 'w"
  obtain env rt w where s: "s = (env, rt, w)" by (metis prod_cases3)
  obtain r rt' w' where t: "router_step env i rt w = (r, rt', w')" by (metis prod_cases3)
  have e: "router_exec i (env, rt, w) = (env, rt', w')" by (simp add: t router_exec_def)
  show "(case router_exec i s of (env, rt, w) \<Rightarrow> rt_max_streams rt) = (case s of (env, rt, w) \<Rightarrow> rt_max_streams rt)"
    using router_step_table(1) [OF t] by (simp add: s e)
  show "(case router_exec i s of (env, rt, w) \<Rightarrow> dict_keys (buffers rt)) = (case s of (env, rt, w) \<Rightarrow> dict_keys (buffers rt)) \<or>
    (\<exists>k. k \<notin> set (case s of (env, rt, w) \<Rightarrow> dict_keys (buffers rt)) \<and>
       int (length (case s of (env, rt, w) \<Rightarrow> dict_keys (buffers rt))) < (case s of (env, rt, w) \<Rightarrow> rt_max_streams rt) \<and>
       (case router_exec i s of (env, rt, w) \<Rightarrow> dict_keys (buffers rt)) = (case s of (env, rt, w) \<Rightarrow> dict_keys (buffers rt)) @ [k])"
    unfolding s e prod.case using router_step_table(2) [OF t] .
qed

section \<open>The router as independent buffers\<close>

text \<open>The records of one stream among those pushed.\<close>

definition of_stream :: "int option \<Rightarrow> packet_record option \<Rightarrow> bool" where
  "of_stream k rec = (case rec of None \<Rightarrow> False | Some r \<Rightarrow> md_stream_id (rec_metadata r) = k)"

definition stream_recs :: "int option \<Rightarrow> packet_record option list \<Rightarrow> packet_record option list" where
  "stream_recs k recs = filter (of_stream k) recs"

definition pushed :: "router_op list \<Rightarrow> packet_record option list" where
  "pushed ops = concat (map (\<lambda>op. case op of Push rec \<Rightarrow> [rec] | _ \<Rightarrow> []) ops)"

lemma pushed_simps [simp]:
  "pushed [] = []" "pushed (Push rec # ops) = rec # pushed ops"
  "pushed (Age_Poll # ops) = pushed ops" "pushed (Flush_All # ops) = pushed ops"
  by (simp_all add: pushed_def)

lemma stream_recs_simps [simp]:
  "stream_recs k [] = []" "stream_recs k (xs @ ys) = stream_recs k xs @ stream_recs k ys"
  "stream_recs k [rec] = (if of_stream k rec then [rec] else [])"
  by (simp_all add: stream_recs_def)

lemma arrivals_append:
  "arrivals env fs c (xs @ ys) = arrivals env fs c xs @ arrivals env fs (fold next_context xs c) ys"
  by (induction xs arbitrary: c) simp_all

definition units_of :: "int option \<Rightarrow> 'f unit_rec list \<Rightarrow> 'f unit_rec list" where
  "units_of k us = filter (\<lambda>u. u_stream_id u = k) us"

definition router_inv ::
  "('f, 'w) env \<Rightarrow> (pyval \<Rightarrow> bytes \<Rightarrow> 'f) \<Rightarrow> router \<Rightarrow> 'f unit_rec list \<Rightarrow> packet_record option list \<Rightarrow> bool" where
  "router_inv env item rt us ps \<longleftrightarrow>
     distinct (dict_keys (buffers rt)) \<and>
     (\<forall>k b. map_of (buffers rt) k = Some b \<longrightarrow>
        config b = (rt_max_samples rt, rt_max_age_s rt, k, rt_flush_fields rt) \<and>
        current_context b = fold next_context (stream_recs k ps) None \<and>
        win_inv env item b (units_of k us) (arrivals env (rt_flush_fields rt) None (stream_recs k ps))) \<and>
     (\<forall>k. map_of (buffers rt) k = None \<longrightarrow> units_of k us = [] \<and>
        (stream_recs k ps \<noteq> [] \<longrightarrow> rt_max_streams rt \<le> int (length (buffers rt))))"

definition settings :: "router \<Rightarrow> int \<times> rat \<times> string list \<times> int" where
  "settings rt = (rt_max_samples rt, rt_max_age_s rt, rt_flush_fields rt, rt_max_streams rt)"

lemma new_router_inv: "router_inv env item (new_router n age fs m) [] []"
  by (simp add: router_inv_def new_router_def units_of_def)

text \<open>
  What survives an exception of the callback: every buffer still splits the records it has taken
  (\<open>arr\<close>) into its windows sent and its open one, and what each stream has taken is a prefix of what
  was accepted on it.
\<close>

definition router_wins ::
  "('f, 'w) env \<Rightarrow> (pyval \<Rightarrow> bytes \<Rightarrow> 'f) \<Rightarrow> router \<Rightarrow> 'f unit_rec list \<Rightarrow> (int option \<Rightarrow> arrival list) \<Rightarrow> bool" where
  "router_wins env item rt us arr \<longleftrightarrow>
     distinct (dict_keys (buffers rt)) \<and>
     (\<forall>k b. map_of (buffers rt) k = Some b \<longrightarrow>
        config b = (rt_max_samples rt, rt_max_age_s rt, k, rt_flush_fields rt) \<and>
        win_inv env item b (units_of k us) (arr k)) \<and>
     (\<forall>k. map_of (buffers rt) k = None \<longrightarrow> units_of k us = [])"

definition router_cut ::
  "('f, 'w) env \<Rightarrow> (pyval \<Rightarrow> bytes \<Rightarrow> 'f) \<Rightarrow> router \<Rightarrow> 'f unit_rec list \<Rightarrow> packet_record option list \<Rightarrow> bool" where
  "router_cut env item rt us ps \<longleftrightarrow> (\<exists>arr. router_wins env item rt us arr \<and>
     (\<forall>k. prefix (arr k) (arrivals env (rt_flush_fields rt) None (stream_recs k ps))))"

lemma router_inv_wins:
  "router_inv env item rt us ps \<Longrightarrow>
     router_wins env item rt us (\<lambda>k. arrivals env (rt_flush_fields rt) None (stream_recs k ps))"
  by (simp add: router_inv_def router_wins_def)

lemma router_inv_cut: "router_inv env item rt us ps \<Longrightarrow> router_cut env item rt us ps"
  unfolding router_cut_def using router_inv_wins by blast

definition router_reaches ::
  "('f, 'w) env \<Rightarrow> (pyval \<Rightarrow> bytes \<Rightarrow> 'f) \<Rightarrow> ('w \<Rightarrow> 'f unit_rec list) \<Rightarrow> 'f unit_rec list \<Rightarrow>
     packet_record option list \<Rightarrow> router \<Rightarrow> 'w \<Rightarrow> (router, 'w) outcome \<Rightarrow> bool" where
  "router_reaches env item sent us ps rt w out \<longleftrightarrow>
     (\<exists>e rt' w' news. out = (e, rt', w') \<and> settings rt' = settings rt \<and> sent w' = sent w @ news \<and>
        (case e of None \<Rightarrow> router_inv env item rt' (us @ news) ps
         | Some x \<Rightarrow> raised_on env news x \<and> router_cut env item rt' (us @ news) ps))"

lemma router_reachesI:
  "out = (e, rt', w') \<Longrightarrow> settings rt' = settings rt \<Longrightarrow> sent w' = sent w @ news \<Longrightarrow>
     (e = None \<Longrightarrow> router_inv env item rt' (us @ news) ps) \<Longrightarrow>
     (\<And>x. e = Some x \<Longrightarrow> raised_on env news x \<and> router_cut env item rt' (us @ news) ps) \<Longrightarrow>
     router_reaches env item sent us ps rt w out"
  unfolding router_reaches_def by (cases e) auto

text \<open>Under a callback that does not raise there is only the first case.\<close>

lemma router_reaches_total:
  assumes "env_ok env item sent" "router_reaches env item sent us ps rt w out"
  shows "\<exists>rt' w' news. out = (None, rt', w') \<and> settings rt' = settings rt \<and> sent w' = sent w @ news \<and>
    router_inv env item rt' (us @ news) ps"
  using assms(2) env_ok_silent [OF assms(1)] unfolding router_reaches_def by (auto split: option.splits)

text \<open>One record into the buffer of its stream, present or just created.\<close>

lemma push_into_wins:
  assumes env: "env_logs env item sent" and typed: "record_typed r"
    and wins: "router_wins env item rt us arr"
    and b: "config b = (rt_max_samples rt, rt_max_age_s rt, sid, rt_flush_fields rt)"
      "win_inv env item b (units_of sid us) (arr sid)"
  shows "\<exists>e b' w' news taken. push env (Some r) b w = (e, b', w') \<and> config b' = config b \<and>
    sent w' = sent w @ news \<and> (\<forall>k. k \<noteq> sid \<longrightarrow> units_of k (us @ news) = units_of k us) \<and>
    win_inv env item b' (units_of sid (us @ news)) (arr sid @ taken) \<and>
    router_wins env item (rt\<lparr>buffers := dict_set sid b' (buffers rt)\<rparr>) (us @ news) (arr(sid := arr sid @ taken)) \<and>
    (case e of None \<Rightarrow> taken = arrival_of env (rt_flush_fields rt) (current_context b) (Some r)
     | Some x \<Rightarrow> prefix taken (arrival_of env (rt_flush_fields rt) (current_context b) (Some r)) \<and> raised_on env news x)"
proof -
  have ff: "flush_fields b = rt_flush_fields rt" "buf_stream_id b = sid" using b(1) by (simp_all add: config_def)
  from push_advances [OF env b(2), of "Some r" w] typed obtain e b' w' news taken where
    o: "push env (Some r) b w = (e, b', w')" "config b' = config b" "sent w' = sent w @ news"
      "\<forall>u \<in> set news. u_stream_id u = sid"
      "win_inv env item b' (units_of sid us @ news) (arr sid @ taken)"
      "case e of None \<Rightarrow> taken = arrival_of env (rt_flush_fields rt) (current_context b) (Some r)
       | Some x \<Rightarrow> prefix taken (arrival_of env (rt_flush_fields rt) (current_context b) (Some r)) \<and> raised_on env news x"
    unfolding advances_def ff by auto
  have un: "units_of k (us @ news) = (if k = sid then units_of sid us @ news else units_of k us)" for k
    using o(4) by (auto simp: units_of_def filter_empty_conv filter_id_conv)
  have "router_wins env item (rt\<lparr>buffers := dict_set sid b' (buffers rt)\<rparr>) (us @ news) (arr(sid := arr sid @ taken))"
    unfolding router_wins_def
  proof (intro conjI allI impI)
    show "distinct (dict_keys (buffers (rt\<lparr>buffers := dict_set sid b' (buffers rt)\<rparr>)))"
      using wins distinct_dict_set [of "buffers rt" sid b'] by (simp add: router_wins_def)
  qed (use o(2,5) b(1) un wins in \<open>auto simp: router_wins_def split: if_splits\<close>)
  with o un show ?thesis
    by (intro exI [of _ e] exI [of _ b'] exI [of _ w'] exI [of _ news] exI [of _ taken]) simp
qed

lemma push_into_reaches:
  assumes env: "env_logs env item sent" and typed: "record_typed r" and sid: "md_stream_id (rec_metadata r) = sid"
    and inv: "router_inv env item rt us ps"
    and b: "config b = (rt_max_samples rt, rt_max_age_s rt, sid, rt_flush_fields rt)"
      "current_context b = fold next_context (stream_recs sid ps) None"
      "win_inv env item b (units_of sid us) (arrivals env (rt_flush_fields rt) None (stream_recs sid ps))"
  shows "router_reaches env item sent us (ps @ [Some r]) rt w (push_into env r sid b rt w)"
proof -
  let ?fs = "rt_flush_fields rt" and ?arr = "\<lambda>k. arrivals env (rt_flush_fields rt) None (stream_recs k ps)"
  from push_into_wins [OF env typed router_inv_wins [OF inv] b(1,3), of w] obtain e b' w' news taken where
    o: "push env (Some r) b w = (e, b', w')" "config b' = config b" "sent w' = sent w @ news"
      "\<forall>k. k \<noteq> sid \<longrightarrow> units_of k (us @ news) = units_of k us"
      "win_inv env item b' (units_of sid (us @ news)) (?arr sid @ taken)"
      "router_wins env item (rt\<lparr>buffers := dict_set sid b' (buffers rt)\<rparr>) (us @ news) (?arr(sid := ?arr sid @ taken))"
      "case e of None \<Rightarrow> taken = arrival_of env ?fs (current_context b) (Some r)
       | Some x \<Rightarrow> prefix taken (arrival_of env ?fs (current_context b) (Some r)) \<and> raised_on env news x"
    by blast
  let ?rt = "rt\<lparr>buffers := dict_set sid b' (buffers rt)\<rparr>"
  have os: "of_stream k (Some r) \<longleftrightarrow> k = sid" for k using sid by (auto simp: of_stream_def)
  have arr: "arrivals env ?fs None (stream_recs k (ps @ [Some r])) = (if k = sid then ?arr sid @
      arrival_of env ?fs (current_context b) (Some r) else ?arr k)" for k
    by (simp add: os arrivals_append b(2))
  show ?thesis
  proof (rule router_reachesI)
    show "push_into env r sid b rt w = (e, ?rt, w')" using o(1) by (simp add: push_into_def)
    show "settings ?rt = settings rt" by (simp add: settings_def)
    show "sent w' = sent w @ news" by (rule o(3))
  next
    fix x assume x: "e = Some x"
    have "router_cut env item ?rt (us @ news) (ps @ [Some r])"
      unfolding router_cut_def
      by (intro exI [of _ "?arr(sid := ?arr sid @ taken)"]) (use o(6,7) x arr in simp)
    with o(7) x show "raised_on env news x \<and> router_cut env item ?rt (us @ news) (ps @ [Some r])" by simp
  next
    assume none: "e = None"
    with o(7) have t: "taken = arrival_of env ?fs (current_context b) (Some r)" by simp
    note ctx = push_current [OF o(1) [unfolded none]]
    show "router_inv env item ?rt (us @ news) (ps @ [Some r])"
      unfolding router_inv_def
    proof (intro conjI allI impI)
      show "distinct (dict_keys (buffers ?rt))" using o(6) by (simp add: router_wins_def)
      fix k c assume k: "map_of (buffers ?rt) k = Some c"
      show "config c = (rt_max_samples ?rt, rt_max_age_s ?rt, k, rt_flush_fields ?rt)"
        using o(6) k by (simp add: router_wins_def)
      show "current_context c = fold next_context (stream_recs k (ps @ [Some r])) None"
        using k inv b(2) ctx by (auto simp: os router_inv_def split: if_splits)
      have "win_inv env item c (units_of k (us @ news)) ((?arr(sid := ?arr sid @ taken)) k)"
        using o(6) k unfolding router_wins_def by blast
      then show "win_inv env item c (units_of k (us @ news))
          (arrivals env (rt_flush_fields ?rt) None (stream_recs k (ps @ [Some r])))"
        using arr t by (simp split: if_splits)
    next
      fix k assume k: "map_of (buffers ?rt) k = None"
      then show "units_of k (us @ news) = []" using o(6) by (simp add: router_wins_def)
      assume "stream_recs k (ps @ [Some r]) \<noteq> []"
      with k inv have "rt_max_streams rt \<le> int (length (buffers rt))" by (auto simp: os router_inv_def split: if_splits)
      then show "rt_max_streams ?rt \<le> int (length (buffers ?rt))" by (simp add: length_dict_set)
    qed
  qed
qed

lemma router_push_reaches:
  assumes env: "env_logs env item sent" and typed: "\<forall>r. rec = Some r \<longrightarrow> record_typed r"
    and inv: "router_inv env item rt us ps"
  shows "router_reaches env item sent us (ps @ [rec]) rt w (router_push env rec rt w)"
proof (cases rec)
  case None
  with inv show ?thesis
    by (intro router_reachesI [where e = None and rt' = rt and w' = w and news = "[]"])
      (simp_all add: router_push_def router_inv_def of_stream_def)
next
  case (Some r)
  let ?sid = "md_stream_id (rec_metadata r)"
  have tr: "record_typed r" using typed Some by simp
  show ?thesis
  proof (cases "map_of (buffers rt) ?sid")
    case b: (Some b)
    with inv have "config b = (rt_max_samples rt, rt_max_age_s rt, ?sid, rt_flush_fields rt)"
      "current_context b = fold next_context (stream_recs ?sid ps) None"
      "win_inv env item b (units_of ?sid us) (arrivals env (rt_flush_fields rt) None (stream_recs ?sid ps))"
      unfolding router_inv_def by blast+
    from push_into_reaches [OF env tr refl inv this, of w] b Some show ?thesis
      by (simp add: router_push_def Let_def)
  next
    case None
    show ?thesis
    proof (cases "rt_max_streams rt \<le> int (length (buffers rt))")
      case True
      let ?rt = "rt\<lparr>rt_dropped := rt_dropped rt + 1, rt_log := logged ''stream-flood'' (rt_log rt)\<rparr>"
      have "of_stream k rec \<Longrightarrow> k = ?sid" for k using Some by (simp add: of_stream_def)
      with inv None True have "router_inv env item ?rt us (ps @ [rec])"
        unfolding router_inv_def by auto
      with Some None True show ?thesis
        by (intro router_reachesI [where e = None and rt' = ?rt and w' = w and news = "[]"])
          (simp_all add: router_push_def Let_def settings_def)
    next
      case False
      let ?b = "new_buffer (rt_max_samples rt) (rt_max_age_s rt) ?sid (rt_flush_fields rt)"
      from inv None False have "units_of ?sid us = []" "stream_recs ?sid ps = []"
        unfolding router_inv_def by blast+
      then have "config ?b = (rt_max_samples rt, rt_max_age_s rt, ?sid, rt_flush_fields rt)"
        "current_context ?b = fold next_context (stream_recs ?sid ps) None"
        "win_inv env item ?b (units_of ?sid us) (arrivals env (rt_flush_fields rt) None (stream_recs ?sid ps))"
        by (simp_all add: new_buffer_inv) (simp_all add: new_buffer_def config_def)
      from push_into_reaches [OF env tr refl inv this, of w] Some None False show ?thesis
        by (simp add: router_push_def Let_def)
    qed
  qed
qed

lemma router_push_inv:
  assumes env: "env_ok env item sent" and typed: "\<forall>r. rec = Some r \<longrightarrow> record_typed r"
    and inv: "router_inv env item rt us ps"
  shows "\<exists>rt' w' news. router_push env rec rt w = (None, rt', w') \<and> settings rt' = settings rt \<and>
    sent w' = sent w @ news \<and> router_inv env item rt' (us @ news) (ps @ [rec])"
  using router_reaches_total [OF env router_push_reaches [OF env_okD [OF env] typed inv]] .

section \<open>Visiting every buffer\<close>

context stream_op begin

lemma visit_all_wins:
  assumes env: "env_logs env item sent" and wins: "router_wins env item rt us arr"
  shows "\<exists>e rt' w' news. visit_all (op env) rt w = (e, rt', w') \<and> settings rt' = settings rt \<and>
    sent w' = sent w @ news \<and> router_wins env item rt' (us @ news) arr \<and>
    dict_keys (buffers rt') = dict_keys (buffers rt) \<and>
    (\<forall>k c. map_of (buffers rt') k = Some c \<longrightarrow>
       (\<exists>b. map_of (buffers rt) k = Some b \<and> current_context c = current_context b)) \<and>
    (\<forall>x. e = Some x \<longrightarrow> raised_on env news x)"
proof -
  have dist: "distinct (dict_keys (buffers rt))" using wins by (simp add: router_wins_def)
  have each: "config b = (rt_max_samples rt, rt_max_age_s rt, k, rt_flush_fields rt) \<and>
      win_inv env item b (units_of k us) (arr k)"
    if "map_of (buffers rt) k = Some b" for k b
    using wins that unfolding router_wins_def by blast
  have "\<forall>(k, b) \<in> set (buffers rt). buf_stream_id b = k"
    "\<forall>(k, b) \<in> set (buffers rt). win_inv env item b (filter (\<lambda>u. u_stream_id u = k) us) (arr k)"
    using each map_of_is_SomeI [OF dist] by (auto simp: config_def units_of_def)
  from visit [OF env dist this, of w] obtain e bs' w' news where v:
    "for_each (op env) (buffers rt) w = (e, bs', w')" "sent w' = sent w @ news"
    "dict_keys bs' = dict_keys (buffers rt)" "\<forall>u \<in> set news. u_stream_id u \<in> set (dict_keys (buffers rt))"
    "\<forall>k b'. map_of bs' k = Some b' \<longrightarrow> (\<exists>b. map_of (buffers rt) k = Some b \<and> config b' = config b \<and>
       context_state b' = context_state b)"
    "\<forall>(k, b) \<in> set bs'. win_inv env item b (filter (\<lambda>u. u_stream_id u = k) (us @ news)) (arr k)"
    "\<forall>x. e = Some x \<longrightarrow> raised_on env news x"
    by blast
  let ?rt = "rt\<lparr>buffers := bs'\<rparr>"
  have none: "map_of bs' k = None \<longleftrightarrow> map_of (buffers rt) k = None" for k
    unfolding map_of_None_iff_keys v(3) ..
  have "router_wins env item ?rt (us @ news) arr"
    unfolding router_wins_def
  proof (intro conjI allI impI)
    show "distinct (dict_keys (buffers ?rt))" using dist v(3) by simp
    fix k c assume "map_of (buffers ?rt) k = Some c"
    then have c: "map_of bs' k = Some c" by simp
    with v(5) each show "config c = (rt_max_samples ?rt, rt_max_age_s ?rt, k, rt_flush_fields ?rt)" by fastforce
    show "win_inv env item c (units_of k (us @ news)) (arr k)"
      using v(6) map_of_SomeD [OF c] by (auto simp: units_of_def)
  next
    fix k assume "map_of (buffers ?rt) k = None"
    then have k: "map_of (buffers rt) k = None" using none by simp
    then have "k \<notin> set (dict_keys (buffers rt))" unfolding map_of_None_iff_keys .
    with v(4) have "units_of k news = []" by (auto simp: units_of_def filter_empty_conv)
    with k wins show "units_of k (us @ news) = []" by (simp add: router_wins_def units_of_def)
  qed
  moreover have "\<exists>b. map_of (buffers rt) k = Some b \<and> current_context c = current_context b"
    if "map_of bs' k = Some c" for k c
    using v(5) [rule_format, OF that] by (auto simp: context_state_def)
  ultimately show ?thesis
    using v(1,2,3,7)
    by (intro exI [of _ e] exI [of _ ?rt] exI [of _ w'] exI [of _ news]) (simp add: visit_all_def settings_def)
qed

lemma visit_all_cut:
  assumes env: "env_logs env item sent" and cut: "router_cut env item rt us ps"
  shows "\<exists>e rt' w' news. visit_all (op env) rt w = (e, rt', w') \<and> settings rt' = settings rt \<and>
    sent w' = sent w @ news \<and> router_cut env item rt' (us @ news) ps \<and> (\<forall>x. e = Some x \<longrightarrow> raised_on env news x)"
proof -
  from cut obtain arr where a: "router_wins env item rt us arr"
    "\<forall>k. prefix (arr k) (arrivals env (rt_flush_fields rt) None (stream_recs k ps))"
    unfolding router_cut_def by blast
  from visit_all_wins [OF env a(1), of w] obtain e rt' w' news where v:
    "visit_all (op env) rt w = (e, rt', w')" "settings rt' = settings rt" "sent w' = sent w @ news"
    "router_wins env item rt' (us @ news) arr" "\<forall>x. e = Some x \<longrightarrow> raised_on env news x" by blast
  have "rt_flush_fields rt' = rt_flush_fields rt" using v(2) by (simp add: settings_def)
  with v a(2) show ?thesis unfolding router_cut_def by metis
qed

lemma visit_all_keeps:
  assumes env: "env_logs env item sent" and inv: "router_inv env item rt us ps"
  shows "\<exists>e rt' w' news. visit_all (op env) rt w = (e, rt', w') \<and> settings rt' = settings rt \<and>
    sent w' = sent w @ news \<and> router_inv env item rt' (us @ news) ps \<and> (\<forall>x. e = Some x \<longrightarrow> raised_on env news x)"
proof -
  from visit_all_wins [OF env router_inv_wins [OF inv], of w] obtain e rt' w' news where v:
    "visit_all (op env) rt w = (e, rt', w')" "settings rt' = settings rt" "sent w' = sent w @ news"
    "router_wins env item rt' (us @ news) (\<lambda>k. arrivals env (rt_flush_fields rt) None (stream_recs k ps))"
    "dict_keys (buffers rt') = dict_keys (buffers rt)"
    "\<forall>k c. map_of (buffers rt') k = Some c \<longrightarrow>
       (\<exists>b. map_of (buffers rt) k = Some b \<and> current_context c = current_context b)"
    "\<forall>x. e = Some x \<longrightarrow> raised_on env news x" by blast
  have none: "map_of (buffers rt') k = None \<longleftrightarrow> map_of (buffers rt) k = None" for k
    unfolding map_of_None_iff_keys v(5) ..
  have len: "length (buffers rt') = length (buffers rt)" using arg_cong [OF v(5), of length] by simp
  have "\<forall>k b. map_of (buffers rt) k = Some b \<longrightarrow> current_context b = fold next_context (stream_recs k ps) None"
    "\<forall>k. map_of (buffers rt) k = None \<longrightarrow> stream_recs k ps \<noteq> [] \<longrightarrow> rt_max_streams rt \<le> int (length (buffers rt))"
    using inv by (auto simp: router_inv_def)
  with v(2,4,6) none len have "router_inv env item rt' (us @ news) ps"
    unfolding router_inv_def router_wins_def by (simp add: settings_def) metis
  with v show ?thesis by blast
qed

lemma visit_all_reaches:
  assumes "env_logs env item sent" "router_inv env item rt us ps"
  shows "router_reaches env item sent us ps rt w (visit_all (op env) rt w)"
  using visit_all_keeps [OF assms, of w] router_inv_cut
  by (elim exE conjE, intro router_reachesI) auto

lemma visit_all_inv:
  assumes env: "env_ok env item sent" and inv: "router_inv env item rt us ps"
  shows "\<exists>rt' w' news. visit_all (op env) rt w = (None, rt', w') \<and> settings rt' = settings rt \<and>
    sent w' = sent w @ news \<and> router_inv env item rt' (us @ news) ps"
  using router_reaches_total [OF env visit_all_reaches [OF env_okD [OF env] inv]] .

end

lemma for_each_flush_empties:
  assumes "for_each (flush env) bs w = (None, bs', w')" "(k, b) \<in> set bs'"
  shows "chunks b = []"
proof -
  have fl: "chunks b1 = []" if "flush env b0 w0 = (None, b1, w1)" for b0 w0 b1 w1
    using that by (auto simp: flush_def split: if_splits sum.splits prod.splits)
  show ?thesis
    using assms
  proof (induction bs arbitrary: w bs')
    case (Cons kb bs)
    then show ?case
      by (cases kb) (auto split: prod.splits option.splits dest: fl)
  qed simp
qed

lemma router_step_inv:
  assumes env: "env_ok env item sent" and inv: "router_inv env item rt us ps"
    and typed: "\<forall>r. op = Push (Some r) \<longrightarrow> record_typed r"
  shows "\<exists>rt' w' news. router_step env op rt w = (None, rt', w') \<and> settings rt' = settings rt \<and>
    sent w' = sent w @ news \<and> router_inv env item rt' (us @ news) (ps @ pushed [op])"
proof (cases op)
  case (Push rec)
  with typed router_push_inv [OF env _ inv, of rec w] show ?thesis by simp
next
  case Age_Poll
  with age_op.visit_all_inv [OF env inv, of w] show ?thesis by (simp add: router_age_def)
next
  case Flush_All
  with flush_op.visit_all_inv [OF env inv, of w] show ?thesis by (simp add: flush_all_def)
qed

lemma pushed_Cons: "pushed (op # ops) = pushed [op] @ pushed ops"
  by (simp add: pushed_def)

lemma router_run_inv:
  assumes env: "env_ok env item sent" and inv: "router_inv env item rt us ps"
    and typed: "\<forall>r. Push (Some r) \<in> set ops \<longrightarrow> record_typed r"
  shows "\<exists>rt' w' news. router_run env ops rt w = (None, rt', w') \<and> settings rt' = settings rt \<and>
    sent w' = sent w @ news \<and> router_inv env item rt' (us @ news) (ps @ pushed ops)"
  using inv typed
proof (induction ops arbitrary: rt w us ps)
  case Nil
  then show ?case by (intro exI [of _ rt] exI [of _ w] exI [of _ "[]"]) simp
next
  case (Cons op ops)
  from router_step_inv [OF env Cons.prems(1), of op w] Cons.prems(2) obtain rt1 w1 n1 where s:
    "router_step env op rt w = (None, rt1, w1)" "settings rt1 = settings rt" "sent w1 = sent w @ n1"
    "router_inv env item rt1 (us @ n1) (ps @ pushed [op])" by auto
  from Cons.IH [OF s(4), of w1] Cons.prems(2) obtain rt2 w2 n2 where r:
    "router_run env ops rt1 w1 = (None, rt2, w2)" "settings rt2 = settings rt1" "sent w2 = sent w1 @ n2"
    "router_inv env item rt2 ((us @ n1) @ n2) ((ps @ pushed [op]) @ pushed ops)" by auto
  show ?case
    using s r unfolding pushed_Cons [of op ops]
    by (intro exI [of _ rt2] exI [of _ w2] exI [of _ "n1 @ n2"]) simp
qed

text \<open>The samples of a stream's units are those of its windows.\<close>

lemma windows_items:
  "list_all2 (unit_ok env item fs) ws us \<Longrightarrow>
     concat (map (\<lambda>u. samples_items (u_samples u)) us) = concat (map (\<lambda>(l, r). rec_items item r) (concat ws))"
  by (induction rule: list_all2_induct) (simp_all add: unit_ok_def)

section \<open>Theorems\<close>

text \<open>C5: the router's central promise. For any sequence of records, age polls and flushes nothing
  raises, and for every stream that has a buffer the units emitted under its id, in order, are
  exactly the windows of a partition of the records accepted on that stream (as if it were alone),
  followed by the window its buffer still holds: no sample is lost, duplicated, reordered, moved to
  another stream, merged across a counter gap, or labelled with a context or an interpretation
  other than the one in effect when it arrived. A stream without a buffer emits nothing.\<close>

theorem router_windows:
  assumes env: "env_ok env item sent"
    and typed: "\<forall>r. Push (Some r) \<in> set ops \<longrightarrow> record_typed r"
    and run: "router_run env ops (new_router n age fs m) w = (r, rt, w')"
  shows "r = None \<and> (\<exists>news. sent w' = sent w @ news \<and>
    (\<forall>k. case map_of (buffers rt) k of
       None \<Rightarrow> units_of k news = []
     | Some b \<Rightarrow> (\<exists>ws os. list_all2 (unit_ok env item fs) ws (units_of k news) \<and> open_ok env os b \<and>
         concat ws @ os = arrivals env fs None (stream_recs k (pushed ops)))))"
proof -
  from router_run_inv [OF env new_router_inv typed, of n age fs m w] run obtain news where
    r: "r = None" "settings rt = settings (new_router n age fs m)" "sent w' = sent w @ news"
      "router_inv env item rt news (pushed ops)" by auto
  have fs: "rt_flush_fields rt = fs" using r(2) by (simp add: settings_def new_router_def)
  have "case map_of (buffers rt) k of
       None \<Rightarrow> units_of k news = []
     | Some b \<Rightarrow> (\<exists>ws os. list_all2 (unit_ok env item fs) ws (units_of k news) \<and> open_ok env os b \<and>
         concat ws @ os = arrivals env fs None (stream_recs k (pushed ops)))" for k
  proof (cases "map_of (buffers rt) k")
    case None
    with r(4) show ?thesis by (simp add: router_inv_def)
  next
    case (Some b)
    with r(4) have "config b = (rt_max_samples rt, rt_max_age_s rt, k, rt_flush_fields rt)"
      "win_inv env item b (units_of k news) (arrivals env (rt_flush_fields rt) None (stream_recs k (pushed ops)))"
      unfolding router_inv_def by blast+
    then obtain ws os where "list_all2 (unit_ok env item fs) ws (units_of k news)" "open_ok env os b"
      "concat ws @ os = arrivals env fs None (stream_recs k (pushed ops))"
      unfolding win_inv_def by (auto simp: config_def fs)
    with Some show ?thesis by auto
  qed
  with r(1,3) show ?thesis by blast
qed

text \<open>The final flush drains everything. After it every buffer is empty, and the units of every
  stream that was admitted carry all of its accepted samples, in order.\<close>

theorem router_flush_drains:
  assumes env: "env_ok env item sent"
    and typed: "\<forall>r. Push (Some r) \<in> set ops \<longrightarrow> record_typed r"
    and run: "router_run env (ops @ [Flush_All]) (new_router n age fs m) w = (r, rt, w')"
  shows "r = None \<and> (\<exists>news. sent w' = sent w @ news \<and> (\<forall>k b. map_of (buffers rt) k = Some b \<longrightarrow>
    chunks b = [] \<and> num_samples b = 0 \<and>
    concat (map (\<lambda>u. samples_items (u_samples u)) (units_of k news))
      = concat (map (\<lambda>(l, r). rec_items item r) (arrivals env fs None (stream_recs k (pushed ops))))))"
proof -
  from router_run_inv [OF env new_router_inv typed, of n age fs m w] obtain rt1 w1 n1 where
    r1: "router_run env ops (new_router n age fs m) w = (None, rt1, w1)"
      "settings rt1 = settings (new_router n age fs m)" "sent w1 = sent w @ n1"
      "router_inv env item rt1 n1 (pushed ops)" by auto
  from flush_op.visit_all_inv [OF env r1(4), of w1] obtain rt2 w2 n2 where
    r2: "visit_all (flush env) rt1 w1 = (None, rt2, w2)" "settings rt2 = settings rt1"
      "sent w2 = sent w1 @ n2" "router_inv env item rt2 (n1 @ n2) (pushed ops)" by blast
  have app: "router_run env (xs @ ys) q v = and_then (router_run env xs q v) (router_run env ys)" for xs ys q v
    by (induction xs arbitrary: q v) (auto simp: and_then_def split: prod.splits option.splits)
  have res: "r = None" "rt = rt2" "w' = w2"
    using run r2(1) by (simp_all add: app r1(1) flush_all_def)
  have fs: "rt_flush_fields rt2 = fs" using r1(2) r2(2) by (simp add: settings_def new_router_def)
  have "chunks b = [] \<and> num_samples b = 0 \<and>
    concat (map (\<lambda>u. samples_items (u_samples u)) (units_of k (n1 @ n2)))
      = concat (map (\<lambda>(l, r). rec_items item r) (arrivals env fs None (stream_recs k (pushed ops))))"
    if k: "map_of (buffers rt2) k = Some b" for k b
  proof -
    obtain bs' where "for_each (flush env) (buffers rt1) w1 = (None, bs', w2)" "buffers rt2 = bs'"
      using r2(1) by (auto simp: visit_all_def split: prod.splits)
    with map_of_SomeD [OF k] have ch: "chunks b = []" by (auto intro: for_each_flush_empties)
    from r2(4) k have "config b = (rt_max_samples rt2, rt_max_age_s rt2, k, rt_flush_fields rt2)"
      "win_inv env item b (units_of k (n1 @ n2)) (arrivals env (rt_flush_fields rt2) None (stream_recs k (pushed ops)))"
      unfolding router_inv_def by blast+
    then obtain ws os where w: "list_all2 (unit_ok env item fs) ws (units_of k (n1 @ n2))" "open_ok env os b"
      "arrivals env fs None (stream_recs k (pushed ops)) = concat ws @ os"
      unfolding win_inv_def by (auto simp: config_def fs)
    with ch have os: "os = []" "num_samples b = 0" by (auto simp: open_ok_def)
    from windows_items [OF w(1)] show ?thesis using ch os w(3) by simp
  qed
  with res r1(3) r2(3) show ?thesis by (intro conjI exI [of _ "n1 @ n2"]) auto
qed

lemma for_each_failure:
  assumes "for_each (flush env) bs w = (Some e, bs', w')"
  shows "\<exists>pre k b post pre' b'. bs = pre @ (k, b) # post \<and> bs' = pre' @ (k, b') # post \<and>
    dict_keys pre' = dict_keys pre \<and> (\<forall>(j, c) \<in> set pre'. chunks c = []) \<and>
    (chunks b' = [] \<or> b' = b \<and> convert_window env b = Inl e)"
  using assms
proof (induction bs arbitrary: w bs')
  case (Cons kb bs)
  obtain k b where kb: "kb = (k, b)" by force
  obtain r b1 w1 where f: "flush env b w = (r, b1, w1)" by (metis prod_cases3)
  show ?case
  proof (cases r)
    case (Some x)
    with f have "chunks b1 = [] \<or> b1 = b \<and> convert_window env b = Inl x"
      by (auto simp: flush_def split: if_splits sum.splits prod.splits)
    with Cons.prems f Some kb show ?thesis
      by (intro exI [of _ "[]"] exI [of _ k] exI [of _ b] exI [of _ bs] exI [of _ b1]) auto
  next
    case None
    with f have e1: "chunks b1 = []" by (auto simp: flush_def split: if_splits sum.splits prod.splits)
    obtain bs1 where r: "for_each (flush env) bs w1 = (Some e, bs1, w')" "bs' = (k, b1) # bs1"
      using Cons.prems f None kb by (auto split: prod.splits)
    from Cons.IH [OF r(1)] obtain pre j c post pre' c' where ih: "bs = pre @ (j, c) # post" "bs1 = pre' @ (j, c') # post"
      "dict_keys pre' = dict_keys pre" "\<forall>(i, d) \<in> set pre'. chunks d = []"
      "chunks c' = [] \<or> c' = c \<and> convert_window env c = Inl e" by blast
    then show ?thesis
      unfolding kb r(2)
      by (intro exI [of _ "(k, b) # pre"] exI [of _ j] exI [of _ c] exI [of _ post] exI [of _ "(k, b1) # pre'"] exI [of _ c'])
        (simp add: e1)
  qed
qed simp

text \<open>C31: the final flush stops at the first failure. When \<open>flush_all\<close> lets an exception through, the
  streams before the failing one are drained and the failing one is too, unless its conversion
  failed; the streams after it are left exactly as they were, their open windows never offered.\<close>

theorem flush_all_stops_at_failure:
  assumes "flush_all env rt w = (Some e, rt', w')"
  shows "\<exists>pre k b post pre' b'. buffers rt = pre @ (k, b) # post \<and> buffers rt' = pre' @ (k, b') # post \<and>
    dict_keys pre' = dict_keys pre \<and> (\<forall>(j, c) \<in> set pre'. chunks c = []) \<and>
    (chunks b' = [] \<or> b' = b \<and> convert_window env b = Inl e)"
proof -
  have "for_each (flush env) (buffers rt) w = (Some e, buffers rt', w')"
    using assms by (auto simp: flush_all_def visit_all_def split: prod.splits)
  then show ?thesis by (rule for_each_failure)
qed

text \<open>C32: flood protection of the router, whatever numpy, the clock and the callback do (raising
  included): at most \<open>max_streams\<close> buffers, one per stream, and a stream once admitted keeps its
  buffer.\<close>

theorem router_flood_bound:
  assumes "fold router_exec ops (env, new_router n age fs m, w) = (env', rt, w1)"
    and "fold router_exec later (env', rt, w1) = (env'', rt', w2)"
  shows "distinct (dict_keys (buffers rt)) \<and> int (length (buffers rt)) \<le> max 0 m \<and>
    (\<exists>new. dict_keys (buffers rt') = dict_keys (buffers rt) @ new)"
proof -
  have e: "fold router_exec (ops @ later) (env, new_router n age fs m, w) = (env'', rt', w2)"
    using assms by simp
  have "dict_keys (buffers (new_router n age fs m)) = []" "rt_max_streams (new_router n age fs m) = m"
    by (simp_all add: new_router_def)
  with buf_table.run_from_empty [of "(env, new_router n age fs m, w)" ops later]
  show ?thesis unfolding e assms(1) prod.case by simp
qed

text \<open>C29: bounded memory. Whatever is pushed, the open window of every buffer stays below
  \<open>max_samples\<close> samples, and the bytes it holds are exactly that many samples of its sample size.\<close>

theorem open_window_bounded:
  assumes env: "env_ok env item sent"
    and typed: "\<forall>r. Push (Some r) \<in> set ops \<longrightarrow> record_typed r"
    and run: "router_run env ops (new_router n age fs m) w = (r, rt, w')"
    and b: "map_of (buffers rt) k = Some b" "chunks b \<noteq> []"
  shows "num_samples b < n \<and>
    (\<exists>bps. bytes_per_sample b = Some bps \<and> int (length (concat (chunks b))) = num_samples b * bps)"
proof -
  from router_run_inv [OF env new_router_inv typed, of n age fs m w] run obtain news where
    r: "settings rt = settings (new_router n age fs m)" "router_inv env item rt news (pushed ops)" by auto
  from r(2) b(1) have "config b = (rt_max_samples rt, rt_max_age_s rt, k, rt_flush_fields rt)"
    "win_inv env item b (units_of k news) (arrivals env (rt_flush_fields rt) None (stream_recs k (pushed ops)))"
    unfolding router_inv_def by blast+
  then obtain os where o: "open_ok env os b" and mx: "max_samples b = n"
    using r(1) unfolding win_inv_def by (auto simp: config_def settings_def new_router_def)
  with b(2) have ne: "os \<noteq> []" by (auto simp: open_ok_def)
  with o have w: "num_samples b < n" "chunks b = map (\<lambda>(l, r). rec_bytes r) os"
    "window_ok env (flush_fields b) os (current_context b) (component_dtype b) (is_complex b)
      (bytes_per_sample b) (start_timestamp b) (num_samples b)"
    by (simp_all add: open_ok_def mx)
  then obtain l0 r0 where m0: "(l0, r0) \<in> set os" using ne by (cases os) auto
  with w(3) have bps: "bytes_per_sample b = Some (rec_bps r0)" unfolding window_ok_def by auto
  have each: "int (length (rec_bytes r)) = int (length (rec_bytes r)) div rec_bps r * rec_bps r0"
    if "(l, r) \<in> set os" for l r
  proof -
    from w(3) that have "Some (rec_bps r) = bytes_per_sample b" "usable env r" unfolding window_ok_def by auto
    then show ?thesis by (simp add: bps usable_def)
  qed
  have "int (length (concat (map (\<lambda>(l, r). rec_bytes r) xs)))
      = sum_list (map (\<lambda>(l, r). int (length (rec_bytes r)) div rec_bps r) xs) * rec_bps r0"
    if "set xs \<subseteq> set os" for xs
    using that
  proof (induction xs)
    case (Cons lr xs)
    obtain l r where lr: "lr = (l, r)" by force
    with Cons.prems have "(l, r) \<in> set os" by simp
    from each [OF this] Cons show ?case by (simp add: lr distrib_right)
  qed simp
  from this [of os] w have "int (length (concat (chunks b))) = num_samples b * rec_bps r0"
    by (simp add: window_ok_def)
  with w(1) bps show ?thesis by blast
qed

section \<open>A concrete run\<close>

text \<open>Two records of one window, a retune, and one record behind it.\<close>

definition demo_ops :: "router_op list" where
  "demo_ops = [Push (Some (demo_context_record 100)), Push (Some (demo_data_record False [0, 1])), Age_Poll,
     Push (Some (demo_data_record False [0, 2, 0, 3])), Push (Some (demo_context_record 200)),
     Push (Some (demo_data_record False [0, 4]))]"

definition demo_router :: router where
  "demo_router = new_router 625000 1 DEFAULT_FLUSH_FIELDS 64"

lemma demo_ops_typed: "\<forall>r. Push (Some r) \<in> set ops \<longrightarrow> record_typed r" if "ops = demo_ops \<or> ops = demo_ops @ [Flush_All]"
  using that
  by (auto simp: demo_ops_def record_typed_def demo_context_record_def demo_data_record_def demo_md_def)

abbreviation demo_out :: "router_op list \<Rightarrow> (router, demo_world) outcome" where
  "demo_out ops \<equiv> router_run demo_env ops demo_router (0, [])"

lemma demo_out_split: "router_run demo_env ops (new_router 625000 1 DEFAULT_FLUSH_FIELDS 64) (0, [])
    = (fst (demo_out ops), fst (snd (demo_out ops)), snd (snd (demo_out ops)))"
  by (simp add: demo_router_def)

theorem router_windows_witness:
  "\<exists>u l1 l2 r1 r2 r3. snd (snd (snd (demo_out demo_ops))) = [u] \<and>
     unit_ok demo_env demo_item DEFAULT_FLUSH_FIELDS [(l1, r1), (l1, r2)] u \<and>
     arrivals demo_env DEFAULT_FLUSH_FIELDS None (stream_recs (Some 7) (pushed demo_ops)) = [(l1, r1), (l1, r2), (l2, r3)] \<and>
     l1 \<noteq> l2"
proof -
  let ?out = "demo_out demo_ops"
  have facts: "map u_num_samples (snd (snd (snd ?out))) = [3]"
    "map u_stream_id (snd (snd (snd ?out))) = [Some 7]"
    "map_option (\<lambda>b. chunks b) (map_of (buffers (fst (snd ?out))) (Some 7)) = Some [[0, 4]]"
    by code_simp+
  have arr: "arrivals demo_env DEFAULT_FLUSH_FIELDS None (stream_recs (Some 7) (pushed demo_ops)) =
    [(flush_label DEFAULT_FLUSH_FIELDS (demo_ctx 100), demo_data_record False [0, 1]),
     (flush_label DEFAULT_FLUSH_FIELDS (demo_ctx 100), demo_data_record False [0, 2, 0, 3]),
     (flush_label DEFAULT_FLUSH_FIELDS (demo_ctx 200), demo_data_record False [0, 4])]"
    by code_simp
  have lab: "flush_label DEFAULT_FLUSH_FIELDS (demo_ctx 100) \<noteq> flush_label DEFAULT_FLUSH_FIELDS (demo_ctx 200)"
    by code_simp
  from facts(1,2) obtain u where u: "snd (snd (snd ?out)) = [u]" "u_stream_id u = Some 7" by auto
  from facts(3) obtain b where b: "map_of (buffers (fst (snd ?out))) (Some 7) = Some b" "chunks b = [[0, 4]]" by auto
  from conjunct2 [OF router_windows [OF demo_env_ok demo_ops_typed demo_out_split, of demo_ops]]
  obtain news where n: "snd (snd (snd ?out)) = snd (0 :: rat, []) @ news"
    "\<forall>k. case map_of (buffers (fst (snd ?out))) k of None \<Rightarrow> units_of k news = []
     | Some b \<Rightarrow> (\<exists>ws os. list_all2 (unit_ok demo_env demo_item DEFAULT_FLUSH_FIELDS) ws (units_of k news) \<and>
         open_ok demo_env os b \<and>
         concat ws @ os = arrivals demo_env DEFAULT_FLUSH_FIELDS None (stream_recs k (pushed demo_ops)))"
    by blast
  from n(1) u(1) have "news = [u]" by simp
  with n(2) [rule_format, of "Some 7"] b(1)
  obtain ws os where w: "list_all2 (unit_ok demo_env demo_item DEFAULT_FLUSH_FIELDS) ws (units_of (Some 7) [u])"
    "open_ok demo_env os b"
    "concat ws @ os = arrivals demo_env DEFAULT_FLUSH_FIELDS None (stream_recs (Some 7) (pushed demo_ops))"
    by auto
  then obtain xs where xs: "ws = [xs]" "unit_ok demo_env demo_item DEFAULT_FLUSH_FIELDS xs u"
    using u(2) by (auto simp: units_of_def list_all2_Cons2)
  from w(2) b(2) obtain x where os: "os = [x]" by (auto simp: open_ok_def)
  with w(3) xs(1) arr have "xs = [(flush_label DEFAULT_FLUSH_FIELDS (demo_ctx 100), demo_data_record False [0, 1]),
     (flush_label DEFAULT_FLUSH_FIELDS (demo_ctx 100), demo_data_record False [0, 2, 0, 3])]"
    by (metis append_butlast_last_id butlast_snoc concat.simps append_Nil2 butlast.simps list.distinct(1))
  with xs(2) u(1) arr lab show ?thesis by blast
qed

theorem router_flush_drains_witness:
  "concat (map (\<lambda>u. samples_items (u_samples u)) (units_of (Some 7) (snd (snd (snd (demo_out (demo_ops @ [Flush_All])))))))
     = [1, 2, 3, 4]"
proof -
  let ?out = "demo_out (demo_ops @ [Flush_All])"
  have "\<exists>b. map_of (buffers (fst (snd ?out))) (Some 7) = Some b"
  proof -
    have "map_option (\<lambda>b. chunks b) (map_of (buffers (fst (snd ?out))) (Some 7)) = Some []" by code_simp
    then show ?thesis by auto
  qed
  then obtain b where b: "map_of (buffers (fst (snd ?out))) (Some 7) = Some b" ..
  have items: "concat (map (\<lambda>(l, r). rec_items demo_item r)
      (arrivals demo_env DEFAULT_FLUSH_FIELDS None (stream_recs (Some 7) (pushed demo_ops)))) = [1, 2, 3, 4]"
    by code_simp
  from router_flush_drains [OF demo_env_ok demo_ops_typed demo_out_split, of demo_ops] b
  show ?thesis unfolding items [symmetric] by auto
qed

text \<open>Two streams with an open window each, and a callback that raises on every unit.\<close>

definition refusing_env :: "(int, demo_world) env" where
  "refusing_env = demo_env\<lparr>emit := \<lambda>u (t, us). (Some ValueError, (t, us @ [u]))\<rparr>"

definition two_streams :: router where
  "two_streams = (let b = (new_buffer 8 1 (Some 7) DEFAULT_FLUSH_FIELDS)\<lparr>chunks := [[0, 1]], num_samples := 1,
       component_dtype := PStr ''>u2'', bytes_per_sample := Some 2, is_complex := Some False, first_arrival := Some 0\<rparr>
     in demo_router\<lparr>buffers := [(Some 7, b), (Some 8, b\<lparr>buf_stream_id := Some 8\<rparr>)]\<rparr>)"

theorem flush_all_stops_at_failure_witness:
  "\<exists>rt' w'. flush_all refusing_env two_streams (0, []) = (Some ValueError, rt', w') \<and>
     (\<exists>pre k b post. buffers rt' = pre @ (k, b) # post \<and> post \<noteq> [] \<and> chunks (snd (hd post)) = [[0, 1]])"
proof -
  have r: "fst (flush_all refusing_env two_streams (0, [])) = Some ValueError"
    "map (\<lambda>(k, b). chunks b) (buffers (fst (snd (flush_all refusing_env two_streams (0, []))))) = [[], [[0, 1]]]"
    "map (\<lambda>(k, b). chunks b) (buffers two_streams) = [[[0, 1]], [[0, 1]]]"
    "map (\<lambda>(k, b). convert_window refusing_env b = Inl ValueError) (buffers two_streams) = [False, False]"
    by code_simp+
  obtain rt' w' where f: "flush_all refusing_env two_streams (0, []) = (Some ValueError, rt', w')"
    using r(1) by (metis prod.collapse)
  from flush_all_stops_at_failure [OF f] obtain pre k b post pre' b' where
    o: "buffers two_streams = pre @ (k, b) # post" "buffers rt' = pre' @ (k, b') # post" "dict_keys pre' = dict_keys pre"
      "\<forall>(j, c) \<in> set pre'. chunks c = []" "chunks b' = [] \<or> b' = b \<and> convert_window refusing_env b = Inl ValueError"
    by blast
  have "post \<noteq> []"
  proof
    assume p: "post = []"
    with o(2) f r(2) have "chunks b' = [[0, 1]]" by (auto simp: map_eq_Cons_conv append_eq_Cons_conv Cons_eq_append_conv)
    with o(5) have "convert_window refusing_env b = Inl ValueError" by simp
    with o(1) p r(4) show False by (auto simp: map_eq_Cons_conv append_eq_Cons_conv Cons_eq_append_conv)
  qed
  then obtain j c post' where "post = (j, c) # post'" by (cases post) auto
  moreover from this o(1) r(3) have "chunks c = [[0, 1]]"
    by (auto simp: append_eq_Cons_conv Cons_eq_append_conv map_eq_Cons_conv)
  ultimately show ?thesis
    using f o(2) by (intro exI [of _ rt'] exI [of _ w'] conjI exI [of _ pre'] exI [of _ k] exI [of _ b'] exI [of _ post]) simp_all
qed

theorem router_flood_bound_witness:
  "int (length (buffers (fst (snd (fold router_exec demo_ops (demo_env, demo_router, (0, []))))))) \<le> 64"
proof -
  obtain env' rt w1 where f: "fold router_exec demo_ops (demo_env, new_router 625000 1 DEFAULT_FLUSH_FIELDS 64, (0, []))
      = (env', rt, w1)" by (metis prod_cases3)
  have "fold router_exec [] (env', rt, w1) = (env', rt, w1)" by simp
  from router_flood_bound [OF f this] f show ?thesis by (simp add: demo_router_def)
qed

theorem open_window_bounded_witness:
  "\<exists>b. map_of (buffers (fst (snd (demo_out demo_ops)))) (Some 7) = Some b \<and> chunks b \<noteq> [] \<and> num_samples b < 625000"
proof -
  have "map_option (\<lambda>b. chunks b) (map_of (buffers (fst (snd (demo_out demo_ops)))) (Some 7)) = Some [[0, 4]]" by code_simp
  then obtain b where "map_of (buffers (fst (snd (demo_out demo_ops)))) (Some 7) = Some b" "chunks b \<noteq> []" by auto
  with open_window_bounded [OF demo_env_ok demo_ops_typed demo_out_split this] show ?thesis by auto
qed

end
