(* ===== verification/RawQueue.thy ===== *)
theory RawQueue
  imports Prelude "HOL-Library.Sublist"
begin

text \<open>
  \<open>queues.py\<close>: the bounded, lossy FIFO between the source thread and the interpreter thread. Every
  method body runs under the queue's lock, so a method is one atomic operation on the state. The
  locale \<open>lossy_fifo\<close> is the interface the pipeline and the sources rely on.
\<close>

section \<open>The interface\<close>

datatype 'a queue_op = Put 'a | Get

fun queue_run ::
  "('a \<Rightarrow> 'q \<Rightarrow> 'q) \<Rightarrow> ('q \<Rightarrow> 'a option \<times> 'q) \<Rightarrow> 'a queue_op list \<Rightarrow> 'q \<Rightarrow> 'a list \<times> 'q" where
  "queue_run put get [] q = ([], q)"
| "queue_run put get (Put x # ops) q = queue_run put get ops (put x q)"
| "queue_run put get (Get # ops) q =
     (case get q of (r, q1) \<Rightarrow> (case queue_run put get ops q1 of (got, q2) \<Rightarrow>
        ((case r of None \<Rightarrow> got | Some x \<Rightarrow> x # got), q2)))"

fun puts_of :: "'a queue_op list \<Rightarrow> 'a list" where
  "puts_of [] = []"
| "puts_of (Put x # ops) = x # puts_of ops"
| "puts_of (Get # ops) = puts_of ops"

locale lossy_fifo =
  fixes put :: "'a \<Rightarrow> 'q \<Rightarrow> 'q" and get :: "'q \<Rightarrow> 'a option \<times> 'q"
    and held :: "'q \<Rightarrow> 'a list" and lost :: "'q \<Rightarrow> int" and room :: "'q \<Rightarrow> bool" and ok :: "'q \<Rightarrow> bool"
  assumes ok_put: "ok q \<Longrightarrow> ok (put x q)"
    and ok_get: "ok q \<Longrightarrow> ok (snd (get q))"
    and put_room: "ok q \<Longrightarrow> room q \<Longrightarrow> held (put x q) = held q @ [x] \<and> lost (put x q) = lost q"
    and put_full: "ok q \<Longrightarrow> \<not> room q \<Longrightarrow> held q \<noteq> [] \<and> held (put x q) = tl (held q) @ [x] \<and>
      lost (put x q) = lost q + 1"
    and get_empty: "ok q \<Longrightarrow> held q = [] \<Longrightarrow> get q = (None, q)"
    and get_held: "ok q \<Longrightarrow> held q = x # xs \<Longrightarrow>
      fst (get q) = Some x \<and> held (snd (get q)) = xs \<and> lost (snd (get q)) = lost q"
begin

lemma put_account:
  "ok q \<Longrightarrow> int (length (held (put x q))) + lost (put x q) = int (length (held q)) + lost q + 1"
  using put_room [of q x] put_full [of q x] by (cases "room q"; cases "held q") auto

lemma put_newest: "ok q \<Longrightarrow> last (held (put x q)) = x \<and> held (put x q) \<noteq> []"
  using put_room [of q x] put_full [of q x] by (cases "room q") auto

lemma run_ok: "ok q \<Longrightarrow> queue_run put get ops q = (got, q') \<Longrightarrow> ok q'"
proof (induction ops arbitrary: q got)
  case (Cons op ops)
  show ?case
  proof (cases op)
    case (Put x)
    with Cons.prems show ?thesis by (simp add: Cons.IH [OF ok_put])
  next
    case Get
    have "ok (snd (get q))" using Cons.prems(1) by (rule ok_get)
    with Get Cons.prems(2) show ?thesis
      by (auto dest: Cons.IH split: prod.splits)
  qed
qed simp

text \<open>Nothing is invented or duplicated: got, still held and lost add up to what was put in.\<close>

lemma run_account:
  "ok q \<Longrightarrow> queue_run put get ops q = (got, q') \<Longrightarrow>
     int (length got) + int (length (held q')) + lost q'
       = int (length (held q)) + lost q + int (length (puts_of ops))"
proof (induction ops arbitrary: q got)
  case Nil
  then show ?case by auto
next
  case (Cons op ops)
  show ?case
  proof (cases op)
    case (Put x)
    with Cons.IH [OF ok_put [OF Cons.prems(1)], of x got] Cons.prems put_account [of q x]
    show ?thesis by simp
  next
    case Get
    obtain r q1 where g: "get q = (r, q1)" by force
    obtain got1 q2 where t: "queue_run put get ops q1 = (got1, q2)" by force
    have "ok q1" using ok_get [OF Cons.prems(1)] g by simp
    with Cons.IH [of q1 got1] t Cons.prems Get g get_empty [of q] get_held [of q]
    show ?thesis by (cases "held q") auto
  qed
qed

text \<open>Order: what was got, followed by what is still held, is a subsequence of what was there and
  put in later.\<close>

lemma run_order:
  "ok q \<Longrightarrow> queue_run put get ops q = (got, q') \<Longrightarrow> subseq (got @ held q') (held q @ puts_of ops)"
proof (induction ops arbitrary: q got)
  case Nil
  then show ?case by auto
next
  case (Cons op ops)
  show ?case
  proof (cases op)
    case (Put x)
    have "subseq (got @ held q') (held (put x q) @ puts_of ops)"
      using Cons Put by (auto simp: ok_put)
    moreover have "subseq (held (put x q)) (held q @ [x])"
    proof (cases "room q")
      case True
      with Cons.prems(1) show ?thesis by (simp add: put_room)
    next
      case False
      then obtain y ys where "held q = y # ys" "held (put x q) = ys @ [x]"
        using put_full [OF Cons.prems(1), of x] by (cases "held q") auto
      then show ?thesis by (simp add: subseq_Cons')
    qed
    ultimately have "subseq (got @ held q') ((held q @ [x]) @ puts_of ops)"
      by (meson list_emb_append_mono subseq_order.dual_order.trans subseq_order.order_refl)
    with Put show ?thesis by simp
  next
    case Get
    obtain r q1 where g: "get q = (r, q1)" by force
    obtain got1 q2 where t: "queue_run put get ops q1 = (got1, q2)" by force
    have "ok q1" using ok_get [OF Cons.prems(1)] g by simp
    with Cons.IH [of q1 got1] t Cons.prems Get g get_empty [of q] get_held [of q]
    show ?thesis by (cases "held q") auto
  qed
qed

text \<open>The newest item is never lost: it is the last of what was got and is still held.\<close>

lemma run_last:
  "ok q \<Longrightarrow> queue_run put get ops q = (got, q') \<Longrightarrow> held q @ puts_of ops \<noteq> [] \<Longrightarrow>
     got @ held q' \<noteq> [] \<and> last (got @ held q') = last (held q @ puts_of ops)"
proof (induction ops arbitrary: q got)
  case Nil
  then show ?case by auto
next
  case (Cons op ops)
  show ?case
  proof (cases op)
    case (Put x)
    have "last (held (put x q) @ puts_of ops) = last (held q @ puts_of (op # ops))"
      using put_newest [OF Cons.prems(1), of x] Put by (simp add: last_append)
    with Cons.IH [OF ok_put [OF Cons.prems(1)], of x got] Cons.prems put_newest [OF Cons.prems(1), of x] Put
    show ?thesis by simp
  next
    case Get
    obtain r q1 where g: "get q = (r, q1)" by force
    obtain got1 where t: "queue_run put get ops q1 = (got1, q')" "got = (case r of None \<Rightarrow> got1 | Some x \<Rightarrow> x # got1)"
      using Cons.prems(2) Get g by (auto split: prod.splits option.splits)
    have ok1: "ok q1" using ok_get [OF Cons.prems(1)] g by simp
    show ?thesis
    proof (cases "held q")
      case Nil
      with Cons.IH [OF ok1 t(1)] get_empty [OF Cons.prems(1)] Cons.prems(3) g t(2) Get show ?thesis by simp
    next
      case (Cons x xs)
      with get_held [OF Cons.prems(1) Cons] g have q1: "r = Some x" "held q1 = xs" by simp_all
      show ?thesis
      proof (cases "xs @ puts_of ops = []")
        case True
        with run_order [OF ok1 t(1)] q1 have "got1 @ held q' = []" by (auto dest: list_emb_length)
        with True Cons q1 t(2) Get show ?thesis by simp
      next
        case False
        with Cons.IH [OF ok1 t(1)] Cons q1 t(2) Get show ?thesis by auto
      qed
    qed
  qed
qed

text \<open>Losing nothing, the queue is an exact FIFO.\<close>

lemma run_lossless:
  assumes "ok q" "queue_run put get ops q = (got, q')" "lost q' = lost q"
  shows "got @ held q' = held q @ puts_of ops"
proof -
  have "length (got @ held q') = length (held q @ puts_of ops)"
    using run_account [OF assms(1,2)] assms(3) by simp
  with run_order [OF assms(1,2)] show ?thesis
    by (rule subseq_same_length)
qed

end

section \<open>BoundedRawQueue\<close>

record 'a raw_queue =
  maxsize :: int
  queue_items :: "'a list"
  queue_dropped :: int

definition make_queue :: "int \<Rightarrow> exn + 'a raw_queue" where
  "make_queue n = (if n < 1 then Inl ValueError
     else Inr \<lparr>maxsize = n, queue_items = [], queue_dropped = 0\<rparr>)"

definition queue_put :: "'a \<Rightarrow> 'a raw_queue \<Rightarrow> 'a raw_queue" where
  "queue_put x q =
    (let q1 = (if maxsize q \<le> int (length (queue_items q))
               then q\<lparr>queue_items := tl (queue_items q), queue_dropped := queue_dropped q + 1\<rparr>
               else q)
     in q1\<lparr>queue_items := queue_items q1 @ [x]\<rparr>)"

text \<open>\<open>get\<close> with a timeout: \<open>None\<close> when the wait ended with the queue still empty.\<close>

definition queue_get :: "'a raw_queue \<Rightarrow> 'a option \<times> 'a raw_queue" where
  "queue_get q = (case queue_items q of [] \<Rightarrow> (None, q)
     | x # xs \<Rightarrow> (Some x, q\<lparr>queue_items := xs\<rparr>))"

definition queue_len :: "'a raw_queue \<Rightarrow> int" where
  "queue_len q = int (length (queue_items q))"

definition queue_ok :: "'a raw_queue \<Rightarrow> bool" where
  "queue_ok q \<longleftrightarrow> 1 \<le> maxsize q \<and> queue_len q \<le> maxsize q \<and> 0 \<le> queue_dropped q"

lemma make_queue_ok: "make_queue n = Inr q \<Longrightarrow> queue_ok q \<and> queue_items q = [] \<and> maxsize q = n \<and> queue_dropped q = 0"
  by (auto simp: make_queue_def queue_ok_def queue_len_def split: if_splits)

lemma queue_maxsize [simp]: "maxsize (queue_put x q) = maxsize q" "maxsize (snd (queue_get q)) = maxsize q"
  by (auto simp: queue_put_def queue_get_def Let_def split: list.splits)

interpretation raw: lossy_fifo queue_put queue_get queue_items queue_dropped
  "\<lambda>q. queue_len q < maxsize q" queue_ok
proof unfold_locales
  fix q :: "'a raw_queue" and x :: 'a and xs
  show "queue_ok q \<Longrightarrow> queue_ok (queue_put x q)"
    by (cases "queue_items q") (auto simp: queue_ok_def queue_put_def queue_len_def Let_def)
  show "queue_ok q \<Longrightarrow> queue_ok (snd (queue_get q))"
    by (auto simp: queue_ok_def queue_get_def queue_len_def split: list.splits)
  show "queue_ok q \<Longrightarrow> queue_len q < maxsize q \<Longrightarrow>
      queue_items (queue_put x q) = queue_items q @ [x] \<and> queue_dropped (queue_put x q) = queue_dropped q"
    by (simp add: queue_put_def queue_len_def Let_def)
  show "queue_ok q \<Longrightarrow> \<not> queue_len q < maxsize q \<Longrightarrow> queue_items q \<noteq> [] \<and>
      queue_items (queue_put x q) = tl (queue_items q) @ [x] \<and>
      queue_dropped (queue_put x q) = queue_dropped q + 1"
    by (auto simp: queue_put_def queue_len_def queue_ok_def Let_def)
  show "queue_ok q \<Longrightarrow> queue_items q = [] \<Longrightarrow> queue_get q = (None, q)"
    by (simp add: queue_get_def)
  show "queue_ok q \<Longrightarrow> queue_items q = x # xs \<Longrightarrow>
      fst (queue_get q) = Some x \<and> queue_items (snd (queue_get q)) = xs \<and>
      queue_dropped (snd (queue_get q)) = queue_dropped q"
    by (simp add: queue_get_def)
qed

abbreviation raw_run :: "'a queue_op list \<Rightarrow> 'a raw_queue \<Rightarrow> 'a list \<times> 'a raw_queue" where
  "raw_run \<equiv> queue_run queue_put queue_get"

text \<open>For any interleaving of puts and gets on a fresh queue, the items handed out followed by
  those still held are a subsequence of the items put, in order; handed out, held and the drop count
  add up to the number of puts; the queue never exceeds its bound; and with no drop counted it is an
  exact FIFO.\<close>

theorem queue_fifo_account:
  assumes "make_queue n = Inr q" "queue_run queue_put queue_get ops q = (got, q')"
  shows "subseq (got @ queue_items q') (puts_of ops) \<and>
    int (length got) + queue_len q' + queue_dropped q' = int (length (puts_of ops)) \<and>
    queue_len q' \<le> n \<and> (queue_dropped q' = 0 \<longrightarrow> got @ queue_items q' = puts_of ops)"
proof -
  have q: "queue_ok q" "queue_items q = []" "maxsize q = n" "queue_dropped q = 0"
    using make_queue_ok [OF assms(1)] by simp_all
  have "maxsize q2 = maxsize q1" if "queue_run queue_put queue_get os q1 = (gs, q2)"
    for os :: "'a queue_op list" and q1 gs q2
    using that
  proof (induction os arbitrary: q1 gs)
    case (Cons o1 os)
    then show ?case
    proof (cases o1)
      case Get
      obtain r q3 where g: "queue_get q1 = (r, q3)" by force
      with queue_maxsize(2) [of q1] have "maxsize q3 = maxsize q1" by simp
      with Cons Get g show ?thesis by (auto split: prod.splits)
    qed auto
  qed simp
  from this [OF assms(2)] q(3) have "maxsize q' = n" by simp
  with raw.run_ok [OF q(1) assms(2)] have "queue_len q' \<le> n"
    by (simp add: queue_ok_def)
  moreover have "subseq (got @ queue_items q') (puts_of ops)"
    using raw.run_order [OF q(1) assms(2)] q(2) by simp
  moreover have "int (length got) + queue_len q' + queue_dropped q' = int (length (puts_of ops))"
    using raw.run_account [OF q(1) assms(2)] q by (simp add: queue_len_def)
  moreover have "queue_dropped q' = 0 \<longrightarrow> got @ queue_items q' = puts_of ops"
    using raw.run_lossless [OF q(1) assms(2)] q by simp
  ultimately show ?thesis by blast
qed

theorem queue_fifo_account_witness:
  "subseq ([2] @ [3, 4]) (puts_of [Put 1, Put 2, Put 3, Get, Put (4 :: int)])"
proof -
  have m: "make_queue 2 = Inr \<lparr>maxsize = 2, queue_items = [], queue_dropped = 0\<rparr>"
    by (simp add: make_queue_def)
  have r: "queue_run queue_put queue_get [Put 1, Put 2, Put 3, Get, Put (4 :: int)]
      \<lparr>maxsize = 2, queue_items = [], queue_dropped = 0\<rparr>
    = ([2], \<lparr>maxsize = 2, queue_items = [3, 4], queue_dropped = 1\<rparr>)" by code_simp
  show ?thesis using queue_fifo_account [OF m r] by simp
qed

text \<open>C39: drop-oldest. After any sequence of puts on a fresh queue it holds exactly the newest
  \<open>maxsize\<close> of them in order, and has counted the others.\<close>

theorem queue_keeps_newest:
  assumes "make_queue n = Inr q"
  shows "queue_items (fold queue_put xs q) = drop (length xs - nat n) xs \<and>
    queue_dropped (fold queue_put xs q) = int (length xs - nat n)"
proof -
  note q = make_queue_ok [OF assms]
  have ok: "queue_ok (fold queue_put xs q) \<and> maxsize (fold queue_put xs q) = n" for xs
    using q by (induction xs rule: rev_induct) (auto intro: raw.ok_put)
  have n: "1 \<le> n" using q by (simp add: queue_ok_def)
  show ?thesis
  proof (induction xs rule: rev_induct)
    case Nil
    with q show ?case by simp
  next
    case (snoc x xs)
    have len: "queue_len (fold queue_put xs q) = min (int (length xs)) n"
      using snoc n by (simp add: queue_len_def)
    show ?case
    proof (cases "length xs < nat n")
      case True
      with len ok [of xs] n have "queue_len (fold queue_put xs q) < maxsize (fold queue_put xs q)" by simp
      from raw.put_room [OF conjunct1 [OF ok] this, of x] snoc True show ?thesis by simp
    next
      case False
      with len ok [of xs] n have "\<not> queue_len (fold queue_put xs q) < maxsize (fold queue_put xs q)" by simp
      from raw.put_full [OF conjunct1 [OF ok] this, of x] snoc False n show ?thesis
        by (simp add: Suc_diff_le drop_Suc tl_drop)
    qed
  qed
qed

theorem queue_keeps_newest_witness:
  "queue_items (fold queue_put [1, 2, 3, 4, 5 :: int] \<lparr>maxsize = 2, queue_items = [], queue_dropped = 0\<rparr>) = [4, 5]"
  using queue_keeps_newest [of 2 "\<lparr>maxsize = 2, queue_items = [], queue_dropped = 0\<rparr>" "[1, 2, 3, 4, 5 :: int]"]
  by (simp add: make_queue_def)

section \<open>Waiting\<close>

text \<open>
  \<open>get\<close> waits on a condition variable and \<open>put\<close> notifies it. One consumer (the interpreter
  thread) and any number of producers: the consumer is outside \<open>get\<close>, asleep in \<open>wait\<close>, or woken
  (by a notification or by its timeout) and about to re-test the predicate under the lock.
\<close>

datatype consumer = Outside | Asleep | Woken

inductive wait_step ::
  "'a raw_queue \<times> consumer \<Rightarrow> 'a option option \<Rightarrow> 'a raw_queue \<times> consumer \<Rightarrow> bool" where
  put: "wait_step (q, c) None (queue_put x q, if c = Asleep then Woken else c)"
| get_now: "queue_items q \<noteq> [] \<Longrightarrow> wait_step (q, Outside) (Some (fst (queue_get q))) (snd (queue_get q), Outside)"
| get_wait: "queue_items q = [] \<Longrightarrow> wait_step (q, Outside) None (q, Asleep)"
| wake: "queue_items q \<noteq> [] \<Longrightarrow> wait_step (q, Woken) (Some (fst (queue_get q))) (snd (queue_get q), Outside)"
| spurious: "queue_items q = [] \<Longrightarrow> wait_step (q, Woken) None (q, Asleep)"
| timeout: "wait_step (q, Asleep) (Some (fst (queue_get q))) (snd (queue_get q), Outside)"

inductive wait_reach :: "'a raw_queue \<Rightarrow> 'a raw_queue \<times> consumer \<Rightarrow> bool" for q0 where
  start: "wait_reach q0 (q0, Outside)"
| step: "wait_reach q0 s \<Longrightarrow> wait_step s r s' \<Longrightarrow> wait_reach q0 s'"

inductive_cases wait_stepE: "wait_step s r s'"

lemma wait_reach_inv:
  "wait_reach q0 s \<Longrightarrow> queue_ok q0 \<Longrightarrow> queue_ok (fst s) \<and> (snd s = Asleep \<longrightarrow> queue_items (fst s) = [])"
proof (induction rule: wait_reach.induct)
  case start
  then show ?case by simp
next
  case (step s r s')
  from step.hyps(2) step.IH [OF step.prems] show ?case
    by (cases rule: wait_step.cases) (auto intro: raw.ok_put raw.ok_get split: if_splits)
qed

text \<open>C40: no lost wake-up. In every reachable state of the queue with a waiting consumer, a
  consumer asleep in \<open>wait\<close> means the queue is empty; a \<open>get\<close> that returns \<open>None\<close> (its timeout)
  found the queue empty, and one that returns an item took the oldest one.\<close>

theorem queue_no_lost_wakeup:
  assumes "make_queue n = Inr q0" "wait_reach q0 (q, c)" "wait_step (q, c) r (q', c')"
  shows "(c = Asleep \<longrightarrow> queue_items q = []) \<and> (r = Some None \<longrightarrow> queue_items q = []) \<and>
    (\<forall>x. r = Some (Some x) \<longrightarrow> queue_items q = x # queue_items q') \<and>
    (queue_items q' \<noteq> [] \<longrightarrow> c' \<noteq> Asleep)"
proof -
  have inv: "queue_ok q" "c = Asleep \<longrightarrow> queue_items q = []"
    using wait_reach_inv [OF assms(2)] make_queue_ok [OF assms(1)] by simp_all
  have g: "(fst (queue_get q) = None \<longrightarrow> queue_items q = []) \<and>
      (\<forall>x. fst (queue_get q) = Some x \<longrightarrow> queue_items q = x # queue_items (snd (queue_get q)))"
    by (simp add: queue_get_def split: list.splits)
  from assms(3) inv g show ?thesis by (cases rule: wait_step.cases) auto
qed

theorem queue_no_lost_wakeup_witness:
  "\<exists>q. wait_reach q (q, Asleep) \<and> queue_items q = [] \<and> maxsize q = 2 \<and>
     queue_items (queue_put (7 :: int) q) = [7]"
proof -
  let ?q = "\<lparr>maxsize = 2, queue_items = [], queue_dropped = 0\<rparr> :: int raw_queue"
  have m: "make_queue 2 = Inr ?q" by (simp add: make_queue_def)
  have "wait_reach ?q (?q, Asleep)"
    by (rule wait_reach.step [OF wait_reach.start wait_step.get_wait]) simp
  with queue_no_lost_wakeup [OF m this wait_step.put] show ?thesis
    by (intro exI [of _ ?q]) (simp add: queue_put_def)
qed

end
