(* ===== verification/Runtime.thy ===== *)
theory Runtime
  imports Interp_Laws Router_Laws RawQueue
begin

text \<open>
  \<open>runtime.py\<close>: the pipeline. Thread A (and any other thread) puts items into the raw queue and may
  set the stop event at any time; Thread B is the loop of \<open>Pipeline.run\<close>. The whole is a step
  relation: a step of Thread B is one iteration of the loop, which touches the queue only in its
  \<open>get\<close>, so the puts of other threads are interleaved between iterations without loss of generality.

  \<open>interpreter.process\<close> cannot raise in the model (every exception of the parser is a value it
  counts), so the guard around the call in \<open>run\<close> is dead code here.
\<close>

section \<open>State\<close>

datatype queue_item = SHUTDOWN | Item raw_item

record pipeline =
  interp :: interpreter
  logging :: module_state
  bufrouter :: router

datatype phase = Looping | Finished "exn option"

record 'w system =
  raw :: "queue_item raw_queue"
  stop_set :: bool
  pipe :: pipeline
  world :: 'w
  phase :: phase

definition make_pipeline :: "rat \<Rightarrow> interpreter \<Rightarrow> module_state \<Rightarrow> router \<Rightarrow> exn + pipeline" where
  "make_pipeline poll_interval s g rt = (if poll_interval \<le> 0 then Inl ValueError
     else Inr \<lparr>interp = s, logging = g, bufrouter = rt\<rparr>)"

section \<open>One iteration and the exit path\<close>

text \<open>The body of the loop for what \<open>get\<close> returned: a timeout polls the age trigger, a datagram is
  interpreted, its record pushed, and the age trigger polled.\<close>

definition run_router ::
  "(router \<Rightarrow> 'w \<Rightarrow> (router, 'w) outcome) \<Rightarrow> pipeline \<Rightarrow> 'w \<Rightarrow> (pipeline, 'w) outcome" where
  "run_router f p w = (case f (bufrouter p) w of (e, rt, w') \<Rightarrow> (e, p\<lparr>bufrouter := rt\<rparr>, w'))"

definition iteration :: "('f, 'w) env \<Rightarrow> raw_item option \<Rightarrow> pipeline \<Rightarrow> 'w \<Rightarrow> (pipeline, 'w) outcome" where
  "iteration env got p w =
    (case got of
       None \<Rightarrow> run_router (router_age env) p w
     | Some i \<Rightarrow>
         (case process i (interp p) (logging p) of (rec, s', g') \<Rightarrow>
            let p1 = p\<lparr>interp := s', logging := g'\<rparr> in
            and_then (case rec of None \<Rightarrow> (None, p1, w)
                      | Some r \<Rightarrow> run_router (router_push env (Some r)) p1 w)
              (run_router (router_age env))))"

text \<open>The \<open>finally\<close> blocks: every window is flushed, then the source is stopped (which sets the
  event) whether or not a callback raised; an exception of the flush replaces the one in flight.\<close>

definition finish :: "('f, 'w) env \<Rightarrow> exn option \<Rightarrow> 'w system \<Rightarrow> 'w system" where
  "finish env e s =
    (case run_router (flush_all env) (pipe s) (world s) of (e', p, w') \<Rightarrow>
       s\<lparr>pipe := p, world := w', stop_set := True,
         phase := Finished (case e' of None \<Rightarrow> e | Some _ \<Rightarrow> e')\<rparr>)"

definition loop_turn :: "('f, 'w) env \<Rightarrow> raw_item option \<Rightarrow> 'w system \<Rightarrow> 'w system" where
  "loop_turn env got s =
    (case iteration env got (pipe s) (world s) of (e, p, w') \<Rightarrow>
       let s1 = s\<lparr>pipe := p, world := w'\<rparr> in
       (case e of None \<Rightarrow> s1 | Some _ \<Rightarrow> finish env e s1))"

text \<open>Thread B from the top of its loop.\<close>

definition loop_step :: "('f, 'w) env \<Rightarrow> 'w system \<Rightarrow> raw_item list \<times> 'w system" where
  "loop_step env s =
    (if stop_set s then ([], finish env None s)
     else case queue_get (raw s) of (got, q) \<Rightarrow>
       (case got of
          None \<Rightarrow> ([], loop_turn env None (s\<lparr>raw := q\<rparr>))
        | Some SHUTDOWN \<Rightarrow> ([], finish env None (s\<lparr>raw := q\<rparr>))
        | Some (Item i) \<Rightarrow> ([i], loop_turn env (Some i) (s\<lparr>raw := q\<rparr>))))"

section \<open>The interleaving\<close>

text \<open>\<open>sys_run env s0 is s\<close>: the system started in \<open>s0\<close> can reach \<open>s\<close>, Thread B having interpreted the
  items \<open>is\<close>.\<close>

inductive sys_run :: "('f, 'w) env \<Rightarrow> 'w system \<Rightarrow> raw_item list \<Rightarrow> 'w system \<Rightarrow> bool" for env s0 where
  start: "sys_run env s0 [] s0"
| put: "sys_run env s0 is s \<Longrightarrow> sys_run env s0 is (s\<lparr>raw := queue_put x (raw s)\<rparr>)"
| stop: "sys_run env s0 is s \<Longrightarrow> sys_run env s0 is (s\<lparr>stop_set := True\<rparr>)"
| loop: "sys_run env s0 is s \<Longrightarrow> phase s = Looping \<Longrightarrow> loop_step env s = (new, s') \<Longrightarrow>
    sys_run env s0 (is @ new) s'"

definition init_system :: "queue_item raw_queue \<Rightarrow> pipeline \<Rightarrow> 'w \<Rightarrow> 'w system" where
  "init_system q p w = \<lparr>raw = q, stop_set = False, pipe = p, world = w, phase = Looping\<rparr>"

definition fresh_pipeline :: "int \<Rightarrow> rat \<Rightarrow> string list \<Rightarrow> int \<Rightarrow> pipeline" where
  "fresh_pipeline n age fs m =
     \<lparr>interp = new_interpreter m, logging = new_module_state, bufrouter = new_router n age fs m\<rparr>"

section \<open>Every exit path stops the source\<close>

lemma finish_phase: "\<exists>e'. phase (finish env e s) = Finished e'" "stop_set (finish env e s)"
  by (simp_all add: finish_def split: prod.splits)

lemma finish_keeps_error:
  "phase (finish env (Some e) s) \<noteq> Finished None"
  by (simp add: finish_def split: prod.splits option.splits)

lemma loop_turn_phase:
  "phase s = Looping \<Longrightarrow> phase (loop_turn env got s) = Looping \<or> stop_set (loop_turn env got s)"
  by (auto simp: loop_turn_def Let_def finish_phase split: prod.splits option.splits)

text \<open>C9: on every exit path of \<open>run\<close> (end of stream, stop event, an exception of the callback or of
  numpy, an exception of the final flush) the source has been told to stop; the loop ends within one
  step once the stop event is set; and the end-of-stream sentinel ends it.\<close>

theorem pipeline_exit:
  assumes "sys_run env (init_system q p w) is s"
  shows "(phase s \<noteq> Looping \<longrightarrow> stop_set s) \<and>
    (stop_set s \<longrightarrow> phase (snd (loop_step env s)) \<noteq> Looping) \<and>
    (\<forall>q'. queue_get (raw s) = (Some SHUTDOWN, q') \<longrightarrow> phase (snd (loop_step env s)) \<noteq> Looping)"
proof -
  have fin: "phase (finish env e t) \<noteq> Looping" for e and t :: "'b system"
    using finish_phase(1) [of env e t] by auto
  have "phase s \<noteq> Looping \<longrightarrow> stop_set s"
    using assms
  proof (induction rule: sys_run.induct)
    case start
    then show ?case by (simp add: init_system_def)
  next
    case (loop "is" s new s')
    then show ?case
      using loop_turn_phase [of "s\<lparr>raw := snd (queue_get (raw s))\<rparr>" env]
      by (auto simp: loop_step_def finish_phase split: if_splits prod.splits option.splits queue_item.splits)
  qed simp_all
  with fin show ?thesis
    by (auto simp: loop_step_def split: prod.splits option.splits queue_item.splits)
qed

end
