(* ===== verification/World_Map.thy ===== *)
theory World_Map
  imports Runtime
begin

text \<open>
  Outside worlds related by a map. When the clock and the callback of one environment are those of
  another seen through \<open>h\<close>, every operation of the buffers, the router and the pipeline commutes with
  \<open>h\<close>, so a run in the smaller world is the image of a run in the larger one. This is how a callback
  that keeps figures (the throughput meter) is related to one that keeps the units themselves.
\<close>

definition map_outcome :: "('v \<Rightarrow> 'w) \<Rightarrow> ('a, 'v) outcome \<Rightarrow> ('a, 'w) outcome" where
  "map_outcome h out = (case out of (e, a, v) \<Rightarrow> (e, a, h v))"

lemma map_outcome_simp [simp]: "map_outcome h (e, a, v) = (e, a, h v)"
  by (simp add: map_outcome_def)

text \<open>Two operations that agree through \<open>h\<close>.\<close>

definition commutes ::
  "('v \<Rightarrow> 'w) \<Rightarrow> ('a \<Rightarrow> 'w \<Rightarrow> ('b, 'w) outcome) \<Rightarrow> ('a \<Rightarrow> 'v \<Rightarrow> ('b, 'v) outcome) \<Rightarrow> bool" where
  "commutes h f' f \<longleftrightarrow> (\<forall>a v. f' a (h v) = map_outcome h (f a v))"

lemma commutesD: "commutes h f' f \<Longrightarrow> f' a (h v) = map_outcome h (f a v)"
  by (simp add: commutes_def)

lemma and_then_map:
  "commutes h g f \<Longrightarrow> and_then (map_outcome h out) g = map_outcome h (and_then out f)"
  by (cases out rule: prod_cases3) (simp add: and_then_def commutes_def split: option.split)

lemma commutes_return: "commutes h (\<lambda>a w. (e a, g a, w)) (\<lambda>a v. (e a, g a, v))"
  by (simp add: commutes_def)

lemma commutes_if:
  "commutes h f' f \<Longrightarrow> commutes h g' g \<Longrightarrow>
     commutes h (\<lambda>a w. if c a then f' a w else g' a w) (\<lambda>a v. if c a then f a v else g a v)"
  by (simp add: commutes_def)

lemma commutes_then:
  "commutes h f' f \<Longrightarrow> commutes h g' g \<Longrightarrow>
     commutes h (\<lambda>a w. and_then (f' a w) g') (\<lambda>a v. and_then (f a v) g)"
  by (subst commutes_def) (simp only: commutesD and_then_map simp_thms)

definition map_system :: "('v \<Rightarrow> 'w) \<Rightarrow> 'v system \<Rightarrow> 'w system" where
  "map_system h s = \<lparr>raw = raw s, stop_set = stop_set s, pipe = pipe s, world = h (world s), phase = phase s\<rparr>"

lemma map_system_simps [simp]:
  "raw (map_system h s) = raw s" "stop_set (map_system h s) = stop_set s" "pipe (map_system h s) = pipe s"
  "world (map_system h s) = h (world s)" "phase (map_system h s) = phase s"
  "map_system h (init_system q p v) = init_system q p (h v)"
  by (simp_all add: map_system_def init_system_def)

lemma map_system_updates:
  "(map_system h s)\<lparr>raw := q\<rparr> = map_system h (s\<lparr>raw := q\<rparr>)"
  "(map_system h s)\<lparr>stop_set := c\<rparr> = map_system h (s\<lparr>stop_set := c\<rparr>)"
  "(map_system h s)\<lparr>pipe := p, world := h v\<rparr> = map_system h (s\<lparr>pipe := p, world := v\<rparr>)"
  "(map_system h s)\<lparr>pipe := p, world := h v, stop_set := c, phase := ph\<rparr>
    = map_system h (s\<lparr>pipe := p, world := v, stop_set := c, phase := ph\<rparr>)"
  by (simp_all add: map_system_def)

locale world_map =
  fixes env :: "('f, 'v) env" and env' :: "('f, 'w) env" and h :: "'v \<Rightarrow> 'w"
  assumes numpy_same: "np_dtype env' = np_dtype env" "np_float32 env' = np_float32 env"
      "np_complex64 env' = np_complex64 env"
    and clock_map: "monotonic env' (h v) = (case monotonic env v of (t, v') \<Rightarrow> (t, h v'))"
    and emit_map: "emit env' u (h v) = (case emit env u v of (e, v') \<Rightarrow> (e, h v'))"
begin

lemma convert_map: "convert_window env' b = convert_window env b"
  unfolding convert_window_def numpy_same ..

lemma latch_map: "latch env' dt c n b = latch env dt c n b"
  unfolding latch_def numpy_same ..

lemma flush_map: "commutes h (flush env') (flush env)"
  by (simp add: commutes_def flush_def convert_map emit_map split: sum.split prod.split)

lemma age_map: "commutes h (maybe_flush_on_age env') (maybe_flush_on_age env)"
  by (simp add: commutes_def maybe_flush_on_age_def clock_map commutesD [OF flush_map] split: prod.split option.split)

lemma append_map: "commutes h (append_chunk env' d n) (append_chunk env d n)"
  by (simp add: commutes_def append_chunk_def Let_def commutesD [OF flush_map])

lemma open_map: "commutes h (open_window env' md d n) (open_window env md d n)"
  by (simp add: commutes_def open_window_def latch_map clock_map commutesD [OF append_map]
      split: sum.split prod.split bool.split)

lemma guarded_map:
  "commutes h (\<lambda>b w. if c b then flush env' b w else (None, b, w)) (\<lambda>b v. if c b then flush env b v else (None, b, v))"
  by (intro commutes_if flush_map commutes_return)

lemma push_context_map: "commutes h (push_context env' c) (push_context env c)"
proof (cases c)
  case None
  then show ?thesis by (simp add: commutes_def push_context_def)
next
  case (Some ctx)
  then show ?thesis
    unfolding push_context_def option.case by (simp only: option.case) (intro commutes_then guarded_map commutes_return)
qed

lemma push_data_map: "commutes h (push_data env' r) (push_data env r)"
  unfolding push_data_def [abs_def] Let_def
proof (intro commutes_if commutes_return, goal_cases)
  case 1
  show ?case
    by (cases "rec_data r"; cases "as_int (md_bytes_per_sample (rec_metadata r))")
      (simp_all only: option.case sum.case,
       (intro commutes_if commutes_then guarded_map open_map append_map commutes_return)+)
qed

lemma push_map: "commutes h (push env' rec) (push env rec)"
  by (simp add: commutes_def push_def commutesD [OF push_context_map] commutesD [OF push_data_map] split: option.split)

lemma push_into_map: "push_into env' r sid b rt (h v) = map_outcome h (push_into env r sid b rt v)"
  by (simp add: push_into_def commutesD [OF push_map] map_outcome_def split: prod.split)

lemma router_push_map: "commutes h (router_push env' rec) (router_push env rec)"
  by (simp add: commutes_def router_push_def Let_def push_into_map split: option.split)

lemma for_each_map:
  assumes "commutes h f' f"
  shows "for_each f' bs (h v) = map_outcome h (for_each f bs v)"
proof (induction bs arbitrary: v)
  case (Cons kb bs)
  obtain k b where kb: "kb = (k, b)" by force
  obtain e b1 v1 where "f b v = (e, b1, v1)" by (metis prod_cases3)
  with Cons [of v1] commutesD [OF assms, of b v] kb show ?case
    by (cases e) (auto simp: map_outcome_def split: prod.split)
qed simp

lemma visit_all_map: "commutes h f' f \<Longrightarrow> commutes h (visit_all f') (visit_all f)"
  by (simp add: commutes_def [of h "visit_all f'"] visit_all_def for_each_map map_outcome_def split: prod.split)

lemma router_age_map: "commutes h (router_age env') (router_age env)"
  unfolding router_age_def by (rule visit_all_map) (rule age_map)

lemma flush_all_map: "commutes h (flush_all env') (flush_all env)"
  unfolding flush_all_def by (rule visit_all_map) (rule flush_map)

lemma run_router_map: "commutes h f' f \<Longrightarrow> commutes h (run_router f') (run_router f)"
  by (simp add: commutes_def [of h "run_router f'"] run_router_def commutesD map_outcome_def split: prod.split)

lemma iteration_map: "commutes h (iteration env' got) (iteration env got)"
proof (cases got)
  case None
  with run_router_map [OF router_age_map] show ?thesis by (simp add: commutes_def iteration_def)
next
  case (Some i)
  note age = run_router_map [OF router_age_map] and deliver = run_router_map [OF router_push_map]
  have "iteration env' got p (h v) = map_outcome h (iteration env got p v)" for p v
  proof -
    obtain rec s g where p: "process i (interp p) (logging p) = (rec, s, g)" by (metis prod_cases3)
    let ?p = "p\<lparr>interp := s, logging := g\<rparr>"
    have "(case rec of None \<Rightarrow> (None, ?p, h v) | Some r \<Rightarrow> run_router (router_push env' (Some r)) ?p (h v))
        = map_outcome h (case rec of None \<Rightarrow> (None, ?p, v) | Some r \<Rightarrow> run_router (router_push env (Some r)) ?p v)"
      by (simp add: commutesD [OF deliver] split: option.split)
    with Some p show ?thesis by (simp add: iteration_def Let_def and_then_map [OF age])
  qed
  then show ?thesis by (simp add: commutes_def)
qed

lemma finish_map: "finish env' e (map_system h s) = map_system h (finish env e s)"
proof -
  obtain e' p v where "run_router (flush_all env) (pipe s) (world s) = (e', p, v)" by (metis prod_cases3)
  then show ?thesis
    by (simp add: finish_def commutesD [OF run_router_map [OF flush_all_map]] map_system_updates)
qed

lemma loop_turn_map: "loop_turn env' got (map_system h s) = map_system h (loop_turn env got s)"
proof -
  obtain e p v where "iteration env got (pipe s) (world s) = (e, p, v)" by (metis prod_cases3)
  then show ?thesis
    by (simp add: loop_turn_def Let_def commutesD [OF iteration_map] map_system_updates finish_map split: option.split)
qed

lemma loop_step_map:
  "loop_step env' (map_system h s) = (case loop_step env s of (is, s') \<Rightarrow> (is, map_system h s'))"
proof -
  obtain got q where "queue_get (raw s) = (got, q)" by force
  then show ?thesis
    by (simp add: loop_step_def map_system_updates loop_turn_map finish_map split: option.split queue_item.split)
qed

text \<open>A run in the small world is the image of a run in the large one.\<close>

lemma sys_run_map:
  assumes "sys_run env' (map_system h s0) is t"
  obtains s where "sys_run env s0 is s" "t = map_system h s"
proof -
  have "\<exists>s. sys_run env s0 is s \<and> t = map_system h s"
    using assms
  proof (induction rule: sys_run.induct)
    case start
    then show ?case using sys_run.start by blast
  next
    case (put "is" t x)
    then obtain s where "sys_run env s0 is s" "t = map_system h s" by blast
    then show ?case using sys_run.put [of env s0 "is" s x] by (auto simp: map_system_updates)
  next
    case (stop "is" t)
    then obtain s where "sys_run env s0 is s" "t = map_system h s" by blast
    then show ?case using sys_run.stop [of env s0 "is" s] by (auto simp: map_system_updates)
  next
    case (loop "is" t new t')
    then obtain s where s: "sys_run env s0 is s" "t = map_system h s" by blast
    obtain new' s' where l: "loop_step env s = (new', s')" by force
    with loop(3) s(2) have "new = new'" "t' = map_system h s'" by (simp_all add: loop_step_map)
    with sys_run.loop [OF s(1) _ l] loop(2) s(2) show ?case by auto
  qed
  with that show thesis by blast
qed

end

end
