(* ===== verification/Pipeline_Laws.thy ===== *)
theory Pipeline_Laws
  imports Runtime
begin

text \<open>
  The pipeline end to end: the interpreter's guarantees about its records discharge what the buffers
  need, so under the pipeline no buffer and no router drops anything, and every sample the
  interpreter delivered is emitted once the loop has ended.
\<close>

section \<open>What numpy must know\<close>

text \<open>The eight dtypes of the format table: a numeric kind and the tabulated item size.\<close>

definition numpy_formats :: "('f, 'w) env \<Rightarrow> bool" where
  "numpy_formats env \<longleftrightarrow> (\<forall>((fmt, bits), dt) \<in> set ITEM_FORMAT_DTYPES.
     \<exists>k. np_dtype env (PStr dt) = Inr (k, bits div 8) \<and> numeric_kind k)"

definition delivered_items ::
  "(pyval \<Rightarrow> bytes \<Rightarrow> 'f) \<Rightarrow> int option \<Rightarrow> packet_record option list \<Rightarrow> 'f list" where
  "delivered_items item k rs = concat (map (\<lambda>rec. case rec of None \<Rightarrow> []
     | Some r \<Rightarrow> if is_data r \<and> md_stream_id (rec_metadata r) = k then rec_items item r else []) rs)"

lemma delivered_items_simps [simp]:
  "delivered_items item k [] = []"
  "delivered_items item k (rs @ rs') = delivered_items item k rs @ delivered_items item k rs'"
  by (simp_all add: delivered_items_def)

text \<open>The data records delivered on a stream, and their samples.\<close>

definition delivered_recs :: "int option \<Rightarrow> packet_record option list \<Rightarrow> packet_record list" where
  "delivered_recs k rs = concat (map (\<lambda>rec. case rec of None \<Rightarrow> []
     | Some r \<Rightarrow> if is_data r \<and> md_stream_id (rec_metadata r) = k then [r] else []) rs)"

lemma delivered_recs_simps [simp]:
  "delivered_recs k [] = []"
  "delivered_recs k (rs @ rs') = delivered_recs k rs @ delivered_recs k rs'"
  by (simp_all add: delivered_recs_def)

definition rec_samples :: "packet_record \<Rightarrow> int" where
  "rec_samples r = int (length (rec_bytes r)) div rec_bps r"

definition delivered_samples :: "int option \<Rightarrow> packet_record option list \<Rightarrow> int" where
  "delivered_samples k rs = sum_list (map rec_samples (delivered_recs k rs))"

definition filled :: "packet_record \<Rightarrow> bool" where
  "filled r \<longleftrightarrow> rec_bytes r \<noteq> []"

lemma delivered_items_recs:
  "delivered_items item k rs = concat (map (rec_items item) (filter filled (delivered_recs k rs)))"
proof -
  have "\<not> filled r \<Longrightarrow> rec_items item r = []" for r by (simp add: filled_def rec_items_def)
  then have "concat (map (rec_items item) (filter filled xs)) = concat (map (rec_items item) xs)" for xs
    by (induction xs) auto
  then show ?thesis
    by (induction rs) (auto simp: delivered_items_def delivered_recs_def split: option.split)
qed

lemma delivered_samples_recs:
  "delivered_samples k rs = sum_list (map rec_samples (filter filled (delivered_recs k rs)))"
proof -
  have "\<not> filled r \<Longrightarrow> rec_samples r = 0" for r by (simp add: filled_def rec_samples_def)
  then have "sum_list (map rec_samples (filter filled xs)) = sum_list (map rec_samples xs)" for xs
    by (induction xs) auto
  then show ?thesis by (simp add: delivered_samples_def)
qed

section \<open>Records the interpreter produces\<close>

lemma layout_convertible:
  assumes "numpy_formats env" "layout_ok dt cplx bps"
  shows "convertible env (PStr dt) cplx bps"
proof -
  from assms(2) obtain fmt bits where m: "((fmt, bits), dt) \<in> set ITEM_FORMAT_DTYPES"
    "bps = (if cplx then 2 else 1) * (bits div 8)" unfolding layout_ok_def by auto
  with assms(1) obtain k where "np_dtype env (PStr dt) = Inr (k, bits div 8)" "numeric_kind k"
    unfolding numpy_formats_def by fastforce
  with m(2) show ?thesis by (simp add: convertible_def components_per_sample_def)
qed

lemma step_record_typed: "interp_step i s (Some r) s' \<Longrightarrow> record_typed r"
  by (erule interp_step_SomeE) (auto simp: record_typed_def make_metadata_def)

text \<open>A data record of the interpreter is usable exactly when it is not empty.\<close>

lemma delivered_usable:
  assumes np: "numpy_formats env" and st: "interp_step i s (Some r) s'" and d: "is_data r"
  shows "\<exists>ctx. map_of (contexts s) (md_stream_id (rec_metadata r)) = Some ctx \<and> \<not> unsupported_ctx ctx \<and>
    contexts s' = contexts s \<and> (usable env r \<longleftrightarrow> filled r)"
  using st
proof (cases rule: interp_step_SomeE [consumes 1])
  case (1 b hdr sid g ctx)
  with d show ?thesis by (simp add: is_data_def)
next
  case (2 b hdr sid ctx dt bps cplx g body n)
  obtain g' where t: "trim_data b hdr bps g = (Inr (body, n), g')"
    using 2 by (metis prod.collapse)
  from 2 have l: "layout_ok dt cplx bps" by simp
  have r: "rec_bytes r = body" "rec_bps r = bps" "rec_cplx r = cplx" "md_dtype (rec_metadata r) = PStr dt"
    "md_stream_id (rec_metadata r) = Some sid"
    using 2 by (simp_all add: rec_bytes_def rec_bps_def rec_cplx_def make_metadata_def py_truthy_def)
  have "int (length body) = n * bps"
    using trim_data_result [OF t layout_ok_pos [OF l]] by blast
  then have "usable env r \<or> body = []"
    using layout_convertible [OF np l] layout_ok_pos [OF l] by (simp add: usable_def r)
  moreover have "usable env r \<Longrightarrow> body \<noteq> []" by (auto simp: usable_def r)
  ultimately have "usable env r \<longleftrightarrow> filled r" by (auto simp: filled_def r)
  with 2 r show ?thesis by (auto simp: unsupported_ctx_def)
qed

section \<open>The router under the interpreter\<close>

lemma push_into_dropped:
  "push_into env r sid b rt w = (e, rt', w') \<Longrightarrow> rt_dropped rt' = rt_dropped rt"
  by (auto simp: push_into_def split: prod.splits)

lemma visit_all_dropped:
  "visit_all f rt w = (e, rt', w') \<Longrightarrow> rt_dropped rt' = rt_dropped rt"
  by (auto simp: visit_all_def split: prod.splits)

lemma router_push_admits:
  assumes "router_push env (Some r) rt w = (e, rt', w')" "sid = md_stream_id (rec_metadata r)"
    and "sid \<in> set (dict_keys (buffers rt)) \<or> int (length (buffers rt)) < rt_max_streams rt"
  shows "rt_dropped rt' = rt_dropped rt"
    "dict_keys (buffers rt') = (if sid \<in> set (dict_keys (buffers rt)) then dict_keys (buffers rt)
       else dict_keys (buffers rt) @ [sid])"
proof -
  obtain b where p: "push_into env r sid b rt w = (e, rt', w')"
  proof (cases "map_of (buffers rt) sid")
    case None
    then have "sid \<notin> set (dict_keys (buffers rt))" unfolding map_of_None_iff_keys .
    with None assms that show ?thesis by (simp add: router_push_def Let_def)
  next
    case (Some b)
    with assms that show ?thesis by (simp add: router_push_def Let_def)
  qed
  show "rt_dropped rt' = rt_dropped rt" using p by (rule push_into_dropped)
  show "dict_keys (buffers rt') = (if sid \<in> set (dict_keys (buffers rt)) then dict_keys (buffers rt)
       else dict_keys (buffers rt) @ [sid])" using push_into_table [OF p] by blast
qed

section \<open>The invariant of a running pipeline\<close>

definition pipe_inv ::
  "('f, 'w) env \<Rightarrow> (pyval \<Rightarrow> bytes \<Rightarrow> 'f) \<Rightarrow> pipeline \<Rightarrow> 'f unit_rec list \<Rightarrow> packet_record option list \<Rightarrow> bool" where
  "pipe_inv env item p us rs \<longleftrightarrow>
     router_inv env item (bufrouter p) us rs \<and> interp_inv (interp p) \<and> module_state_ok (logging p) \<and>
     dict_keys (buffers (bufrouter p)) = dict_keys (contexts (interp p)) \<and>
     rt_max_streams (bufrouter p) = max_streams (interp p) \<and> rt_dropped (bufrouter p) = 0 \<and>
     (\<forall>k. fold next_context (stream_recs k rs) None = map_of (contexts (interp p)) k) \<and>
     (\<forall>k. map snd (arrivals env (rt_flush_fields (bufrouter p)) None (stream_recs k rs))
        = filter filled (delivered_recs k rs))"

text \<open>What is left of it after an exception of the callback.\<close>

definition pipe_cut ::
  "('f, 'w) env \<Rightarrow> (pyval \<Rightarrow> bytes \<Rightarrow> 'f) \<Rightarrow> pipeline \<Rightarrow> 'f unit_rec list \<Rightarrow> packet_record option list \<Rightarrow> bool" where
  "pipe_cut env item p us rs \<longleftrightarrow>
     router_cut env item (bufrouter p) us rs \<and> rt_dropped (bufrouter p) = 0 \<and>
     (\<forall>k. map snd (arrivals env (rt_flush_fields (bufrouter p)) None (stream_recs k rs))
        = filter filled (delivered_recs k rs))"

lemma pipe_inv_cut: "pipe_inv env item p us rs \<Longrightarrow> pipe_cut env item p us rs"
  by (simp add: pipe_inv_def pipe_cut_def router_inv_cut)

lemma fresh_pipeline_inv: "pipe_inv env item (fresh_pipeline n age fs m) [] []"
proof -
  have "router_inv env item (new_router n age fs m) [] []" by (rule new_router_inv)
  then show ?thesis
    unfolding pipe_inv_def fresh_pipeline_def
    by (simp add: new_router_def new_interpreter_def new_interpreter_inv [unfolded new_interpreter_def])
qed

text \<open>The outcome of a step of the loop: the invariant, or what is left of it with the exception of the
  callback.\<close>

definition pipe_advances ::
  "('f, 'w) env \<Rightarrow> (pyval \<Rightarrow> bytes \<Rightarrow> 'f) \<Rightarrow> ('w \<Rightarrow> 'f unit_rec list) \<Rightarrow> 'f unit_rec list \<Rightarrow>
     packet_record option list \<Rightarrow> pipeline \<Rightarrow> 'w \<Rightarrow> packet_record option list \<Rightarrow> interpreter \<Rightarrow> module_state \<Rightarrow>
     (pipeline, 'w) outcome \<Rightarrow> bool" where
  "pipe_advances env item sent us rs p w new s g out \<longleftrightarrow>
     (\<exists>e p' w' news. out = (e, p', w') \<and> sent w' = sent w @ news \<and> interp p' = s \<and> logging p' = g \<and>
        settings (bufrouter p') = settings (bufrouter p) \<and>
        (case e of None \<Rightarrow> pipe_inv env item p' (us @ news) (rs @ new)
         | Some x \<Rightarrow> raised_on env news x \<and> pipe_cut env item p' (us @ news) (rs @ new)))"

lemma pipe_advancesI:
  "out = (e, p', w') \<Longrightarrow> sent w' = sent w @ news \<Longrightarrow> interp p' = s \<Longrightarrow> logging p' = g \<Longrightarrow>
     settings (bufrouter p') = settings (bufrouter p) \<Longrightarrow>
     (e = None \<Longrightarrow> pipe_inv env item p' (us @ news) (rs @ new)) \<Longrightarrow>
     (\<And>x. e = Some x \<Longrightarrow> raised_on env news x \<and> pipe_cut env item p' (us @ news) (rs @ new)) \<Longrightarrow>
     pipe_advances env item sent us rs p w new s g out"
  unfolding pipe_advances_def by (cases e) auto

text \<open>A record of the interpreter meets the router: it is admitted, and the invariant advances.\<close>

lemma deliver_advances:
  assumes env: "env_logs env item sent" and np: "numpy_formats env"
    and st: "interp_step i s (Some r) s'" and g: "module_state_ok g'"
    and inv: "pipe_inv env item p us rs" and s: "interp p = s"
  shows "pipe_advances env item sent us rs p w [Some r] s' g'
    (run_router (router_push env (Some r)) (p\<lparr>interp := s', logging := g'\<rparr>) w)"
proof -
  let ?rt = "bufrouter p" and ?sid = "md_stream_id (rec_metadata r)"
  note parts = inv [unfolded pipe_inv_def s]
  from router_push_reaches [OF env _ conjunct1 [OF parts], of "Some r" w] step_record_typed [OF st]
  obtain e rt' w' news where push: "router_push env (Some r) ?rt w = (e, rt', w')"
    "settings rt' = settings ?rt" "sent w' = sent w @ news"
    "case e of None \<Rightarrow> router_inv env item rt' (us @ news) (rs @ [Some r])
     | Some x \<Rightarrow> raised_on env news x \<and> router_cut env item rt' (us @ news) (rs @ [Some r])"
    unfolding router_reaches_def by auto
  have set': "rt_max_streams rt' = rt_max_streams ?rt" "rt_flush_fields rt' = rt_flush_fields ?rt"
    using push(2) by (simp_all add: settings_def)
  have keys: "dict_keys (buffers ?rt) = dict_keys (contexts s)" and max: "rt_max_streams ?rt = max_streams s"
    and nodrop: "rt_dropped ?rt = 0" and ctxs: "\<And>k. fold next_context (stream_recs k rs) None = map_of (contexts s) k"
    and arrived: "\<And>k. map snd (arrivals env (rt_flush_fields ?rt) None (stream_recs k rs))
        = filter filled (delivered_recs k rs)"
    and ii: "interp_inv s"
    using parts by blast+
  have len: "length (buffers ?rt) = length (contexts s)" using arg_cong [OF keys, of length] by simp
  have st': "interp_inv s'" using st ii by (rule interp_step_inv)
  have os: "of_stream k (Some r) \<longleftrightarrow> k = ?sid" for k by (auto simp: of_stream_def)
  have "rt_dropped rt' = 0 \<and> dict_keys (buffers rt') = dict_keys (contexts s') \<and> max_streams s' = max_streams s \<and>
    (\<forall>k. next_context (Some r) (map_of (contexts s) ?sid) = map_of (contexts s') ?sid \<and>
       (k \<noteq> ?sid \<longrightarrow> map_of (contexts s') k = map_of (contexts s) k)) \<and>
    map snd (arrival_of env (rt_flush_fields ?rt) (map_of (contexts s) ?sid) (Some r))
      = (if is_data r \<and> filled r then [r] else [])"
    using st
  proof (cases rule: interp_step_SomeE [consumes 1])
    case (1 b hdr sid g ctx)
    then have sid: "?sid = Some sid" "rec_type r = ''context''" "rec_context r = Some ctx"
      by (simp_all add: make_metadata_def)
    have room: "?sid \<in> set (dict_keys (buffers ?rt)) \<or> int (length (buffers ?rt)) < rt_max_streams ?rt"
      unfolding keys max len sid using 1 by simp
    from 1 have s': "contexts s' = dict_set (Some sid) ctx (contexts s)" "max_streams s' = max_streams s" by simp_all
    from router_push_admits [OF push(1) refl room] show ?thesis
      unfolding keys nodrop sid(1) s'
      by (auto simp: sid(2,3) dict_keys_set next_context_def arrival_of_def is_data_def simp del: list.set_map
          split: option.split)
  next
    case (2 b hdr sid ctx dt bps cplx g body n)
    then have sid: "?sid = Some sid" "rec_type r = ''data''" "is_data r"
      by (simp_all add: make_metadata_def is_data_def)
    from delivered_usable [OF np st sid(3)] obtain c where c: "map_of (contexts s) ?sid = Some c"
      "\<not> unsupported_ctx c" "contexts s' = contexts s" "usable env r \<longleftrightarrow> filled r" by blast
    from c(1) have k: "?sid \<in> set (dict_keys (buffers ?rt))" unfolding keys by (rule map_of_Some_keys)
    then have room: "?sid \<in> set (dict_keys (buffers ?rt)) \<or> int (length (buffers ?rt)) < rt_max_streams ?rt" ..
    from 2 have "max_streams s' = max_streams s" by simp
    with router_push_admits [OF push(1) refl room] k c show ?thesis
      unfolding keys nodrop by (auto simp: sid(2,3) next_context_def arrival_of_def simp del: list.set_map)
  qed
  then have post: "rt_dropped rt' = 0" "dict_keys (buffers rt') = dict_keys (contexts s')" "max_streams s' = max_streams s"
    "next_context (Some r) (map_of (contexts s) ?sid) = map_of (contexts s') ?sid"
    "\<And>k. k \<noteq> ?sid \<Longrightarrow> map_of (contexts s') k = map_of (contexts s) k"
    "map snd (arrival_of env (rt_flush_fields ?rt) (map_of (contexts s) ?sid) (Some r))
      = (if is_data r \<and> filled r then [r] else [])" by blast+
  have ctxs': "fold next_context (stream_recs k (rs @ [Some r])) None = map_of (contexts s') k" for k
    using post(4) post(5) [of k] ctxs by (cases "k = ?sid") (simp_all add: os)
  have arrived': "map snd (arrivals env (rt_flush_fields rt') None (stream_recs k (rs @ [Some r])))
      = filter filled (delivered_recs k (rs @ [Some r]))" for k
  proof (cases "k = ?sid")
    case True
    then have "arrivals env (rt_flush_fields ?rt) None (stream_recs k (rs @ [Some r]))
        = arrivals env (rt_flush_fields ?rt) None (stream_recs k rs)
          @ arrival_of env (rt_flush_fields ?rt) (map_of (contexts s) ?sid) (Some r)"
      by (simp add: os arrivals_append ctxs)
    then show ?thesis
      unfolding set'(2) using arrived [of k] post(6) True by (simp add: delivered_recs_def)
  next
    case False
    then have "delivered_recs k [Some r] = []" by (auto simp: delivered_recs_def)
    with False arrived [of k] show ?thesis by (simp add: os set'(2))
  qed
  let ?p = "p\<lparr>interp := s', logging := g', bufrouter := rt'\<rparr>"
  show ?thesis
  proof (rule pipe_advancesI [where e = e and p' = ?p and w' = w' and news = news])
    show "run_router (router_push env (Some r)) (p\<lparr>interp := s', logging := g'\<rparr>) w = (e, ?p, w')"
      using push(1) by (simp add: run_router_def)
  next
    assume "e = None"
    with push(4) st' g post(1-3) max set'(1) ctxs' arrived'
    show "pipe_inv env item ?p (us @ news) (rs @ [Some r])"
      unfolding pipe_inv_def by simp
  next
    fix x assume "e = Some x"
    with push(4) post(1) arrived'
    show "raised_on env news x \<and> pipe_cut env item ?p (us @ news) (rs @ [Some r])"
      unfolding pipe_cut_def by simp
  qed (use push(2,3) in simp_all)
qed

section \<open>Iterations\<close>

context stream_op begin

lemma visit_pipe:
  assumes env: "env_logs env item sent" and inv: "pipe_inv env item p us rs"
  shows "\<exists>e p' w' news. run_router (visit_all (op env)) p w = (e, p', w') \<and> sent w' = sent w @ news \<and>
    interp p' = interp p \<and> logging p' = logging p \<and> settings (bufrouter p') = settings (bufrouter p) \<and>
    pipe_inv env item p' (us @ news) rs \<and> (\<forall>x. e = Some x \<longrightarrow> raised_on env news x)"
proof -
  note parts = inv [unfolded pipe_inv_def]
  from visit_all_keeps [OF env conjunct1 [OF parts], of w] obtain e rt' w' news where v:
    "visit_all (op env) (bufrouter p) w = (e, rt', w')" "settings rt' = settings (bufrouter p)"
    "sent w' = sent w @ news" "router_inv env item rt' (us @ news) rs" "\<forall>x. e = Some x \<longrightarrow> raised_on env news x"
    by blast
  have "pipe_inv env item (p\<lparr>bufrouter := rt'\<rparr>) (us @ news) rs"
    using parts v(2,4) visit_all_table [OF v(1)] visit_all_dropped [OF v(1)]
    by (simp add: pipe_inv_def settings_def del: list.set_map)
  with v show ?thesis
    by (intro exI [of _ e] exI [of _ "p\<lparr>bufrouter := rt'\<rparr>"] exI [of _ w'] exI [of _ news]) (simp add: run_router_def)
qed

lemma visit_pipe_cut:
  assumes env: "env_logs env item sent" and cut: "pipe_cut env item p us rs"
  shows "\<exists>e p' w' news. run_router (visit_all (op env)) p w = (e, p', w') \<and> sent w' = sent w @ news \<and>
    interp p' = interp p \<and> logging p' = logging p \<and> settings (bufrouter p') = settings (bufrouter p) \<and>
    pipe_cut env item p' (us @ news) rs \<and> (\<forall>x. e = Some x \<longrightarrow> raised_on env news x)"
proof -
  note parts = cut [unfolded pipe_cut_def]
  from visit_all_cut [OF env conjunct1 [OF parts], of w] obtain e rt' w' news where v:
    "visit_all (op env) (bufrouter p) w = (e, rt', w')" "settings rt' = settings (bufrouter p)"
    "sent w' = sent w @ news" "router_cut env item rt' (us @ news) rs" "\<forall>x. e = Some x \<longrightarrow> raised_on env news x"
    by blast
  have "pipe_cut env item (p\<lparr>bufrouter := rt'\<rparr>) (us @ news) rs"
    using parts v(2,4) visit_all_dropped [OF v(1)] by (simp add: pipe_cut_def settings_def)
  with v show ?thesis
    by (intro exI [of _ e] exI [of _ "p\<lparr>bufrouter := rt'\<rparr>"] exI [of _ w'] exI [of _ news]) (simp add: run_router_def)
qed

lemma visit_advances:
  assumes "env_logs env item sent" "pipe_inv env item p us rs"
  shows "pipe_advances env item sent us rs p w [] (interp p) (logging p) (run_router (visit_all (op env)) p w)"
  using visit_pipe [OF assms, of w] pipe_inv_cut
  by (elim exE conjE, intro pipe_advancesI) auto

end

lemma age_pipe:
  "env_logs env item sent \<Longrightarrow> pipe_inv env item p us rs \<Longrightarrow>
     pipe_advances env item sent us rs p w [] (interp p) (logging p) (run_router (router_age env) p w)"
  unfolding router_age_def by (rule age_op.visit_advances)

lemma pipe_advances_then:
  assumes "pipe_advances env item sent us rs p w n1 s g out"
    and "\<And>p1 w1 us1. pipe_inv env item p1 us1 (rs @ n1) \<Longrightarrow> interp p1 = s \<Longrightarrow> logging p1 = g \<Longrightarrow>
      pipe_advances env item sent us1 (rs @ n1) p1 w1 [] s g (f p1 w1)"
  shows "pipe_advances env item sent us rs p w n1 s g (and_then out f)"
proof -
  from assms(1) obtain e p1 w1 news where o1: "out = (e, p1, w1)" "sent w1 = sent w @ news" "interp p1 = s"
    "logging p1 = g" "settings (bufrouter p1) = settings (bufrouter p)"
    "case e of None \<Rightarrow> pipe_inv env item p1 (us @ news) (rs @ n1)
     | Some x \<Rightarrow> raised_on env news x \<and> pipe_cut env item p1 (us @ news) (rs @ n1)"
    unfolding pipe_advances_def by blast
  show ?thesis
  proof (cases e)
    case (Some x)
    with o1 show ?thesis by (intro pipe_advancesI [where e = e and p' = p1 and w' = w1 and news = news]) simp_all
  next
    case None
    with o1(6) have "pipe_inv env item p1 (us @ news) (rs @ n1)" by simp
    from assms(2) [OF this o1(3,4), of w1] obtain e' p2 w2 news2 where o2: "f p1 w1 = (e', p2, w2)"
      "sent w2 = sent w1 @ news2" "interp p2 = s" "logging p2 = g"
      "settings (bufrouter p2) = settings (bufrouter p1)"
      "case e' of None \<Rightarrow> pipe_inv env item p2 ((us @ news) @ news2) ((rs @ n1) @ [])
       | Some x \<Rightarrow> raised_on env news2 x \<and> pipe_cut env item p2 ((us @ news) @ news2) ((rs @ n1) @ [])"
      unfolding pipe_advances_def by blast
    with o1 None show ?thesis
      by (intro pipe_advancesI [where e = e' and p' = p2 and w' = w2 and news = "news @ news2"])
        (simp_all add: raised_on_append)
  qed
qed

lemma router_inv_None: "router_inv env item rt us (rs @ [None]) = router_inv env item rt us rs"
  by (simp add: router_inv_def of_stream_def)

lemma process_none_inv:
  assumes inv: "pipe_inv env item p us rs" and st: "interp_step i (interp p) None s'" and g: "module_state_ok g'"
  shows "pipe_inv env item (p\<lparr>interp := s', logging := g'\<rparr>) us (rs @ [None])"
proof -
  have same: "same_tables (interp p) s'" using st by (rule interp_step_NoneE)
  have "interp_inv s'" using st inv by (auto simp: pipe_inv_def intro: interp_step_inv)
  with inv g same show ?thesis
    by (simp add: pipe_inv_def router_inv_None same_tables_def of_stream_def delivered_recs_def del: list.set_map)
qed

lemma iteration_advances:
  assumes env: "env_logs env item sent" and np: "numpy_formats env" and inv: "pipe_inv env item p us rs"
    and pr: "process_all (case got of None \<Rightarrow> [] | Some i \<Rightarrow> [i]) (interp p) (logging p) = (new, s', g')"
  shows "pipe_advances env item sent us rs p w new s' g' (iteration env got p w)"
proof (cases got)
  case None
  with pr age_pipe [OF env inv] show ?thesis by (auto simp: iteration_def)
next
  case (Some i)
  obtain rec where p: "process i (interp p) (logging p) = (rec, s', g')" and new: "new = [rec]"
    using pr Some by (auto split: prod.splits)
  have "module_state_ok (logging p)" "contexts_wf (interp p)"
    using inv by (auto simp: pipe_inv_def interp_inv_def)
  from process_refines_step [OF this p] have st: "interp_step i (interp p) rec s'" and g: "module_state_ok g'"
    by simp_all
  let ?p1 = "p\<lparr>interp := s', logging := g'\<rparr>"
  let ?push = "case rec of None \<Rightarrow> (None, ?p1, w) | Some r \<Rightarrow> run_router (router_push env (Some r)) ?p1 w"
  have "pipe_advances env item sent us rs p w new s' g' ?push"
  proof (cases rec)
    case None
    with st process_none_inv [OF inv _ g] have "pipe_inv env item ?p1 us (rs @ [None])" by simp
    with None new show ?thesis
      by (intro pipe_advancesI [where e = None and p' = ?p1 and w' = w and news = "[]"]) simp_all
  next
    case r: (Some r)
    with deliver_advances [OF env np st [unfolded r] g inv refl, of w] new show ?thesis by simp
  qed
  then have "pipe_advances env item sent us rs p w new s' g' (and_then ?push (run_router (router_age env)))"
  proof (rule pipe_advances_then)
    fix p1 w1 us1
    assume "pipe_inv env item p1 us1 (rs @ new)" "interp p1 = s'" "logging p1 = g'"
    with age_pipe [OF env, of p1 us1 "rs @ new" w1]
    show "pipe_advances env item sent us1 (rs @ new) p1 w1 [] s' g' (run_router (router_age env) p1 w1)" by simp
  qed
  with Some p show ?thesis by (simp add: iteration_def Let_def)
qed

section \<open>The running system\<close>

lemma process_all_split:
  "process_all xs s g = (rs, s1, g1) \<Longrightarrow> process_all ys s1 g1 = (rs', s2, g2) \<Longrightarrow>
     process_all (xs @ ys) s g = (rs @ rs', s2, g2)"
  by (simp add: process_all_append)

definition drained :: "pipeline \<Rightarrow> bool" where
  "drained p \<longleftrightarrow> (\<forall>k b. map_of (buffers (bufrouter p)) k = Some b \<longrightarrow> chunks b = [])"

text \<open>Where a run stands: while it loops the invariant holds; ended without an exception, the buffers
  are empty besides; ended with one, the callback raised it on a unit it was given.\<close>

definition phase_ok ::
  "('f, 'w) env \<Rightarrow> (pyval \<Rightarrow> bytes \<Rightarrow> 'f) \<Rightarrow> pipeline \<Rightarrow> 'f unit_rec list \<Rightarrow> packet_record option list \<Rightarrow>
     phase \<Rightarrow> bool" where
  "phase_ok env item p us rs ph \<longleftrightarrow> (case ph of
       Looping \<Rightarrow> pipe_inv env item p us rs
     | Finished None \<Rightarrow> pipe_inv env item p us rs \<and> drained p
     | Finished (Some x) \<Rightarrow> raised_on env us x \<and> pipe_cut env item p us rs)"

definition sys_at ::
  "('f, 'w) env \<Rightarrow> (pyval \<Rightarrow> bytes \<Rightarrow> 'f) \<Rightarrow> ('w \<Rightarrow> 'f unit_rec list) \<Rightarrow> router \<Rightarrow> int \<Rightarrow> 'w \<Rightarrow>
     raw_item list \<Rightarrow> 'w system \<Rightarrow> packet_record option list \<Rightarrow> 'f unit_rec list \<Rightarrow> bool" where
  "sys_at env item sent rt0 m w0 is s rs news \<longleftrightarrow>
     process_all is (new_interpreter m) new_module_state = (rs, interp (pipe s), logging (pipe s)) \<and>
     sent (world s) = sent w0 @ news \<and> settings (bufrouter (pipe s)) = settings rt0 \<and>
     phase_ok env item (pipe s) news rs (phase s)"

lemma flush_all_drains:
  assumes "run_router (flush_all env) p w = (None, p', w')"
  shows "drained p'"
proof -
  from assms obtain bs where "for_each (flush env) (buffers (bufrouter p)) w = (None, bs, w')"
    "buffers (bufrouter p') = bs"
    by (auto simp: run_router_def flush_all_def visit_all_def split: prod.splits)
  then show ?thesis
    unfolding drained_def by (auto dest: map_of_SomeD for_each_flush_empties)
qed

lemma finish_at:
  assumes env: "env_logs env item sent"
    and at: "process_all is (new_interpreter m) new_module_state = (rs, interp (pipe s), logging (pipe s))"
      "sent (world s) = sent w0 @ news" "settings (bufrouter (pipe s)) = settings rt0"
    and e: "case e of None \<Rightarrow> pipe_inv env item (pipe s) news rs
      | Some x \<Rightarrow> raised_on env news x \<and> pipe_cut env item (pipe s) news rs"
  shows "\<exists>news'. sys_at env item sent rt0 m w0 is (finish env e s) rs news'"
proof -
  have cut: "pipe_cut env item (pipe s) news rs" using e pipe_inv_cut by (cases e) auto
  from flush_op.visit_pipe_cut [OF env cut, of "world s"] obtain e' p' w' news' where f:
    "run_router (flush_all env) (pipe s) (world s) = (e', p', w')" "sent w' = sent (world s) @ news'"
    "interp p' = interp (pipe s)" "logging p' = logging (pipe s)"
    "settings (bufrouter p') = settings (bufrouter (pipe s))" "pipe_cut env item p' (news @ news') rs"
    "\<forall>x. e' = Some x \<longrightarrow> raised_on env news' x"
    unfolding flush_all_def by blast
  have "phase_ok env item p' (news @ news') rs (Finished (case e' of None \<Rightarrow> e | Some _ \<Rightarrow> e'))"
  proof (cases "e' = None \<and> e = None")
    case True
    with e have "pipe_inv env item (pipe s) news rs" by simp
    from flush_op.visit_pipe [OF env this, of "world s"] f(1,2) have "pipe_inv env item p' (news @ news') rs"
      unfolding flush_all_def by auto
    with True flush_all_drains [of env "pipe s" "world s"] f(1) show ?thesis by (simp add: phase_ok_def)
  next
    case False
    with e f(6,7) show ?thesis by (cases e'; cases e) (auto simp: phase_ok_def raised_on_append)
  qed
  with at f show ?thesis
    unfolding sys_at_def by (intro exI [of _ "news @ news'"]) (simp add: finish_def)
qed

lemma loop_turn_at:
  assumes env: "env_logs env item sent" and np: "numpy_formats env"
    and at: "sys_at env item sent rt0 m w0 is s rs news" and ph: "phase s = Looping"
    and got: "new = (case got of None \<Rightarrow> [] | Some i \<Rightarrow> [i])"
  shows "\<exists>rs' news'. sys_at env item sent rt0 m w0 (is @ new) (loop_turn env got s) rs' news'"
proof -
  from at ph have i: "process_all is (new_interpreter m) new_module_state = (rs, interp (pipe s), logging (pipe s))"
    "sent (world s) = sent w0 @ news" "settings (bufrouter (pipe s)) = settings rt0" "pipe_inv env item (pipe s) news rs"
    by (simp_all add: sys_at_def phase_ok_def)
  obtain nr s' g' where pr: "process_all new (interp (pipe s)) (logging (pipe s)) = (nr, s', g')"
    by (metis prod_cases3)
  from iteration_advances [OF env np i(4) pr [unfolded got], of "world s"] obtain e p' w' news' where t:
    "iteration env got (pipe s) (world s) = (e, p', w')" "sent w' = sent (world s) @ news'"
    "interp p' = s'" "logging p' = g'" "settings (bufrouter p') = settings (bufrouter (pipe s))"
    "case e of None \<Rightarrow> pipe_inv env item p' (news @ news') (rs @ nr)
     | Some x \<Rightarrow> raised_on env news' x \<and> pipe_cut env item p' (news @ news') (rs @ nr)"
    unfolding pipe_advances_def by blast
  let ?s1 = "s\<lparr>pipe := p', world := w'\<rparr>"
  have before: "process_all (is @ new) (new_interpreter m) new_module_state = (rs @ nr, interp (pipe ?s1), logging (pipe ?s1))"
    "sent (world ?s1) = sent w0 @ news @ news'" "settings (bufrouter (pipe ?s1)) = settings rt0"
    using process_all_split [OF i(1) pr] i(2,3) t(2-5) by simp_all
  show ?thesis
  proof (cases e)
    case None
    with t ph before show ?thesis
      unfolding sys_at_def by (intro exI [of _ "rs @ nr"] exI [of _ "news @ news'"]) (simp add: loop_turn_def Let_def phase_ok_def)
  next
    case (Some x)
    with t(6) have "case e of None \<Rightarrow> pipe_inv env item (pipe ?s1) (news @ news') (rs @ nr)
      | Some x \<Rightarrow> raised_on env (news @ news') x \<and> pipe_cut env item (pipe ?s1) (news @ news') (rs @ nr)"
      by (simp add: raised_on_append)
    from finish_at [OF env before this] Some t(1) show ?thesis by (auto simp: loop_turn_def Let_def)
  qed
qed

lemma sys_run_at:
  assumes run: "sys_run env (init_system q (fresh_pipeline n age fs m) w) is s"
    and env: "env_logs env item sent" and np: "numpy_formats env"
  shows "\<exists>rs news. sys_at env item sent (new_router n age fs m) m w is s rs news"
  using run
proof (induction rule: sys_run.induct)
  case start
  show ?case
    unfolding sys_at_def
    by (intro exI [of _ "[]"])
      (simp add: init_system_def phase_ok_def fresh_pipeline_inv, simp add: fresh_pipeline_def)
next
  case (loop "is" s new s')
  from loop.IH obtain rs news where at: "sys_at env item sent (new_router n age fs m) m w is s rs news" by blast
  have q: "sys_at env item sent (new_router n age fs m) m w is (s\<lparr>raw := q'\<rparr>) rs news" for q'
    using at by (simp add: sys_at_def)
  have fin: "\<exists>news'. sys_at env item sent (new_router n age fs m) m w is (finish env None (s\<lparr>raw := q'\<rparr>)) rs news'" for q'
    using finish_at [OF env, of "is" m rs "s\<lparr>raw := q'\<rparr>" w news "new_router n age fs m" None] q [of q'] loop.hyps(2)
    by (simp add: sys_at_def phase_ok_def)
  show ?case
  proof (cases "stop_set s")
    case True
    have "s\<lparr>raw := raw s\<rparr> = s" by simp
    with True loop fin [of "raw s"] show ?thesis by (auto simp: loop_step_def)
  next
    case False
    obtain got q' where g: "queue_get (raw s) = (got, q')" by force
    note turn = loop_turn_at [OF env np q [of q']]
    consider "got = None" | "got = Some SHUTDOWN" | i where "got = Some (Item i)"
      by (cases got rule: option.exhaust) (auto intro: queue_item.exhaust)
    then show ?thesis
    proof cases
      case 1
      with False g loop turn [of "[]" None] show ?thesis by (auto simp: loop_step_def)
    next
      case 2
      with False g loop fin [of q'] show ?thesis by (auto simp: loop_step_def)
    next
      case (3 i)
      with False g loop turn [of "[i]" "Some i"] show ?thesis by (auto simp: loop_step_def)
    qed
  qed
qed (auto simp: sys_at_def)

text \<open>Under a callback that does not raise.\<close>

definition sys_inv ::
  "('f, 'w) env \<Rightarrow> (pyval \<Rightarrow> bytes \<Rightarrow> 'f) \<Rightarrow> ('w \<Rightarrow> 'f unit_rec list) \<Rightarrow> router \<Rightarrow> int \<Rightarrow> 'w \<Rightarrow>
     raw_item list \<Rightarrow> 'w system \<Rightarrow> bool" where
  "sys_inv env item sent rt0 m w0 is s \<longleftrightarrow>
     (\<exists>rs news. process_all is (new_interpreter m) new_module_state = (rs, interp (pipe s), logging (pipe s)) \<and>
        sent (world s) = sent w0 @ news \<and> settings (bufrouter (pipe s)) = settings rt0 \<and>
        pipe_inv env item (pipe s) news rs \<and>
        (phase s = Looping \<or> phase s = Finished None \<and> drained (pipe s)))"

lemma sys_run_inv:
  assumes run: "sys_run env (init_system q (fresh_pipeline n age fs m) w) is s"
    and env: "env_ok env item sent" and np: "numpy_formats env"
  shows "sys_inv env item sent (new_router n age fs m) m w is s"
proof -
  from sys_run_at [OF run env_okD [OF env] np] obtain rs news where
    at: "sys_at env item sent (new_router n age fs m) m w is s rs news" by blast
  have "phase_ok env item (pipe s) news rs (phase s)" using at by (simp add: sys_at_def)
  then have "pipe_inv env item (pipe s) news rs \<and> (phase s = Looping \<or> phase s = Finished None \<and> drained (pipe s))"
    using env_ok_silent [OF env] unfolding phase_ok_def by (auto split: phase.splits option.splits)
  with at show ?thesis unfolding sys_inv_def sys_at_def by blast
qed

section \<open>The end-to-end theorem\<close>

lemma no_context_no_arrivals:
  "fold next_context xs c = None \<Longrightarrow> c = None \<and> arrivals env fs c xs = []"
proof (induction xs arbitrary: c)
  case (Cons rec xs)
  then have "next_context rec c = None" "arrivals env fs (next_context rec c) xs = []" by auto
  then have "c = None" by (auto simp: next_context_def split: option.splits if_splits)
  with Cons show ?case by (simp add: arrival_of_def split: option.split)
qed simp

definition emitted_items :: "int option \<Rightarrow> 'f unit_rec list \<Rightarrow> 'f list" where
  "emitted_items k us = concat (map (\<lambda>u. samples_items (u_samples u)) (units_of k us))"

text \<open>The records delivered on a stream are the ones in its emitted windows, then those in its open one.\<close>

lemma pipe_inv_windows:
  assumes "pipe_inv env item p us rs"
  obtains ws os where "filter filled (delivered_recs k rs) = map snd (concat ws @ os)"
    "list_all2 (unit_ok env item (rt_flush_fields (bufrouter p))) ws (units_of k us)" "drained p \<Longrightarrow> os = []"
proof -
  let ?fs = "rt_flush_fields (bufrouter p)"
  have inv: "router_inv env item (bufrouter p) us rs"
    "dict_keys (buffers (bufrouter p)) = dict_keys (contexts (interp p))"
    "fold next_context (stream_recs k rs) None = map_of (contexts (interp p)) k"
    "map snd (arrivals env ?fs None (stream_recs k rs)) = filter filled (delivered_recs k rs)"
    using assms unfolding pipe_inv_def by blast+
  show thesis
  proof (cases "map_of (buffers (bufrouter p)) k")
    case None
    with inv(1) have "units_of k us = []" by (simp add: router_inv_def)
    moreover have "map_of (contexts (interp p)) k = None"
      using None unfolding map_of_None_iff_keys inv(2) .
    with inv(3) no_context_no_arrivals [of "stream_recs k rs" None env ?fs]
    have "arrivals env ?fs None (stream_recs k rs) = []" by simp
    ultimately show thesis using that [of "[]" "[]"] inv(4) by simp
  next
    case (Some b)
    with inv(1) have "config b = (rt_max_samples (bufrouter p), rt_max_age_s (bufrouter p), k, ?fs)"
      "win_inv env item b (units_of k us) (arrivals env ?fs None (stream_recs k rs))"
      unfolding router_inv_def by blast+
    then obtain ws os where w: "arrivals env ?fs None (stream_recs k rs) = concat ws @ os"
      "list_all2 (unit_ok env item ?fs) ws (units_of k us)" "open_ok env os b"
      unfolding win_inv_def by (auto simp: config_def)
    moreover have "os = []" if "drained p"
      using that Some w(3) by (auto simp: drained_def open_ok_def)
    ultimately show thesis using that [of ws os] inv(4) by simp
  qed
qed

lemma pipe_inv_items:
  assumes "pipe_inv env item p us rs"
  shows "prefix (emitted_items k us) (delivered_items item k rs)"
    "drained p \<Longrightarrow> emitted_items k us = delivered_items item k rs"
proof -
  obtain ws os where w: "filter filled (delivered_recs k rs) = map snd (concat ws @ os)"
    "list_all2 (unit_ok env item (rt_flush_fields (bufrouter p))) ws (units_of k us)" "drained p \<Longrightarrow> os = []"
    using pipe_inv_windows [OF assms] by blast
  have snd_items: "concat (map (rec_items item) (map snd xs)) = concat (map (\<lambda>(l, r). rec_items item r) xs)" for xs :: "arrival list"
    by (simp add: case_prod_unfold comp_def)
  have "delivered_items item k rs = emitted_items k us @ concat (map (\<lambda>(l, r). rec_items item r) os)"
    unfolding delivered_items_recs w(1) snd_items using windows_items [OF w(2)] by (simp add: emitted_items_def)
  with w(3) show "prefix (emitted_items k us) (delivered_items item k rs)"
    "drained p \<Longrightarrow> emitted_items k us = delivered_items item k rs" by auto
qed

lemma pipe_cut_windows:
  assumes "pipe_cut env item p us rs" "map_of (buffers (bufrouter p)) k = Some b"
  obtains ws more where "arrivals env (rt_flush_fields (bufrouter p)) None (stream_recs k rs) = concat ws @ more"
    "list_all2 (unit_ok env item (rt_flush_fields (bufrouter p))) ws (units_of k us)"
    "filter filled (delivered_recs k rs) = map snd (concat ws @ more)"
proof -
  let ?fs = "rt_flush_fields (bufrouter p)"
  from assms obtain arr where arr: "router_wins env item (bufrouter p) us arr"
    "prefix (arr k) (arrivals env ?fs None (stream_recs k rs))"
    "map snd (arrivals env ?fs None (stream_recs k rs)) = filter filled (delivered_recs k rs)"
    unfolding pipe_cut_def router_cut_def by blast
  from arr(1) assms(2) have "config b = (rt_max_samples (bufrouter p), rt_max_age_s (bufrouter p), k, ?fs)"
    "win_inv env item b (units_of k us) (arr k)"
    unfolding router_wins_def by blast+
  then obtain ws os where w: "arr k = concat ws @ os" "list_all2 (unit_ok env item ?fs) ws (units_of k us)"
    unfolding win_inv_def by (auto simp: config_def)
  with arr(2) obtain more where "arrivals env ?fs None (stream_recs k rs) = concat ws @ more"
    by (auto simp: prefix_def)
  with that w(2) arr(3) show thesis by metis
qed

text \<open>Every unit handed out is a window of accepted records.\<close>

lemma pipe_cut_unit:
  assumes cut: "pipe_cut env item p us rs" and u: "u \<in> set us"
  obtains os where "unit_ok env item (rt_flush_fields (bufrouter p)) os u"
    "set os \<subseteq> set (arrivals env (rt_flush_fields (bufrouter p)) None (stream_recs (u_stream_id u) rs))"
proof -
  let ?k = "u_stream_id u" and ?fs = "rt_flush_fields (bufrouter p)"
  have m: "u \<in> set (units_of ?k us)" using u by (simp add: units_of_def)
  with cut obtain b where b: "map_of (buffers (bufrouter p)) ?k = Some b"
    by (cases "map_of (buffers (bufrouter p)) ?k") (auto simp: pipe_cut_def router_cut_def router_wins_def)
  from pipe_cut_windows [OF cut b] obtain ws more where w:
    "arrivals env ?fs None (stream_recs ?k rs) = concat ws @ more"
    "list_all2 (unit_ok env item ?fs) ws (units_of ?k us)" by blast
  from w(2) m obtain os where "os \<in> set ws" "unit_ok env item ?fs os u"
    by (metis in_set_conv_nth list_all2_conv_all_nth)
  with w(1) that show thesis by auto
qed

lemma pipe_cut_items:
  assumes "pipe_cut env item p us rs"
  shows "prefix (emitted_items k us) (delivered_items item k rs)"
proof (cases "map_of (buffers (bufrouter p)) k")
  case None
  with assms have "units_of k us = []" by (auto simp: pipe_cut_def router_cut_def router_wins_def)
  then show ?thesis by (simp add: emitted_items_def)
next
  case (Some b)
  obtain ws more where w: "list_all2 (unit_ok env item (rt_flush_fields (bufrouter p))) ws (units_of k us)"
    "filter filled (delivered_recs k rs) = map snd (concat ws @ more)"
    using pipe_cut_windows [OF assms Some] by blast
  have snd_items: "concat (map (rec_items item) (map snd xs)) = concat (map (\<lambda>(l, r). rec_items item r) xs)" for xs :: "arrival list"
    by (simp add: case_prod_unfold comp_def)
  have "delivered_items item k rs = emitted_items k us @ concat (map (\<lambda>(l, r). rec_items item r) more)"
    unfolding delivered_items_recs w(2) snd_items using windows_items [OF w(1)] by (simp add: emitted_items_def)
  then show ?thesis by simp
qed

lemma windows_samples:
  "list_all2 (unit_ok env item fs) ws us \<Longrightarrow>
     sum_list (map u_num_samples us) = sum_list (map rec_samples (map snd (concat ws)))"
  by (induction ws us rule: list_all2_induct) (auto simp: unit_ok_def window_ok_def rec_samples_def case_prod_unfold comp_def)

lemma pipe_inv_samples:
  assumes "pipe_inv env item p us rs" "drained p"
  shows "sum_list (map u_num_samples (units_of k us)) = delivered_samples k rs"
proof -
  obtain ws os where w: "filter filled (delivered_recs k rs) = map snd (concat ws @ os)"
    "list_all2 (unit_ok env item (rt_flush_fields (bufrouter p))) ws (units_of k us)" "drained p \<Longrightarrow> os = []"
    using pipe_inv_windows [OF assms(1)] by blast
  with assms(2) windows_samples [OF w(2)] show ?thesis by (simp add: delivered_samples_recs)
qed

text \<open>End to end. However puts, the stop event and the loop interleave, and whatever datagrams
  the loop took from the queue, nothing raises, the router refuses nothing, and on every stream the
  samples emitted so far are, in order, a prefix of the samples of the data records the interpreter
  delivered on it. Once \<open>run\<close> has ended (by the sentinel or by the event) they are all of them.\<close>

theorem pipeline_conserves:
  assumes run: "sys_run env (init_system q (fresh_pipeline n age fs m) w) is s"
    and env: "env_ok env item sent" and np: "numpy_formats env"
  shows "\<exists>rs news. process_all is (new_interpreter m) new_module_state = (rs, interp (pipe s), logging (pipe s)) \<and>
    sent (world s) = sent w @ news \<and> rt_dropped (bufrouter (pipe s)) = 0 \<and>
    (\<forall>k. prefix (emitted_items k news) (delivered_items item k rs)) \<and>
    (phase s \<noteq> Looping \<longrightarrow> phase s = Finished None \<and>
       (\<forall>k. emitted_items k news = delivered_items item k rs))"
proof -
  from sys_run_inv [OF run env np] obtain rs news where i:
    "process_all is (new_interpreter m) new_module_state = (rs, interp (pipe s), logging (pipe s))"
    "sent (world s) = sent w @ news" "pipe_inv env item (pipe s) news rs"
    "phase s = Looping \<or> phase s = Finished None \<and> drained (pipe s)"
    unfolding sys_inv_def by blast
  have "rt_dropped (bufrouter (pipe s)) = 0" using i(3) by (simp add: pipe_inv_def)
  with i pipe_inv_items [OF i(3)] show ?thesis by blast
qed

text \<open>C1: a consumer that fails. Whatever the callback does with the units it is given (it may raise on
  any of them, also during the final flush), however the run interleaves: on every stream the samples
  handed to it are, in order, without repetition or gap, a prefix of the samples of the data records
  the interpreter delivered; the router refuses nothing; \<open>run\<close> ends with an exception only if the
  callback raised exactly that one, on one of the units handed to it; and when it ends without one,
  the samples are all there.\<close>

theorem pipeline_offers_prefix:
  assumes run: "sys_run env (init_system q (fresh_pipeline n age fs m) w) is s"
    and env: "env_logs env item sent" and np: "numpy_formats env"
  shows "\<exists>rs news. process_all is (new_interpreter m) new_module_state = (rs, interp (pipe s), logging (pipe s)) \<and>
    sent (world s) = sent w @ news \<and> rt_dropped (bufrouter (pipe s)) = 0 \<and>
    (\<forall>k. prefix (emitted_items k news) (delivered_items item k rs)) \<and>
    (\<forall>x. phase s = Finished (Some x) \<longrightarrow> (\<exists>u \<in> set news. \<exists>v. fst (emit env u v) = Some x)) \<and>
    (phase s = Finished None \<longrightarrow> (\<forall>k. emitted_items k news = delivered_items item k rs))"
proof -
  from sys_run_at [OF run env np] obtain rs news where
    at: "sys_at env item sent (new_router n age fs m) m w is s rs news" by blast
  then have ph: "phase_ok env item (pipe s) news rs (phase s)"
    and i: "process_all is (new_interpreter m) new_module_state = (rs, interp (pipe s), logging (pipe s))"
      "sent (world s) = sent w @ news" by (simp_all add: sys_at_def)
  have cut: "pipe_cut env item (pipe s) news rs"
    using ph pipe_inv_cut unfolding phase_ok_def by (auto split: phase.splits option.splits)
  moreover have "emitted_items k news = delivered_items item k rs" if "phase s = Finished None" for k
    using ph that pipe_inv_items(2) unfolding phase_ok_def by auto
  moreover have "raised_on env news x" if "phase s = Finished (Some x)" for x
    using ph that unfolding phase_ok_def by auto
  ultimately show ?thesis
    using i pipe_cut_items [OF cut] unfolding raised_on_def by (intro exI conjI) (auto simp: pipe_cut_def)
qed

section \<open>A concrete run\<close>

text \<open>A context (complex float32) and two data packets of two samples each on stream 7, then the end of the
  replay: without class id and timestamps, so that the headers are eight bytes.\<close>

definition mini_context :: bytes where
  "mini_context = [0x40, 0, 0, 5, 0, 0, 0, 7, 0, 0, 0x80, 0, 0x2E, 0, 0x07, 0xDF, 0, 0, 0, 0]"

definition mini_data :: "byte \<Rightarrow> bytes \<Rightarrow> bytes" where
  "mini_data ctr payload = [0x10, ctr, 0, 4, 0, 0, 0, 7] @ payload"

definition mini_queue :: "queue_item raw_queue" where
  "mini_queue = \<lparr>maxsize = 8, queue_items =
     [Item (Datagram mini_context), Item (Datagram (mini_data 1 [0, 0, 0, 1, 0, 0, 0, 2])),
      Item (Datagram (mini_data 3 [0, 0, 0, 3, 0, 0, 0, 4])), SHUTDOWN], queue_dropped = 0\<rparr>"

definition mini_start :: "demo_world system" where
  "mini_start = init_system mini_queue (fresh_pipeline 625000 1 DEFAULT_FLUSH_FIELDS 64) (0, [])"

abbreviation mini_step :: "demo_world system \<Rightarrow> demo_world system" where
  "mini_step s \<equiv> snd (loop_step demo_env s)"

lemma mini_phases:
  "phase mini_start = Looping" "phase (mini_step mini_start) = Looping"
  "phase (mini_step (mini_step mini_start)) = Looping"
  "phase (mini_step (mini_step (mini_step mini_start))) = Looping"
  by code_simp+

definition mini_items :: "raw_item list" where
  "mini_items = [Datagram mini_context, Datagram (mini_data 1 [0, 0, 0, 1, 0, 0, 0, 2]),
     Datagram (mini_data 3 [0, 0, 0, 3, 0, 0, 0, 4])]"

lemma mini_taken:
  "fst (loop_step demo_env mini_start) @ fst (loop_step demo_env (mini_step mini_start)) @
   fst (loop_step demo_env (mini_step (mini_step mini_start))) @
   fst (loop_step demo_env (mini_step (mini_step (mini_step mini_start)))) = mini_items"
  "phase (mini_step (mini_step (mini_step (mini_step mini_start)))) = Finished None"
  by code_simp+

lemma mini_delivered:
  "delivered_items demo_item (Some 7) (fst (process_all mini_items (new_interpreter 64) new_module_state)) = [1, 2, 3, 4]"
  by code_simp

lemma sys_run_step:
  "sys_run env s0 is s \<Longrightarrow> phase s = Looping \<Longrightarrow>
     sys_run env s0 (is @ fst (loop_step env s)) (snd (loop_step env s))"
  by (rule sys_run.loop) simp_all

lemma mini_run:
  "sys_run demo_env mini_start mini_items (mini_step (mini_step (mini_step (mini_step mini_start))))"
  using sys_run_step [OF sys_run_step [OF sys_run_step [OF sys_run_step [OF sys_run.start mini_phases(1)]
      mini_phases(2)] mini_phases(3)] mini_phases(4)]
  by (simp add: mini_taken(1))

lemma demo_numpy_formats: "numpy_formats demo_env"
  by (simp add: numpy_formats_def ITEM_FORMAT_DTYPES_def demo_env_def demo_dtype_def numeric_kind_def)

theorem pipeline_conserves_witness:
  "\<exists>s. sys_run demo_env mini_start mini_items s \<and> phase s = Finished None \<and>
     emitted_items (Some 7) (snd (world s)) = [1, 2, 3, 4]"
proof -
  let ?s = "mini_step (mini_step (mini_step (mini_step mini_start)))"
  have "snd (world mini_start) = []" by (simp add: mini_start_def init_system_def)
  have run: "sys_run demo_env (init_system mini_queue (fresh_pipeline 625000 1 DEFAULT_FLUSH_FIELDS 64) (0, [])) mini_items ?s"
    using mini_run unfolding mini_start_def .
  from pipeline_conserves [OF run demo_env_ok demo_numpy_formats] mini_taken(2)
  obtain rs where "process_all mini_items (new_interpreter 64) new_module_state = (rs, interp (pipe ?s), logging (pipe ?s))"
    "emitted_items (Some 7) (snd (world ?s)) = delivered_items demo_item (Some 7) rs"
    by fastforce
  with mini_delivered have "emitted_items (Some 7) (snd (world ?s)) = [1, 2, 3, 4]" by simp
  with mini_run mini_taken(2) show ?thesis by blast
qed

text \<open>The same datagrams into windows of one sample, with a consumer that raises on its first unit.\<close>

definition fussy_env :: "(int, demo_world) env" where
  "fussy_env = demo_env\<lparr>emit := \<lambda>u (t, us). (if us = [] then Some ValueError else None, (t, us @ [u]))\<rparr>"

lemma fussy_env_logs: "env_logs fussy_env demo_item snd"
  using env_okD [OF demo_env_ok] unfolding env_logs_def numpy_ok_def by (auto simp: fussy_env_def)

lemma fussy_numpy_formats: "numpy_formats fussy_env"
  using demo_numpy_formats by (simp add: numpy_formats_def fussy_env_def)

definition fussy_start :: "demo_world system" where
  "fussy_start = init_system mini_queue (fresh_pipeline 1 1 DEFAULT_FLUSH_FIELDS 64) (0, [])"

abbreviation fussy_end :: "demo_world system" where
  "fussy_end \<equiv> snd (loop_step fussy_env (snd (loop_step fussy_env fussy_start)))"

lemma fussy_phases:
  "phase fussy_start = Looping" "phase (snd (loop_step fussy_env fussy_start)) = Looping"
  "phase fussy_end = Finished (Some ValueError)"
  "fst (loop_step fussy_env fussy_start) @ fst (loop_step fussy_env (snd (loop_step fussy_env fussy_start)))
    = [Datagram mini_context, Datagram (mini_data 1 [0, 0, 0, 1, 0, 0, 0, 2])]"
  by code_simp+

theorem pipeline_offers_prefix_witness:
  "\<exists>s. sys_run fussy_env fussy_start [Datagram mini_context, Datagram (mini_data 1 [0, 0, 0, 1, 0, 0, 0, 2])] s \<and>
     phase s = Finished (Some ValueError) \<and> prefix (emitted_items (Some 7) (snd (world s))) [1, 2] \<and>
     snd (world s) \<noteq> []"
proof -
  let ?is = "[Datagram mini_context, Datagram (mini_data 1 [0, 0, 0, 1, 0, 0, 0, 2])]"
  have run: "sys_run fussy_env fussy_start ?is fussy_end"
    using sys_run_step [OF sys_run_step [OF sys_run.start fussy_phases(1)] fussy_phases(2)] fussy_phases(4) by simp
  then have run': "sys_run fussy_env (init_system mini_queue (fresh_pipeline 1 1 DEFAULT_FLUSH_FIELDS 64) (0, [])) ?is fussy_end"
    unfolding fussy_start_def .
  have d: "delivered_items demo_item (Some 7) (fst (process_all ?is (new_interpreter 64) new_module_state)) = [1, 2]"
    by code_simp
  from pipeline_offers_prefix [OF run' fussy_env_logs fussy_numpy_formats] obtain rs news where
    o: "process_all ?is (new_interpreter 64) new_module_state = (rs, interp (pipe fussy_end), logging (pipe fussy_end))"
      "snd (world fussy_end) = snd (0 :: rat, []) @ news"
      "\<forall>k. prefix (emitted_items k news) (delivered_items demo_item k rs)"
      "\<forall>x. phase fussy_end = Finished (Some x) \<longrightarrow> (\<exists>u \<in> set news. \<exists>v. fst (emit fussy_env u v) = Some x)"
    by blast
  from o(4) fussy_phases(3) have "news \<noteq> []" by fastforce
  moreover from d o(1,3) have "prefix (emitted_items (Some 7) news) [1, 2]" by (metis fst_conv)
  ultimately show ?thesis using run fussy_phases(3) o(2) by (intro exI [of _ fussy_end]) simp
qed

theorem pipeline_exit_witness:
  "\<exists>s. sys_run demo_env mini_start mini_items s \<and> phase s \<noteq> Looping \<and> stop_set s"
proof -
  let ?s = "mini_step (mini_step (mini_step (mini_step mini_start)))"
  have "sys_run demo_env (init_system mini_queue (fresh_pipeline 625000 1 DEFAULT_FLUSH_FIELDS 64) (0, [])) mini_items ?s"
    using mini_run unfolding mini_start_def .
  from pipeline_exit [OF this] mini_run mini_taken(2) show ?thesis by (intro exI [of _ ?s]) simp
qed

end
