(* ===== verification/Jitter.thy ===== *)
theory Jitter
  imports Prelude "HOL-Library.Multiset" "HOL-Library.Product_Lexorder"
begin

text \<open>
  The jitter buffer of \<open>metrics.py\<close>: a priority queue that releases its least element whenever it
  holds more than \<open>k\<close>. The locale \<open>min_heap\<close> states what \<open>heapq\<close> promises (\<open>heappush\<close> adds an
  element, \<open>heappop\<close> removes the least); the lemma \<open>jitter_sorts\<close> says when the buffer undoes a
  reordering; the interpretation is the heap kept as its sorted list, which is all \<open>heapq\<close> lets a
  client observe.
\<close>

fun jitter_run ::
  "('a \<Rightarrow> 'h \<Rightarrow> 'h) \<Rightarrow> ('h \<Rightarrow> 'a \<times> 'h) \<Rightarrow> ('h \<Rightarrow> nat) \<Rightarrow> nat \<Rightarrow> 'a list \<Rightarrow> 'h \<Rightarrow> 'a list \<times> 'h" where
  "jitter_run push pop hsize k [] h = ([], h)"
| "jitter_run push pop hsize k (x # xs) h =
     (let h1 = push x h in
      if k < hsize h1
      then (case pop h1 of (m, h2) \<Rightarrow> (case jitter_run push pop hsize k xs h2 of (out, h3) \<Rightarrow> (m # out, h3)))
      else jitter_run push pop hsize k xs h1)"

text \<open>Every element is overtaken by at most \<open>k\<close> greater ones (\<open>seen\<close>: those that came before).\<close>

fun late_at_most :: "nat \<Rightarrow> 'a :: linorder list \<Rightarrow> 'a list \<Rightarrow> bool" where
  "late_at_most k seen [] = True"
| "late_at_most k seen (x # xs) = (length (filter (\<lambda>y. x < y) seen) \<le> k \<and> late_at_most k (x # seen) xs)"

lemma late_at_most_later:
  assumes "late_at_most k seen xs" "y \<in> set xs"
  shows "size (filter_mset (\<lambda>z. y < z) (mset seen)) \<le> k"
  using assms
proof (induction xs arbitrary: seen)
  case (Cons x xs)
  show ?case
  proof (cases "y = x")
    case True
    have "size (filter_mset (\<lambda>z. y < z) (mset seen)) = length (filter (\<lambda>z. y < z) seen)"
      by (simp flip: mset_filter)
    with True Cons.prems show ?thesis by simp
  next
    case False
    with Cons.prems Cons.IH [of "x # seen"] have "size (filter_mset (\<lambda>z. y < z) (mset (x # seen))) \<le> k"
      by (simp del: mset.simps)
    then show ?thesis by (simp split: if_splits)
  qed
qed simp

locale min_heap =
  fixes push :: "'a :: linorder \<Rightarrow> 'h \<Rightarrow> 'h" and pop :: "'h \<Rightarrow> 'a \<times> 'h"
    and hsize :: "'h \<Rightarrow> nat" and held :: "'h \<Rightarrow> 'a multiset" and ok :: "'h \<Rightarrow> bool"
  assumes ok_push: "ok h \<Longrightarrow> ok (push x h)"
    and ok_pop: "ok h \<Longrightarrow> held h \<noteq> {#} \<Longrightarrow> ok (snd (pop h))"
    and held_push: "ok h \<Longrightarrow> held (push x h) = add_mset x (held h)"
    and held_pop: "ok h \<Longrightarrow> held h \<noteq> {#} \<Longrightarrow> held h = add_mset (fst (pop h)) (held (snd (pop h)))"
    and pop_least: "ok h \<Longrightarrow> x \<in># held h \<Longrightarrow> fst (pop h) \<le> x"
    and hsize_held: "ok h \<Longrightarrow> hsize h = size (held h)"
begin

lemma jitter_props:
  assumes "ok h" "jitter_run push pop hsize k xs h = (out, h')"
  shows "ok h' \<and> mset out + held h' = held h + mset xs \<and> (size (held h) \<le> k \<longrightarrow> size (held h') \<le> k)"
  using assms
proof (induction xs arbitrary: h out)
  case (Cons x xs)
  let ?h1 = "push x h"
  have h1: "ok ?h1" "held ?h1 = add_mset x (held h)" "hsize ?h1 = Suc (size (held h))"
    using Cons.prems(1) ok_push held_push hsize_held [of ?h1] by auto
  show ?case
  proof (cases "k < hsize ?h1")
    case True
    obtain m h2 out1 where r: "pop ?h1 = (m, h2)" "jitter_run push pop hsize k xs h2 = (out1, h')" "out = m # out1"
      using Cons.prems(2) True by (auto simp: Let_def split: prod.splits)
    have "held ?h1 = add_mset m (held h2)" "ok h2"
      using held_pop [of ?h1] ok_pop [of ?h1] h1 r(1) by auto
    with Cons.IH [of h2 out1] r h1 show ?thesis by (auto dest: arg_cong [where f = size])
  next
    case False
    with Cons.prems Cons.IH [of ?h1 out] h1 show ?thesis by (auto simp: Let_def)
  qed
qed auto

lemma jitter_sorts:
  assumes "ok h" "jitter_run push pop hsize k xs h = (out, h')" "held h \<subseteq># mset seen" "late_at_most k seen xs"
  shows "out @ sorted_list_of_multiset (held h') = sorted_list_of_multiset (held h + mset xs)"
  using assms
proof (induction xs arbitrary: h seen out)
  case (Cons x xs)
  let ?h1 = "push x h"
  have h1: "ok ?h1" "held ?h1 = add_mset x (held h)" "hsize ?h1 = size (held ?h1)"
    using Cons.prems(1) ok_push held_push hsize_held [of ?h1] by auto
  have sub: "held ?h1 \<subseteq># mset (x # seen)" using Cons.prems(3) h1(2) by simp
  have late: "late_at_most k (x # seen) xs" using Cons.prems(4) by simp
  show ?case
  proof (cases "k < hsize ?h1")
    case True
    obtain m h2 out1 where r: "pop ?h1 = (m, h2)" "jitter_run push pop hsize k xs h2 = (out1, h')" "out = m # out1"
      using Cons.prems(2) True by (auto simp: Let_def split: prod.splits)
    have h2: "held ?h1 = add_mset m (held h2)" "ok h2"
      using held_pop [of ?h1] ok_pop [of ?h1] h1 r(1) by auto
    then have sub2: "held h2 \<subseteq># mset (x # seen)" using sub by (metis subset_mset.order_trans mset_subset_eq_add_mset_cancel
        mset_subset_eq_insertD subset_mset.less_imp_le)
    have le_xs: "m \<le> y" if "y \<in> set xs" for y
    proof (rule ccontr)
      assume "\<not> m \<le> y"
      then have "filter_mset (\<lambda>z. y < z) (held ?h1) = held ?h1"
        using pop_least [OF h1(1)] r(1) by (auto simp: filter_mset_eq_conv not_le intro: less_le_trans)
      then have "held ?h1 \<subseteq># filter_mset (\<lambda>z. y < z) (mset (x # seen))"
        using sub by (metis multiset_filter_mono)
      then have "size (held ?h1) \<le> k"
        using late_at_most_later [OF late that] size_mset_mono by fastforce
      with True h1(3) show False by simp
    qed
    have le_h: "m \<le> y" if "y \<in># held h2" for y
      using pop_least [OF h1(1), of y] r(1) h2(1) that by simp
    have "held h + mset (x # xs) = held ?h1 + mset xs" by (simp add: h1(2))
    also have "\<dots> = add_mset m (held h2 + mset xs)" unfolding h2(1) by simp
    finally have "sorted_list_of_multiset (held h + mset (x # xs)) = sorted_list_of_multiset (add_mset m (held h2 + mset xs))"
      by (rule arg_cong)
    also have "\<dots> = m # sorted_list_of_multiset (held h2 + mset xs)"
      using le_xs le_h insort_is_Cons [of "sorted_list_of_multiset (held h2 + mset xs)" "\<lambda>y. y" m] by auto
    finally show ?thesis using Cons.IH [OF h2(2) r(2) sub2 late] r(3) by simp
  next
    case False
    with Cons.prems(2) have "jitter_run push pop hsize k xs ?h1 = (out, h')" by (simp add: Let_def)
    from Cons.IH [OF h1(1) this sub late] h1(2) show ?thesis by simp
  qed
qed simp

end

section \<open>The heap\<close>

definition heappush :: "'a :: linorder \<Rightarrow> 'a list \<Rightarrow> 'a list" where
  "heappush x h = insort x h"

definition heappop :: "'a list \<Rightarrow> 'a \<times> 'a list" where
  "heappop h = (hd h, tl h)"

interpretation jb: min_heap heappush heappop length mset sorted
proof unfold_locales
  fix h :: "'a list"
  assume s: "sorted h"
  show "sorted (heappush x h)" for x using s by (simp add: heappush_def sorted_insort)
  show "sorted (snd (heappop h))" using s by (simp add: heappop_def sorted_tl)
  show "mset (heappush x h) = add_mset x (mset h)" for x by (simp add: heappush_def)
  show "mset h \<noteq> {#} \<Longrightarrow> mset h = add_mset (fst (heappop h)) (mset (snd (heappop h)))"
    by (cases h) (simp_all add: heappop_def)
  show "x \<in># mset h \<Longrightarrow> fst (heappop h) \<le> x" for x
    using s by (cases h) (auto simp: heappop_def)
qed simp

end
