(* ===== verification/Metrics.thy ===== *)
theory Metrics
  imports Jitter Buffer
begin

text \<open>
  \<open>metrics.py\<close>: \<open>ThroughputMeter\<close>, which tallies every emitted unit and hands it on to the wrapped
  consumer, and \<open>_StreamStat\<close>, the bounded integration of one stream's delivered and expected
  samples over sample time. The strings of the two reports are not modelled: \<open>summary\<close> and
  \<open>capture_summary\<close> return the numbers and flags they print.

  A rate is read as the double it denotes (every rate \<open>decode_context\<close> stores is one).
\<close>

section \<open>One stream\<close>

definition REORDER_WINDOW :: int where "REORDER_WINDOW = 64"

type_synonym window = "rat \<times> rat \<times> int"

record stream_stat =
  st_total :: int
  delivered :: int
  expected :: rat
  last_end :: "rat option"
  cur_rate :: "rat option"
  pending :: "window list"
  st_rate :: pyval
  st_bandwidth :: pyval
  rate_changed :: bool

definition new_stat :: stream_stat where
  "new_stat = \<lparr>st_total = 0, delivered = 0, expected = 0, last_end = None, cur_rate = None, pending = [],
     st_rate = PNone, st_bandwidth = PNone, rate_changed = False\<rparr>"

text \<open>\<open>_commit\<close>: the gap since the frontier is charged at the rate in effect there; the frontier and
  its rate advance only when the window extends it. (\<open>cur_rate\<close> is set whenever \<open>last_end\<close> is.)\<close>

definition commit :: "window \<Rightarrow> stream_stat \<Rightarrow> stream_stat" where
  "commit win s = (case win of (ts, rate, n) \<Rightarrow>
     let e1 = (case (last_end s, cur_rate s) of
                 (Some end_ts, Some r) \<Rightarrow>
                   let gap = fsub ts end_ts in if 0 < gap then fadd (expected s) (fmul r gap) else expected s
               | _ \<Rightarrow> expected s);
         s1 = s\<lparr>expected := fadd e1 (of_pyint n), delivered := delivered s + n\<rparr>;
         end_ts = fadd ts (fdiv (of_pyint n) rate)
     in if (case last_end s of None \<Rightarrow> True | Some f \<Rightarrow> f < end_ts)
        then s1\<lparr>last_end := Some end_ts, cur_rate := Some rate\<rparr> else s1)"

definition stat_add :: "rat \<Rightarrow> rat \<Rightarrow> int \<Rightarrow> stream_stat \<Rightarrow> stream_stat" where
  "stat_add ts rate n s =
    (let s1 = s\<lparr>pending := heappush (ts, rate, n) (pending s)\<rparr> in
     if REORDER_WINDOW < int (length (pending s1))
     then (case heappop (pending s1) of (win, rest) \<Rightarrow> commit win (s1\<lparr>pending := rest\<rparr>))
     else s1)"

function stat_finalize :: "stream_stat \<Rightarrow> stream_stat" where
  "stat_finalize s =
    (if pending s = [] then s
     else case heappop (pending s) of (win, rest) \<Rightarrow> stat_finalize (commit win (s\<lparr>pending := rest\<rparr>)))"
  by pat_completeness auto

lemma commit_keeps [simp]:
  "pending (commit win s) = pending s" "st_total (commit win s) = st_total s" "st_rate (commit win s) = st_rate s"
  "st_bandwidth (commit win s) = st_bandwidth s" "rate_changed (commit win s) = rate_changed s"
  by (simp_all add: commit_def Let_def split: prod.split option.split)

termination stat_finalize
  by (relation "measure (\<lambda>s. length (pending s))") (auto simp: heappop_def)

declare stat_finalize.simps [simp del]

section \<open>The meter\<close>

record meter =
  total_samples :: int
  meter_bytes :: int
  unit_count :: int
  meter_start :: "rat option"
  streams :: "(int option \<times> stream_stat) list"

definition new_meter :: meter where
  "new_meter = \<lparr>total_samples = 0, meter_bytes = 0, unit_count = 0, meter_start = None, streams = []\<rparr>"

definition meter_begin :: "('w \<Rightarrow> rat \<times> 'w) \<Rightarrow> meter \<Rightarrow> 'w \<Rightarrow> meter \<times> 'w" where
  "meter_begin clock m w = (case clock w of (t, w') \<Rightarrow> (m\<lparr>meter_start := Some t\<rparr>, w'))"

text \<open>What one unit does to its stream's bookkeeping: the exception (comparing a rate that is not a
  number), and the entry.\<close>

definition stat_unit :: "'f unit_rec \<Rightarrow> stream_stat \<Rightarrow> exn option \<times> stream_stat" where
  "stat_unit u s =
    (let context = (case u_context u of None \<Rightarrow> [] | Some c \<Rightarrow> c);
         rate = py_get context ''sample_rate_hz'';
         s1 = s\<lparr>st_total := st_total s + u_num_samples u\<rparr>
     in if rate = PNone then (None, s1)
        else
          let s2 = s1\<lparr>rate_changed := rate_changed s \<or> (st_rate s \<noteq> PNone \<and> \<not> py_eq rate (st_rate s)),
                 st_rate := rate\<rparr>;
              bandwidth = py_get context ''bandwidth_hz'';
              s3 = (if bandwidth = PNone then s2 else s2\<lparr>st_bandwidth := bandwidth\<rparr>)
          in case u_start_timestamp u of
               None \<Rightarrow> (None, s3)
             | Some ts \<Rightarrow>
                 (case py_number rate of
                    None \<Rightarrow> (Some TypeError, s3)
                  | Some r \<Rightarrow> (None, if 0 < r \<and> 0 < u_num_samples u then stat_add ts r (u_num_samples u) s3 else s3)))"

definition stream_of :: "int option \<Rightarrow> meter \<Rightarrow> stream_stat" where
  "stream_of k m = (case map_of (streams m) k of None \<Rightarrow> new_stat | Some s \<Rightarrow> s)"

text \<open>\<open>__call__\<close> up to the wrapped consumer: the totals first, then the stream.\<close>

definition tally :: "'f unit_rec \<Rightarrow> meter \<Rightarrow> exn option \<times> meter" where
  "tally u m =
    (let n = u_num_samples u;
         bps = (case u_bytes_per_sample u of None \<Rightarrow> 0 | Some b \<Rightarrow> b);
         m1 = m\<lparr>total_samples := total_samples m + n, meter_bytes := meter_bytes m + n * bps,
                unit_count := unit_count m + 1\<rparr>
     in case stat_unit u (stream_of (u_stream_id u) m) of
          (e, s) \<Rightarrow> (e, m1\<lparr>streams := dict_set (u_stream_id u) s (streams m)\<rparr>))"

definition meter_call ::
  "('f unit_rec \<Rightarrow> 'w \<Rightarrow> exn option \<times> 'w) \<Rightarrow> 'f unit_rec \<Rightarrow> meter \<times> 'w \<Rightarrow> exn option \<times> (meter \<times> 'w)" where
  "meter_call wrapped u mw =
    (case mw of (m, w) \<Rightarrow> (case tally u m of
        (Some e, m') \<Rightarrow> (Some e, (m', w))
      | (None, m') \<Rightarrow> (case wrapped u w of (e, w') \<Rightarrow> (e, (m', w')))))"

section \<open>The reports\<close>

datatype throughput = No_Samples | Too_Short int | Throughput int rat rat rat

definition summary :: "('w \<Rightarrow> rat \<times> 'w) \<Rightarrow> meter \<Rightarrow> 'w \<Rightarrow> throughput \<times> 'w" where
  "summary clock m w =
    (if total_samples m = 0 then (No_Samples, w)
     else case (case meter_start m of None \<Rightarrow> (0, w)
                | Some t0 \<Rightarrow> (case clock w of (t, w') \<Rightarrow> (fsub t t0, w'))) of
       (elapsed, w') \<Rightarrow>
         (if elapsed \<le> 0 then Too_Short (total_samples m)
          else Throughput (total_samples m) elapsed
                 (fdiv (fdiv (of_pyint (total_samples m)) elapsed) (10 ^ 6))
                 (fdiv (fdiv (of_pyint (meter_bytes m)) elapsed) (10 ^ 6)), w'))"

datatype verdict = OK | Partial_Loss | Severe_Loss

text \<open>Verdicts are ordered by how much arrived.\<close>

fun verdict_rank :: "verdict \<Rightarrow> nat" where
  "verdict_rank Severe_Loss = 0"
| "verdict_rank Partial_Loss = 1"
| "verdict_rank OK = 2"

instantiation verdict :: linorder
begin

definition less_eq_verdict :: "verdict \<Rightarrow> verdict \<Rightarrow> bool" where
  "less_eq_verdict u v \<longleftrightarrow> verdict_rank u \<le> verdict_rank v"

definition less_verdict :: "verdict \<Rightarrow> verdict \<Rightarrow> bool" where
  "less_verdict u v \<longleftrightarrow> verdict_rank u < verdict_rank v"

instance
proof
  fix u v :: verdict
  show "u \<le> v \<Longrightarrow> v \<le> u \<Longrightarrow> u = v"
    by (cases u; cases v) (simp_all add: less_eq_verdict_def)
qed (auto simp: less_eq_verdict_def less_verdict_def)

end

definition verdict_of :: "rat \<Rightarrow> verdict" where
  "verdict_of pct = (if 90 \<le> pct then OK else if 50 \<le> pct then Partial_Loss else Severe_Loss)"

definition round1 :: "rat \<Rightarrow> rat" where
  "round1 x = fl (of_int (round_half_even (x * 10)) / 10)"

definition efficiency :: "stream_stat \<Rightarrow> rat" where
  "efficiency s = fdiv (fmul 100 (of_pyint (delivered s))) (expected s)"

text \<open>\<open>min\<close> over a dictionary by value: the first key with the least value.\<close>

fun first_min :: "'k \<times> rat \<Rightarrow> ('k \<times> rat) list \<Rightarrow> 'k \<times> rat" where
  "first_min p [] = p"
| "first_min p (q # ps) = first_min (if snd q < snd p then q else p) ps"

text \<open>The forms of the capture report: \<open>Steady\<close> has the delivered and the declared rate, the
  percentage and the bandwidth; \<open>Flagged\<close> the worst percentage, whether a single stream was measured
  and the number of declared streams, then whether a rate changed, the declared streams that could
  not be measured, and the number and samples of the undeclared ones.\<close>

datatype capture_report =
    Rate_Unknown
  | Window_Too_Short
  | Steady rat rat rat pyval verdict
  | Flagged rat bool int bool int int int verdict

text \<open>The report on the finalized streams.\<close>

definition report_on :: "(int option \<times> stream_stat) list \<Rightarrow> capture_report" where
  "report_on stats =
    (let declared = filter (\<lambda>(k, s). st_rate s \<noteq> PNone) stats;
         measurable = filter (\<lambda>(k, s). 0 < expected s) declared
     in if declared = [] then Rate_Unknown
        else case map (\<lambda>(k, s). (k, efficiency s)) measurable of [] \<Rightarrow> Window_Too_Short
        | p # per_stream \<Rightarrow>
          let unmeasurable = int (length declared) - int (length measurable);
              worst = first_min p per_stream;
              pct = round1 (snd worst);
              verdict = verdict_of pct;
              undeclared = filter (\<lambda>(k, s). st_rate s = PNone) stats;
              retuned = (\<exists>(k, s) \<in> set declared. rate_changed s);
              s = the (map_of measurable (fst worst));
              rate = (case py_number (st_rate s) of None \<Rightarrow> 0 | Some r \<Rightarrow> r)
          in if length declared = 1 \<and> unmeasurable = 0 \<and> undeclared = [] \<and> \<not> retuned
             then Steady (fmul (fdiv pct 100) rate) rate pct (st_bandwidth s) verdict
             else Flagged pct (length measurable = 1) (int (length declared)) retuned unmeasurable
                    (int (length undeclared)) (sum_list (map (\<lambda>(k, s). st_total s) undeclared)) verdict)"

definition capture_summary :: "meter \<Rightarrow> capture_report option \<times> meter" where
  "capture_summary m =
    (if total_samples m = 0 then (None, m)
     else let m1 = m\<lparr>streams := map (\<lambda>(k, s). (k, stat_finalize s)) (streams m)\<rparr>
          in (Some (report_on (streams m1)), m1))"

end
