(* ===== verification/Metrics_Laws.thy ===== *)
theory Metrics_Laws
  imports Metrics
begin

text \<open>
  What the capture report means: the windows of a stream are integrated in sample-time order
  whatever bounded reordering the link did, the ratio never exceeds 100 percent, memory is
  bounded, and no stream masks the loss of another.
\<close>

section \<open>The windows of a stream\<close>

definition unit_window :: "'f unit_rec \<Rightarrow> window option" where
  "unit_window u =
    (case (u_start_timestamp u, py_number (py_get (case u_context u of None \<Rightarrow> [] | Some c \<Rightarrow> c) ''sample_rate_hz'')) of
       (Some ts, Some r) \<Rightarrow> if 0 < r \<and> 0 < u_num_samples u then Some (ts, r, u_num_samples u) else None
     | _ \<Rightarrow> None)"

fun windows_of :: "int option \<Rightarrow> 'f unit_rec list \<Rightarrow> window list" where
  "windows_of k [] = []"
| "windows_of k (u # us) =
     (if u_stream_id u = k then case unit_window u of None \<Rightarrow> windows_of k us | Some win \<Rightarrow> win # windows_of k us
      else windows_of k us)"

definition meter_all :: "'f unit_rec list \<Rightarrow> meter \<Rightarrow> meter" where
  "meter_all us m = fold (\<lambda>u m. snd (tally u m)) us m"

lemma meter_all_simps [simp]: "meter_all [] m = m" "meter_all (u # us) m = meter_all us (snd (tally u m))"
  by (simp_all add: meter_all_def)

definition window_add :: "window \<Rightarrow> stream_stat \<Rightarrow> stream_stat" where
  "window_add win s = (case win of (ts, r, n) \<Rightarrow> stat_add ts r n s)"

text \<open>The part of the state the integration reads and writes.\<close>

definition same_integral :: "stream_stat \<Rightarrow> stream_stat \<Rightarrow> bool" where
  "same_integral s t \<longleftrightarrow> delivered s = delivered t \<and> expected s = expected t \<and> last_end s = last_end t \<and>
     cur_rate s = cur_rate t \<and> pending s = pending t"

lemma same_integral_refl [simp]: "same_integral s s"
  by (simp add: same_integral_def)

lemma same_integral_trans: "same_integral s t \<Longrightarrow> same_integral t u \<Longrightarrow> same_integral s u"
  by (simp add: same_integral_def)

lemma same_integral_pending [simp]:
  "same_integral s t \<Longrightarrow> same_integral (s\<lparr>pending := h\<rparr>) (t\<lparr>pending := h\<rparr>)"
  by (simp add: same_integral_def)

lemma same_integral_commit: "same_integral s t \<Longrightarrow> same_integral (commit win s) (commit win t)"
  by (cases win) (auto simp: same_integral_def commit_def Let_def split: option.split)

lemma same_integral_add:
  assumes "same_integral s t"
  shows "same_integral (window_add win s) (window_add win t)"
proof -
  have "pending s = pending t" using assms by (simp add: same_integral_def)
  moreover have "same_integral (commit w (s\<lparr>pending := h\<rparr>)) (commit w (t\<lparr>pending := h\<rparr>))" for w h
    by (rule same_integral_commit) (rule same_integral_pending [OF assms])
  ultimately show ?thesis using same_integral_pending [OF assms]
    by (cases win) (simp add: window_add_def stat_add_def Let_def split: prod.split)
qed

lemma same_integral_fold_add:
  "same_integral s t \<Longrightarrow> same_integral (fold window_add ws s) (fold window_add ws t)"
  by (induction ws arbitrary: s t) (auto intro: same_integral_add)

lemma commit_pending: "commit win (s\<lparr>pending := h\<rparr>) = (commit win s)\<lparr>pending := h\<rparr>"
  by (cases win) (simp add: commit_def Let_def split: option.split)

lemma fold_commit_pending: "fold commit ws (s\<lparr>pending := h\<rparr>) = (fold commit ws s)\<lparr>pending := h\<rparr>"
  by (induction ws arbitrary: s) (simp_all add: commit_pending)

lemma fold_commit_keeps [simp]: "pending (fold commit ws s) = pending s"
  by (induction ws arbitrary: s) simp_all

section \<open>The jitter buffer inside a stream\<close>

lemma fold_add_jitter:
  assumes "jitter_run heappush heappop length (nat REORDER_WINDOW) ws (pending s) = (out, h)"
  shows "fold window_add ws s = (fold commit out s)\<lparr>pending := h\<rparr>"
  using assms
proof (induction ws arbitrary: s out)
  case (Cons win ws)
  obtain ts r n where w: "win = (ts, r, n)" by (cases win)
  let ?h1 = "heappush win (pending s)"
  show ?case
  proof (cases "REORDER_WINDOW < int (length ?h1)")
    case True
    obtain m h2 where p: "heappop ?h1 = (m, h2)" by (metis surj_pair)
    obtain out1 where r: "jitter_run heappush heappop length (nat REORDER_WINDOW) ws h2 = (out1, h)" "out = m # out1"
      using Cons.prems True p by (auto simp: Let_def REORDER_WINDOW_def split: prod.splits)
    have "window_add win s = commit m (s\<lparr>pending := h2\<rparr>)"
      using True p by (simp add: window_add_def stat_add_def w)
    with Cons.IH [of "commit m (s\<lparr>pending := h2\<rparr>)"] r show ?thesis
      by (simp add: commit_pending fold_commit_pending)
  next
    case False
    then have "window_add win s = s\<lparr>pending := ?h1\<rparr>" by (simp add: window_add_def stat_add_def w)
    moreover have "jitter_run heappush heappop length (nat REORDER_WINDOW) ws ?h1 = (out, h)"
      using Cons.prems False by (simp add: Let_def REORDER_WINDOW_def)
    ultimately show ?thesis using Cons.IH [of "s\<lparr>pending := ?h1\<rparr>"] by (simp add: fold_commit_pending)
  qed
qed simp

lemma finalize_commits: "stat_finalize s = (fold commit (pending s) s)\<lparr>pending := []\<rparr>"
proof (induction s rule: stat_finalize.induct)
  case (1 s)
  show ?case
  proof (cases "pending s")
    case Nil
    then show ?thesis by (simp add: stat_finalize.simps [of s])
  next
    case (Cons x xs)
    then have "heappop (pending s) = (x, xs)" by (simp add: heappop_def)
    with 1 Cons show ?thesis by (simp add: stat_finalize.simps [of s] commit_pending fold_commit_pending)
  qed
qed

lemma same_integral_finalize:
  assumes "same_integral s t"
  shows "same_integral (stat_finalize s) (stat_finalize t)"
proof -
  have "same_integral (fold commit ws s) (fold commit ws t)" for ws
    using assms by (induction ws arbitrary: s t) (auto intro: same_integral_commit)
  with assms show ?thesis unfolding finalize_commits by (simp add: same_integral_def)
qed

text \<open>What a stream commits, in which order, and what it holds meanwhile.\<close>

lemma committed_windows:
  assumes "s = fold window_add ws new_stat"
  obtains cs where "stat_finalize s = fold commit cs new_stat" "mset cs = mset ws"
    "length (pending s) \<le> nat REORDER_WINDOW"
    "late_at_most (nat REORDER_WINDOW) [] ws \<Longrightarrow> cs = sort ws"
proof -
  obtain out h where r: "jitter_run heappush heappop length (nat REORDER_WINDOW) ws ([] :: window list) = (out, h)"
    by force
  have s: "s = (fold commit out new_stat)\<lparr>pending := h\<rparr>"
    using fold_add_jitter [of ws new_stat out h] r assms by (simp add: new_stat_def)
  have sorted: "sorted ([] :: window list)" by simp
  note props = jb.jitter_props [OF sorted r]
  have fin: "stat_finalize s = fold commit (out @ h) new_stat"
    unfolding finalize_commits s by (simp add: fold_commit_pending new_stat_def)
  have srt: "out @ h = sort ws" if "late_at_most (nat REORDER_WINDOW) [] ws"
    using jb.jitter_sorts [OF sorted r _ that] props by (simp add: sorted_sort_id)
  have "length (pending s) \<le> nat REORDER_WINDOW" using props s by (simp flip: size_mset)
  moreover have "mset (out @ h) = mset ws" using props by simp
  ultimately show thesis using that [of "out @ h"] fin srt by blast
qed

section \<open>From units to windows\<close>

lemma stat_unit_window:
  "same_integral (snd (stat_unit u s)) (case unit_window u of None \<Rightarrow> s | Some win \<Rightarrow> window_add win s)"
proof -
  define d where "d = (case u_context u of None \<Rightarrow> [] | Some c \<Rightarrow> c)"
  define s3 where "s3 = (let rate = py_get d ''sample_rate_hz''; s1 = s\<lparr>st_total := st_total s + u_num_samples u\<rparr>;
      s2 = s1\<lparr>rate_changed := rate_changed s \<or> (st_rate s \<noteq> PNone \<and> \<not> py_eq rate (st_rate s)), st_rate := rate\<rparr>;
      bandwidth = py_get d ''bandwidth_hz'' in if bandwidth = PNone then s2 else s2\<lparr>st_bandwidth := bandwidth\<rparr>)"
  have s3: "same_integral s3 s" by (simp add: s3_def same_integral_def Let_def)
  have add: "same_integral (stat_add ts r n s3) (stat_add ts r n s)" for ts r n
    using same_integral_add [OF s3, of "(ts, r, n)"] by (simp add: window_add_def)
  have unit: "snd (stat_unit u s) = (if py_get d ''sample_rate_hz'' = PNone then s\<lparr>st_total := st_total s + u_num_samples u\<rparr>
      else case (u_start_timestamp u, py_number (py_get d ''sample_rate_hz'')) of
          (Some ts, Some r) \<Rightarrow> if 0 < r \<and> 0 < u_num_samples u then stat_add ts r (u_num_samples u) s3 else s3
        | _ \<Rightarrow> s3)"
    by (simp add: stat_unit_def s3_def Let_def flip: d_def split: option.split)
  show ?thesis
  proof (cases "py_get d ''sample_rate_hz'' = PNone")
    case True
    then show ?thesis unfolding unit
      by (simp add: unit_window_def same_integral_def flip: d_def split: option.split)
  next
    case False
    with s3 add show ?thesis unfolding unit
      by (simp add: unit_window_def window_add_def flip: d_def split: option.split)
  qed
qed

lemma stream_of_tally:
  "stream_of k (snd (tally u m)) = (if u_stream_id u = k then snd (stat_unit u (stream_of k m)) else stream_of k m)"
  by (auto simp: tally_def stream_of_def Let_def split: prod.split)

lemma meter_all_windows: "same_integral (stream_of k (meter_all us m)) (fold window_add (windows_of k us) (stream_of k m))"
proof (induction us arbitrary: m)
  case (Cons u us)
  have "same_integral (stream_of k (snd (tally u m)))
      (if u_stream_id u = k then case unit_window u of None \<Rightarrow> stream_of k m | Some win \<Rightarrow> window_add win (stream_of k m)
       else stream_of k m)"
    using stat_unit_window [of u "stream_of k m"] by (simp add: stream_of_tally)
  from same_integral_fold_add [OF this, of "windows_of k us"] Cons.IH [of "snd (tally u m)"]
  show ?case by (auto intro: same_integral_trans split: option.splits)
qed simp

section \<open>Bounds of the integration\<close>

definition positive :: "window \<Rightarrow> bool" where
  "positive win = (case win of (ts, r, n) \<Rightarrow> 0 < r \<and> 0 < n)"

definition window_samples :: "window list \<Rightarrow> int" where
  "window_samples ws = sum_list (map (\<lambda>(ts, r, n). n) ws)"

lemma window_samples_simps [simp]:
  "window_samples [] = 0" "window_samples ((ts, r, n) # ws) = n + window_samples ws"
  by (simp_all add: window_samples_def)

lemma window_samples_mset: "mset ws = mset vs \<Longrightarrow> window_samples ws = window_samples vs"
  unfolding window_samples_def by (metis mset_map sum_mset_sum_list)

lemma windows_positive: "win \<in> set (windows_of k us) \<Longrightarrow> positive win"
  by (induction us) (auto simp: unit_window_def positive_def split: if_splits option.splits)

lemma window_samples_nonneg: "\<forall>win \<in> set ws. positive win \<Longrightarrow> 0 \<le> window_samples ws"
  by (induction ws) (auto simp: positive_def)

text \<open>Delivered never exceeds expected, in double arithmetic, as long as the counts are exact.\<close>

definition booked :: "stream_stat \<Rightarrow> bool" where
  "booked s \<longleftrightarrow> 0 \<le> delivered s \<and> of_int (delivered s) \<le> expected s \<and> is_float (expected s) \<and>
     (\<forall>r. cur_rate s = Some r \<longrightarrow> 0 < r)"

lemma booked_new: "booked new_stat" "delivered new_stat = 0"
  by (simp_all add: booked_def new_stat_def)

lemma commit_booked:
  assumes "booked s" "positive (ts, r, n)" "delivered s + n \<le> 2 ^ 53"
  shows "booked (commit (ts, r, n) s) \<and> delivered (commit (ts, r, n) s) = delivered s + n"
proof -
  define e1 where "e1 = (case (last_end s, cur_rate s) of
      (Some end_ts, Some r) \<Rightarrow>
        let gap = fsub ts end_ts in if 0 < gap then fadd (expected s) (fmul r gap) else expected s
    | _ \<Rightarrow> expected s)"
  have grow: "expected s \<le> fadd (expected s) (fmul q g)" if "0 < q" "0 < g" for q g
    using assms(1) dbl.rnd_nonneg [of "q * g"] that unfolding fadd_def
    by (intro dbl.rnd_add_nonneg) (simp_all add: booked_def fmul_def)
  have e1: "expected s \<le> e1" "is_float e1"
    using assms(1) grow unfolding e1_def booked_def by (auto simp: fadd_def fl_is_float Let_def split: option.split)
  have n: "0 < n" "n \<le> 2 ^ 53" using assms by (auto simp: positive_def booked_def)
  then have pn: "of_pyint n = of_int n" by (intro of_pyint_exact) simp
  have "of_int (delivered s + n) \<le> fadd e1 (of_pyint n)"
    unfolding fadd_def pn using assms(1,3) e1 n
    by (intro dbl.rnd_ge is_float_of_int) (auto simp: booked_def)
  moreover have "is_float (fadd e1 (of_pyint n))" by (simp add: fadd_def fl_is_float)
  moreover have "expected (commit (ts, r, n) s) = fadd e1 (of_pyint n)" "delivered (commit (ts, r, n) s) = delivered s + n"
    by (simp_all add: commit_def e1_def Let_def)
  moreover have "\<forall>q. cur_rate (commit (ts, r, n) s) = Some q \<longrightarrow> 0 < q"
    using assms(1,2) by (auto simp: commit_def Let_def booked_def positive_def)
  ultimately show ?thesis using assms(1) n by (simp add: booked_def)
qed

lemma fold_commit_booked:
  assumes "booked s" "\<forall>win \<in> set ws. positive win" "delivered s + window_samples ws \<le> 2 ^ 53"
  shows "booked (fold commit ws s) \<and> delivered (fold commit ws s) = delivered s + window_samples ws"
  using assms
proof (induction ws arbitrary: s)
  case (Cons win ws)
  obtain ts r n where w: "win = (ts, r, n)" by (cases win)
  have "0 \<le> window_samples ws" using Cons.prems(2) by (intro window_samples_nonneg) simp
  with commit_booked [of s ts r n] Cons.prems w
  have "booked (commit win s) \<and> delivered (commit win s) = delivered s + n" by simp
  with Cons.IH [of "commit win s"] Cons.prems w show ?case by simp
qed simp

lemma efficiency_range:
  assumes "booked s" "0 < delivered s" "100 * delivered s \<le> 2 ^ 53"
  shows "0 < efficiency s \<and> efficiency s \<le> 100"
proof -
  have num: "fmul 100 (of_pyint (delivered s)) = of_int (100 * delivered s)"
    using assms of_pyint_exact [of "delivered s"] fl_id [OF is_float_of_int, of "100 * delivered s"]
    by (simp add: fmul_def)
  have ex: "of_int (delivered s) \<le> expected s" "0 < expected s"
    using assms by (auto simp: booked_def intro: less_le_trans [of _ "of_int (delivered s)"])
  then have "of_int (100 * delivered s) / expected s \<le> 100" by (simp add: divide_le_eq)
  then have "efficiency s \<le> 100"
    unfolding efficiency_def num fdiv_def using is_float_of_int [of 100] by (intro dbl.rnd_le) simp_all
  moreover have "0 < efficiency s"
    unfolding efficiency_def num fdiv_def using ex assms(2) by (intro fl_pos) simp
  ultimately show ?thesis by simp
qed

section \<open>Streams without a gap\<close>

definition window_end :: "window \<Rightarrow> rat" where
  "window_end win = (case win of (ts, r, n) \<Rightarrow> fadd ts (fdiv (of_pyint n) r))"

text \<open>Every window starts no later than its predecessor ends.\<close>

fun contiguous :: "window list \<Rightarrow> bool" where
  "contiguous (v # w # ws) = (fst w \<le> window_end v \<and> contiguous (w # ws))"
| "contiguous _ = True"

lemma commit_contiguous:
  assumes "\<forall>f. last_end s = Some f \<longrightarrow> fst win \<le> f" "expected s = of_int (delivered s)"
    "0 \<le> delivered s" "positive win" "delivered s + window_samples [win] \<le> 2 ^ 53"
  shows "expected (commit win s) = of_int (delivered (commit win s)) \<and>
    (\<forall>f. last_end (commit win s) = Some f \<longrightarrow> window_end win \<le> f)"
proof -
  obtain ts r n where w: "win = (ts, r, n)" by (cases win)
  have "\<not> 0 < fsub ts f" if "last_end s = Some f" for f
    using assms(1) that w dbl.rnd_le [of 0 "ts - f"] by (simp add: fsub_def not_less)
  moreover have "fadd (of_int (delivered s)) (of_pyint n) = of_int (delivered s + n)"
    using assms(3-5) w of_pyint_exact [of n] fl_id [OF is_float_of_int, of "delivered s + n"]
    by (simp add: fadd_def positive_def)
  ultimately show ?thesis using assms(2) w
    by (auto simp: commit_def window_end_def Let_def split: option.split)
qed

lemma fold_commit_contiguous:
  assumes "contiguous ws" "\<forall>win \<in> set ws. positive win" "ws \<noteq> [] \<Longrightarrow> \<forall>f. last_end s = Some f \<longrightarrow> fst (hd ws) \<le> f"
    "booked s" "expected s = of_int (delivered s)" "delivered s + window_samples ws \<le> 2 ^ 53"
  shows "expected (fold commit ws s) = of_int (delivered (fold commit ws s))"
  using assms
proof (induction ws arbitrary: s)
  case (Cons win ws)
  obtain ts r n where w: "win = (ts, r, n)" by (cases win)
  have nn: "0 \<le> window_samples ws" using Cons.prems(2) by (intro window_samples_nonneg) simp
  have c: "expected (commit win s) = of_int (delivered (commit win s))"
    "\<forall>f. last_end (commit win s) = Some f \<longrightarrow> window_end win \<le> f"
    using commit_contiguous [of s win] Cons.prems nn w by (simp_all add: booked_def)
  have b: "booked (commit win s) \<and> delivered (commit win s) = delivered s + n"
    using commit_booked [of s ts r n] Cons.prems nn w by simp
  have ct: "contiguous ws" "ws \<noteq> [] \<Longrightarrow> fst (hd ws) \<le> window_end win"
    using Cons.prems(1) by (cases ws; simp)+
  show ?case
    using Cons.IH [OF ct(1), of "commit win s"] Cons.prems(2,6) c b ct(2) w by (force intro: order_trans)
qed simp

section \<open>The finished capture\<close>

lemma finalize_new [simp]: "stat_finalize new_stat = new_stat"
  by (simp add: stat_finalize.simps new_stat_def)

lemma capture_streams:
  assumes "capture_summary m = (Some rep, m')"
  shows "total_samples m \<noteq> 0" "streams m' = map (\<lambda>(k, s). (k, stat_finalize s)) (streams m)"
    "stream_of k m' = stat_finalize (stream_of k m)"
proof -
  show "total_samples m \<noteq> 0" and st: "streams m' = map (\<lambda>(k, s). (k, stat_finalize s)) (streams m)"
    using assms by (auto simp: capture_summary_def Let_def split: if_splits)
  show "stream_of k m' = stat_finalize (stream_of k m)"
    by (simp add: stream_of_def st map_of_map option.case_eq_if map_option_case split: option.split)
qed

lemma stream_of_new [simp]: "stream_of k new_meter = new_stat"
  by (simp add: stream_of_def new_meter_def)

lemma finished_stream:
  assumes "capture_summary (meter_all us new_meter) = (Some rep, m')"
  obtains cs where "same_integral (stream_of k m') (fold commit cs new_stat)" "mset cs = mset (windows_of k us)"
    "late_at_most (nat REORDER_WINDOW) [] (windows_of k us) \<Longrightarrow> cs = sort (windows_of k us)"
    "length (pending (stream_of k (meter_all us new_meter))) \<le> nat REORDER_WINDOW"
proof -
  have w: "same_integral (stream_of k (meter_all us new_meter)) (fold window_add (windows_of k us) new_stat)"
    using meter_all_windows [of k us new_meter] by simp
  obtain cs where cs: "stat_finalize (fold window_add (windows_of k us) new_stat) = fold commit cs new_stat"
    "mset cs = mset (windows_of k us)" "length (pending (fold window_add (windows_of k us) new_stat)) \<le> nat REORDER_WINDOW"
    "late_at_most (nat REORDER_WINDOW) [] (windows_of k us) \<Longrightarrow> cs = sort (windows_of k us)"
    using committed_windows [OF refl] by blast
  have "same_integral (stream_of k m') (fold commit cs new_stat)"
    using same_integral_finalize [OF w] cs(1) capture_streams(3) [OF assms] by simp
  moreover have "pending (stream_of k (meter_all us new_meter)) = pending (fold window_add (windows_of k us) new_stat)"
    using w by (simp add: same_integral_def)
  ultimately show thesis using that cs by metis
qed

lemma same_integral_figures:
  "same_integral s t \<Longrightarrow> efficiency s = efficiency t \<and> (booked s \<longleftrightarrow> booked t) \<and> delivered s = delivered t \<and> expected s = expected t"
  by (simp add: same_integral_def efficiency_def booked_def)

text \<open>C14: the capture report does not depend on the order the link delivered the windows in, as long as
  no window is overtaken by more than 64 later-stamped ones: each stream's delivered and expected
  counts, frontier and rate are those of committing its windows in sample-time order.\<close>

theorem capture_reordering:
  assumes "capture_summary (meter_all us new_meter) = (Some rep, m')" "late_at_most 64 [] (windows_of k us)"
  shows "same_integral (stream_of k m') (fold commit (sort (windows_of k us)) new_stat)"
proof -
  obtain cs where "same_integral (stream_of k m') (fold commit cs new_stat)" "cs = sort (windows_of k us)"
    using finished_stream [OF assms(1), of k] assms(2) by (auto simp: REORDER_WINDOW_def)
  then show ?thesis by simp
qed

text \<open>C15: whatever the order, duplicates or overlaps of the windows and the rounding of the double
  arithmetic, a stream's delivered count is the sum of its windows, its ratio is above zero and never
  above 100 percent, and its jitter buffer never holds more than 64 windows. (Exact while a hundred
  times the count fits the 53 bits of a double.)\<close>

theorem capture_bounded:
  assumes "capture_summary (meter_all us new_meter) = (Some rep, m')"
    and "windows_of k us \<noteq> []" "100 * window_samples (windows_of k us) \<le> 2 ^ 53"
  shows "delivered (stream_of k m') = window_samples (windows_of k us) \<and>
    of_int (delivered (stream_of k m')) \<le> expected (stream_of k m') \<and>
    0 < efficiency (stream_of k m') \<and> efficiency (stream_of k m') \<le> 100 \<and>
    length (pending (stream_of k (meter_all us new_meter))) \<le> 64"
proof -
  obtain cs where cs: "same_integral (stream_of k m') (fold commit cs new_stat)" "mset cs = mset (windows_of k us)"
    "length (pending (stream_of k (meter_all us new_meter))) \<le> nat REORDER_WINDOW"
    using finished_stream [OF assms(1), of k] by blast
  have pos: "\<forall>win \<in> set ws. positive win" if "mset ws = mset (windows_of k us)" for ws
    using that windows_positive by (metis set_mset_mset)
  have sum: "window_samples cs = window_samples (windows_of k us)" by (rule window_samples_mset) (rule cs(2))
  obtain win ws where "windows_of k us = win # ws" using assms(2) by (cases "windows_of k us") auto
  then have gt: "0 < window_samples (windows_of k us)"
    using pos [OF refl] window_samples_nonneg [of ws] by (cases win) (auto simp: positive_def)
  have b: "booked (fold commit cs new_stat) \<and> delivered (fold commit cs new_stat) = window_samples cs"
    using fold_commit_booked [OF booked_new(1) pos [OF cs(2)]] assms(3) gt sum booked_new(2) by simp
  with efficiency_range [of "fold commit cs new_stat"] same_integral_figures [OF cs(1)] gt sum assms(3) cs(3)
  show ?thesis by (simp add: booked_def REORDER_WINDOW_def)
qed

section \<open>The verdict\<close>

definition measurable :: "stream_stat \<Rightarrow> bool" where
  "measurable s \<longleftrightarrow> st_rate s \<noteq> PNone \<and> 0 < expected s"

fun report_figures :: "capture_report \<Rightarrow> (rat \<times> verdict) option" where
  "report_figures (Steady _ _ pct _ v) = Some (pct, v)"
| "report_figures (Flagged pct _ _ _ _ _ _ v) = Some (pct, v)"
| "report_figures _ = None"

lemma first_min_least:
  "first_min p ps \<in> set (p # ps) \<and> (\<forall>q \<in> set (p # ps). snd (first_min p ps) \<le> snd q)"
proof (induction ps arbitrary: p)
  case (Cons q ps)
  from Cons [of "if snd q < snd p then q else p"] show ?case by (auto split: if_splits)
qed simp

lemma round1_ge_90: "90 \<le> round1 x \<Longrightarrow> 89.95 \<le> x"
proof (rule ccontr)
  assume r: "90 \<le> round1 x" and "\<not> 89.95 \<le> x"
  then have "x * 10 < 1799 / 2" by simp
  then have "of_int (round_half_even (x * 10)) < (of_int 900 :: rat)"
    using abs_le_D1 [OF round_half_even_error [of "x * 10"]] unfolding of_int_numeral by linarith
  then have "round_half_even (x * 10) \<le> 899" by (simp only: of_int_less_iff)
  then have "(of_int (round_half_even (x * 10)) :: rat) \<le> of_int 899" by (simp only: of_int_le_iff)
  then have "round1 x \<le> fl (899 / 10)" unfolding round1_def by (intro fl_mono) simp
  moreover have "fl (899 / 10) < 90" using abs_le_D1 [OF fl_relative_error [of "899 / 10"]] by simp
  ultimately show False using r by simp
qed

lemma round1_lt_90: "round1 x < 90 \<Longrightarrow> x < 90"
proof (rule ccontr)
  assume r: "round1 x < 90" and "\<not> x < 90"
  then have "round_half_even (of_int 900) \<le> round_half_even (x * 10)" by (intro round_half_even_mono) simp
  then have "(of_int 900 :: rat) \<le> of_int (round_half_even (x * 10))" by (simp only: of_int_le_iff round_half_even_of_int)
  then have "90 \<le> round1 x"
    unfolding round1_def using is_float_of_int [of 90] by (intro dbl.rnd_ge) simp_all
  with r show False by simp
qed

lemma verdict_of_mono: "x \<le> y \<Longrightarrow> verdict_of (round1 x) \<le> verdict_of (round1 y)"
proof -
  assume "x \<le> y"
  then have "round_half_even (x * 10) \<le> round_half_even (y * 10)" by (intro round_half_even_mono) simp
  then have "round1 x \<le> round1 y" unfolding round1_def by (intro fl_mono) simp
  then show ?thesis by (auto simp: verdict_of_def less_eq_verdict_def)
qed

lemma capture_figures:
  assumes "capture_summary m = (Some rep, m')" "report_figures rep = Some (pct, v)"
  obtains p ps where "map (\<lambda>(k, s). (k, efficiency s)) (filter (\<lambda>(k, s). measurable s) (streams m')) = p # ps"
    "pct = round1 (snd (first_min p ps))" "v = verdict_of pct"
proof -
  have f: "filter (\<lambda>(k, s). 0 < expected s) (filter (\<lambda>(k, s). st_rate s \<noteq> PNone) (streams m'))
      = filter (\<lambda>(k, s). measurable s) (streams m')"
    unfolding filter_filter by (intro filter_cong) (auto simp: measurable_def)
  have rep: "rep = report_on (streams m')"
    using assms(1) by (auto simp: capture_summary_def Let_def split: if_splits)
  show thesis
  proof (cases "map (\<lambda>(k, s). (k, efficiency s)) (filter (\<lambda>(k, s). measurable s) (streams m'))")
    case Nil
    with assms(2) rep show thesis unfolding report_on_def Let_def f by (auto split: if_splits)
  next
    case (Cons p ps)
    with assms(2) rep have "pct = round1 (snd (first_min p ps)) \<and> v = verdict_of pct"
      unfolding report_on_def Let_def f by (auto split: if_splits)
    then show thesis using that [OF Cons] by simp
  qed
qed

text \<open>C18: no stream masks another's loss. The percentage of the capture report is, rounded to a tenth,
  that of a declared and measurable stream whose ratio is the least of all such streams, and the
  verdict is its verdict, the least of theirs: OK means that every measurable stream reached 89.95 percent, anything else
  that some stream stayed below 90.\<close>

theorem capture_verdict_worst:
  assumes "capture_summary m = (Some rep, m')" "report_figures rep = Some (pct, v)"
  shows "\<exists>(k, s) \<in> set (streams m'). measurable s \<and> pct = round1 (efficiency s) \<and> v = verdict_of pct \<and>
    (\<forall>(k', s') \<in> set (streams m'). measurable s' \<longrightarrow>
       efficiency s \<le> efficiency s' \<and> v \<le> verdict_of (round1 (efficiency s'))) \<and>
    (v = OK \<longrightarrow> (\<forall>(k', s') \<in> set (streams m'). measurable s' \<longrightarrow> 89.95 \<le> efficiency s')) \<and>
    (v \<noteq> OK \<longrightarrow> efficiency s < 90)"
proof -
  obtain p ps where f: "map (\<lambda>(k, s). (k, efficiency s)) (filter (\<lambda>(k, s). measurable s) (streams m')) = p # ps"
    "pct = round1 (snd (first_min p ps))" "v = verdict_of pct"
    using capture_figures [OF assms] by blast
  have mem: "set (p # ps) = (\<lambda>(k, s). (k, efficiency s)) ` {(k, s) \<in> set (streams m'). measurable s}"
    unfolding f(1) [symmetric] by (auto simp: image_iff)
  obtain k s where ks: "(k, s) \<in> set (streams m')" "measurable s" "first_min p ps = (k, efficiency s)"
  proof -
    have "first_min p ps \<in> (\<lambda>(k, s). (k, efficiency s)) ` {(k, s) \<in> set (streams m'). measurable s}"
      using first_min_least [of p ps] unfolding mem by blast
    then show thesis using that by auto
  qed
  have least: "efficiency s \<le> efficiency s'" if "(k', s') \<in> set (streams m')" "measurable s'" for k' s'
    using first_min_least [of p ps] mem that ks(3) by force
  have "89.95 \<le> efficiency s" if "v = OK"
    using that f(2,3) ks(3) round1_ge_90 [of "efficiency s"] by (auto simp: verdict_of_def split: if_splits)
  moreover have "efficiency s < 90" if "v \<noteq> OK"
    using that f(2,3) ks(3) round1_lt_90 [of "efficiency s"] by (auto simp: verdict_of_def split: if_splits)
  ultimately show ?thesis using f(2,3) ks least
    by (intro bexI [of _ "(k, s)"]) (auto intro: order_trans simp: verdict_of_mono)
qed

section \<open>Totals\<close>

text \<open>The meter called on a sequence of units, each call possibly raising into its caller.\<close>

definition call_all ::
  "('f unit_rec \<Rightarrow> 'w \<Rightarrow> exn option \<times> 'w) \<Rightarrow> 'f unit_rec list \<Rightarrow> meter \<times> 'w \<Rightarrow> meter \<times> 'w" where
  "call_all wrapped us mw = fold (\<lambda>u mw. snd (meter_call wrapped u mw)) us mw"

lemma call_all_meter: "fst (call_all wrapped us (m, w)) = meter_all us m"
proof (induction us arbitrary: m w)
  case (Cons u us)
  obtain m1 w1 where "snd (meter_call wrapped u (m, w)) = (m1, w1)" by force
  moreover from this have "m1 = snd (tally u m)"
    by (auto simp: meter_call_def split: prod.splits option.splits)
  ultimately show ?case using Cons [of m1 w1] by (simp add: call_all_def)
qed (simp add: call_all_def)

definition stream_total :: "int option \<Rightarrow> 'f unit_rec list \<Rightarrow> int" where
  "stream_total k us = sum_list (map u_num_samples (filter (\<lambda>u. u_stream_id u = k) us))"

definition unit_bytes :: "'f unit_rec \<Rightarrow> int" where
  "unit_bytes u = u_num_samples u * (case u_bytes_per_sample u of None \<Rightarrow> 0 | Some b \<Rightarrow> b)"

lemma stat_add_total [simp]: "st_total (stat_add ts r n s) = st_total s"
  by (simp add: stat_add_def Let_def split: prod.split)

lemma stat_unit_total: "st_total (snd (stat_unit u s)) = st_total s + u_num_samples u"
  by (simp add: stat_unit_def Let_def split: option.split)

lemma tally_totals:
  "total_samples (snd (tally u m)) = total_samples m + u_num_samples u"
  "meter_bytes (snd (tally u m)) = meter_bytes m + unit_bytes u"
  "unit_count (snd (tally u m)) = unit_count m + 1"
  "distinct (dict_keys (streams m)) \<Longrightarrow> distinct (dict_keys (streams (snd (tally u m))))"
  "fst ` set (streams (snd (tally u m))) = insert (u_stream_id u) (fst ` set (streams m))"
  by (simp_all add: tally_def unit_bytes_def Let_def distinct_dict_set split: prod.split)

lemma meter_all_totals:
  "total_samples (meter_all us m) = total_samples m + sum_list (map u_num_samples us) \<and>
   meter_bytes (meter_all us m) = meter_bytes m + sum_list (map unit_bytes us) \<and>
   unit_count (meter_all us m) = unit_count m + int (length us) \<and>
   (distinct (dict_keys (streams m)) \<longrightarrow> distinct (dict_keys (streams (meter_all us m)))) \<and>
   fst ` set (streams (meter_all us m)) = u_stream_id ` set us \<union> fst ` set (streams m) \<and>
   st_total (stream_of k (meter_all us m)) = st_total (stream_of k m) + stream_total k us"
  by (induction us arbitrary: m)
    (auto simp: tally_totals stream_total_def stream_of_tally stat_unit_total)

text \<open>C20: the throughput figures are exact and do not depend on the consumer: whatever the wrapped
  callback does (also raising), after any units the meter has counted every one of them, its samples
  and its bytes, with one entry per stream id seen that holds that stream's samples.\<close>

theorem meter_totals:
  "let m = fst (call_all wrapped us (new_meter, w)) in
   total_samples m = sum_list (map u_num_samples us) \<and> meter_bytes m = sum_list (map unit_bytes us) \<and>
   unit_count m = int (length us) \<and> distinct (dict_keys (streams m)) \<and>
   fst ` set (streams m) = u_stream_id ` set us \<and> (\<forall>k. st_total (stream_of k m) = stream_total k us)"
  using meter_all_totals [of us new_meter] by (simp add: call_all_meter new_meter_def stream_of_def new_stat_def)

section \<open>Concrete captures\<close>

text \<open>Units of ten samples at ten samples per second on stream 7: the first capture swaps two windows of
  a gapless second, the second one lost the two seconds between its windows.\<close>

definition demo_unit :: "rat \<Rightarrow> int unit_rec" where
  "demo_unit ts = \<lparr>u_samples = Float32 [], u_context = Some [(''sample_rate_hz'', PFloat 10)],
     u_start_timestamp = Some ts, u_num_samples = 10, u_stream_id = Some 7, u_component_dtype = PNone,
     u_is_complex = Some False, u_bytes_per_sample = Some 4, u_metadata = (Some 7, PNone, Some False, Some 4)\<rparr>"

definition swapped :: "int unit_rec list" where "swapped = [demo_unit 1, demo_unit 3, demo_unit 2]"
definition lossy :: "int unit_rec list" where "lossy = [demo_unit 1, demo_unit 4]"

lemma swapped_windows: "windows_of (Some 7) swapped = [(1, 10, 10), (3, 10, 10), (2, 10, 10)]"
  by code_simp

lemma swapped_order:
  "late_at_most 64 [] (windows_of (Some 7) swapped)" "contiguous (sort (windows_of (Some 7) swapped))"
  "100 * window_samples (windows_of (Some 7) swapped) \<le> 2 ^ 53"
  by code_simp+

lemma fl_one: "fl 1 = 1"
  using fl_id [OF is_float_of_int, of 1] by simp

lemma has_summary: "total_samples m \<noteq> 0 \<Longrightarrow> \<exists>rep m'. capture_summary m = (Some rep, m')"
  by (simp add: capture_summary_def Let_def)

lemma swapped_summary: "\<exists>rep m'. capture_summary (meter_all swapped new_meter) = (Some rep, m')"
  by (rule has_summary) code_simp

lemma lossy_summary: "\<exists>rep m'. capture_summary (meter_all lossy new_meter) = (Some rep, m')"
  by (rule has_summary) code_simp

theorem capture_reordering_witness:
  "\<exists>rep m'. capture_summary (meter_all swapped new_meter) = (Some rep, m') \<and>
     same_integral (stream_of (Some 7) m') (fold commit [(1, 10, 10), (2, 10, 10), (3, 10, 10)] new_stat)"
proof -
  obtain rep m' where c: "capture_summary (meter_all swapped new_meter) = (Some rep, m')"
    using swapped_summary by blast
  have "sort (windows_of (Some 7) swapped) = [(1, 10, 10), (2, 10, 10), (3, 10, 10)]" by code_simp
  with capture_reordering [OF c swapped_order(1)] c show ?thesis by auto
qed

theorem capture_bounded_witness:
  "\<exists>rep m'. capture_summary (meter_all swapped new_meter) = (Some rep, m') \<and> delivered (stream_of (Some 7) m') = 30"
proof -
  obtain rep m' where c: "capture_summary (meter_all swapped new_meter) = (Some rep, m')"
    using swapped_summary by blast
  have "windows_of (Some 7) swapped \<noteq> []" "window_samples (windows_of (Some 7) swapped) = 30"
    by (simp_all add: swapped_windows)
  with capture_bounded [OF c _ swapped_order(3)] c show ?thesis by auto
qed

theorem capture_verdict_worst_witness:
  "\<exists>rep m' pct v. capture_summary (meter_all lossy new_meter) = (Some rep, m') \<and>
     report_figures rep = Some (pct, v) \<and> v = Partial_Loss \<and>
     (\<exists>(k, s) \<in> set (streams m'). measurable s \<and> efficiency s < 90)"
proof -
  obtain rep m' where c: "capture_summary (meter_all lossy new_meter) = (Some rep, m')"
    using lossy_summary by blast
  have "map_option snd (report_figures rep) = Some Partial_Loss"
  proof -
    have "streams (meter_all lossy new_meter) = [(Some 7, new_stat\<lparr>st_total := 20, pending := [(1, 10, 10), (4, 10, 10)], st_rate := PFloat 10\<rparr>)]"
      by code_simp
    then have st: "streams m' = [(Some 7, fold commit [(1, 10, 10), (4, 10, 10)] (new_stat\<lparr>st_total := 20, st_rate := PFloat 10\<rparr>))]"
      unfolding capture_streams(2) [OF c] by (simp add: finalize_commits new_stat_def flip: commit_pending)
    have "rep = report_on (streams m')" using c by (auto simp: capture_summary_def Let_def split: if_splits)
    moreover have "streams m' = [(Some 7, new_stat\<lparr>st_total := 20, delivered := 20, expected := 40, last_end := Some 5,
        cur_rate := Some 10, st_rate := PFloat 10\<rparr>)]" unfolding st
      by (simp add: commit_def new_stat_def Let_def fl_numeral fl_one fadd_def fsub_def fmul_def fdiv_def of_pyint_def)
    moreover have "round_half_even 500 = 500" using round_half_even_of_int [of 500] by simp
    ultimately show ?thesis
      by (simp add: report_on_def new_stat_def fl_numeral fmul_def fdiv_def of_pyint_def efficiency_def round1_def verdict_of_def)
  qed
  with c obtain pct where f: "report_figures rep = Some (pct, Partial_Loss)" by auto
  from capture_verdict_worst [OF c f] have "\<exists>(k, s) \<in> set (streams m'). measurable s \<and> efficiency s < 90"
    by auto
  with c f show ?thesis by blast
qed

end
