(* ===== verification/Double_Range.thy ===== *)
theory Double_Range
  imports Metrics_Laws
begin

text \<open>
  The exponent range of a double. \<open>PyFloat\<close> rounds to 53 bits and lets the exponent be any integer;
  here are the operations of binary64 as they are, with denormals and overflow, and the proof that
  the timestamps, the decoded frequencies and the integration of the capture report never leave the
  normal range, so that both arithmetics give the same numbers.
\<close>

section \<open>binary64\<close>

text \<open>Rounding with the exponent range: a multiple of \<open>2 powi -1074\<close>, or \<open>None\<close> for an infinity.\<close>

definition fl64 :: "rat \<Rightarrow> rat option" where
  "fl64 x = (if x = 0 then Some 0
     else let e = max (ilog2 \<bar>x\<bar> - 52) (- 1074); y = of_int (round_half_even (x / 2 powi e)) * 2 powi e
          in if \<bar>y\<bar> < 2 ^ 1024 then Some y else None)"

definition fadd64 :: "rat \<Rightarrow> rat \<Rightarrow> rat option" where "fadd64 x y = fl64 (x + y)"
definition fsub64 :: "rat \<Rightarrow> rat \<Rightarrow> rat option" where "fsub64 x y = fl64 (x - y)"
definition fmul64 :: "rat \<Rightarrow> rat \<Rightarrow> rat option" where "fmul64 x y = fl64 (x * y)"
definition fdiv64 :: "rat \<Rightarrow> rat \<Rightarrow> rat option" where "fdiv64 x y = fl64 (x / y)"
definition of_pyint64 :: "int \<Rightarrow> rat option" where "of_pyint64 n = fl64 (of_int n)"

definition normal :: "rat \<Rightarrow> bool" where
  "normal x \<longleftrightarrow> x = 0 \<or> 2 powi (- 1022) \<le> \<bar>x\<bar> \<and> \<bar>x\<bar> \<le> 2 powi 1023"

lemma abs_fl: "\<bar>fl x\<bar> = fl \<bar>x\<bar>"
proof (cases "0 \<le> x")
  case True
  then show ?thesis using dbl.rnd_nonneg [of x] by simp
next
  case False
  then have "0 \<le> fl (- x)" by (intro dbl.rnd_nonneg) simp_all
  with False show ?thesis by simp
qed

lemma is_float_powi: "is_float (2 powi e)"
  using is_float_scaled [of 1 e] by simp

text \<open>In the normal range the two roundings agree.\<close>

lemma fl64_normal:
  assumes "normal x"
  shows "fl64 x = Some (fl x)"
proof (cases "x = 0")
  case False
  with assms have b: "2 powi (- 1022) \<le> \<bar>x\<bar>" "\<bar>x\<bar> \<le> 2 powi 1023" by (simp_all add: normal_def)
  have "0 < \<bar>x\<bar>" using False by simp
  from order_le_less_trans [OF b(1) ilog2_bounds(2) [OF this]]
  have "(2 :: rat) powi (- 1022) < 2 powi (ilog2 \<bar>x\<bar> + 1)" .
  from powi_2_less_imp [OF this] have "- 1022 \<le> ilog2 \<bar>x\<bar>" by simp
  then have e: "max (ilog2 \<bar>x\<bar> - 52) (- 1074) = ilog2 \<bar>x\<bar> - 52" by simp
  have "\<bar>fl x\<bar> \<le> 2 powi 1023" unfolding abs_fl using b(2) by (intro dbl.rnd_le is_float_powi)
  also have "\<dots> < (2 :: rat) ^ 1024" by simp
  finally have "\<bar>fl x\<bar> < 2 ^ 1024" .
  with False show ?thesis by (simp add: fl64_def e fl_def Let_def)
qed (simp add: fl64_def)

text \<open>Outside the range they differ: overflow, and numbers too small even for a denormal.\<close>

lemma fl64_overflow:
  assumes "2 powi 1024 \<le> \<bar>x\<bar>"
  shows "fl64 x = None"
proof -
  have pos: "0 < \<bar>x\<bar>" using assms power_int_2_pos [of 1024] by (rule order_less_le_trans [rotated])
  from order_le_less_trans [OF assms ilog2_bounds(2) [OF pos]] have "(2 :: rat) powi 1024 < 2 powi (ilog2 \<bar>x\<bar> + 1)" .
  from powi_2_less_imp [OF this] have e: "max (ilog2 \<bar>x\<bar> - 52) (- 1074) = ilog2 \<bar>x\<bar> - 52" by simp
  have "(2 :: rat) powi 1024 = 2 ^ 1024" by simp
  then have "2 ^ 1024 \<le> \<bar>fl x\<bar>" unfolding abs_fl using assms dbl.rnd_ge [OF is_float_powi [of 1024]] by metis
  with pos show ?thesis by (simp add: fl64_def e fl_def Let_def)
qed

lemma fl64_underflow:
  assumes "\<bar>x\<bar> < 2 powi (- 1075)"
  shows "fl64 x = Some 0"
proof (cases "x = 0")
  case False
  then have pos: "0 < \<bar>x\<bar>" by simp
  from order_le_less_trans [OF ilog2_bounds(1) [OF pos] assms] have "(2 :: rat) powi (ilog2 \<bar>x\<bar>) < 2 powi (- 1075)" .
  from powi_2_less_imp [OF this] have e: "max (ilog2 \<bar>x\<bar> - 52) (- 1074) = - 1074" by simp
  have half: "(2 :: rat) powi (- 1075) = 1 / 2 * 2 powi (- 1074)"
    using power_int_add [of "2 :: rat" "- 1" "- 1074"] by (simp add: power_int_minus)
  have "\<bar>x / 2 powi (- 1074)\<bar> < 1 / 2"
    using assms unfolding half by (simp only: abs_divide abs_of_pos power_int_2_pos pos_divide_less_eq)
  then have "round_half_even (x / 2 powi (- 1074)) = 0"
    using round_half_even_error [of "x / 2 powi (- 1074)"] by linarith
  with False show ?thesis by (simp only: fl64_def e Let_def if_False) simp
qed (simp add: fl64_def)

lemma normalI:
  assumes "2 powi a \<le> x" "x \<le> 2 powi b" "- 1022 \<le> a" "b \<le> 1023"
  shows "normal x"
proof -
  have "(2 :: rat) powi (- 1022) \<le> 2 powi a" "(2 :: rat) powi b \<le> 2 powi 1023"
    using assms(3,4) by (intro power_int_increasing; simp)+
  moreover have "0 < x" using assms(1) power_int_2_pos [of a] by (rule order_less_le_trans [rotated])
  ultimately show ?thesis using assms(1,2) by (simp add: normal_def)
qed

section \<open>Grids\<close>

text \<open>The multiples of a power of two; a sum of such numbers is zero or not below it, and rounding keeps
  them.\<close>

definition on_grid :: "int \<Rightarrow> rat \<Rightarrow> bool" where
  "on_grid g x \<longleftrightarrow> (\<exists>m :: int. x = of_int m * 2 powi g)"

lemma on_gridI: "x = of_int m * 2 powi g \<Longrightarrow> on_grid g x"
  by (auto simp: on_grid_def)

lemma on_grid_finer:
  assumes "on_grid g x" "h \<le> g"
  shows "on_grid h x"
proof -
  obtain m where "x = of_int m * 2 powi g" using assms(1) by (auto simp: on_grid_def)
  moreover obtain d where "g = h + int d" using assms(2) by (metis zle_iff_zadd)
  ultimately have "x = of_int (m * 2 ^ d) * 2 powi h" by (simp add: power_int_add)
  then show ?thesis by (rule on_gridI)
qed

lemma on_grid_diff: "on_grid g x \<Longrightarrow> on_grid g y \<Longrightarrow> on_grid g (x - y)"
  unfolding on_grid_def by (metis left_diff_distrib of_int_diff)

lemma on_grid_add: "on_grid g x \<Longrightarrow> on_grid g y \<Longrightarrow> on_grid g (x + y)"
  unfolding on_grid_def by (metis distrib_right of_int_add)

lemma on_grid_least: "on_grid g x \<Longrightarrow> 0 < x \<Longrightarrow> 2 powi g \<le> x"
proof -
  assume "on_grid g x" "0 < x"
  then obtain m :: int where m: "x = of_int m * 2 powi g" "0 < (of_int m :: rat) * 2 powi g"
    by (auto simp: on_grid_def)
  moreover have "(0 :: rat) < 2 powi g" by simp
  ultimately have "0 < m" by (metis of_int_0_less_iff zero_less_mult_pos2)
  then have "1 \<le> m" by simp
  then have "1 * 2 powi g \<le> (of_int m :: rat) * 2 powi g" by (intro mult_right_mono) simp_all
  with m(1) show ?thesis by simp
qed

lemma on_grid_fl:
  assumes "on_grid g x"
  shows "on_grid g (fl x)"
proof -
  obtain m where x: "x = of_int m * 2 powi g" using assms by (auto simp: on_grid_def)
  show ?thesis
  proof (cases "\<bar>m\<bar> \<le> 2 ^ 53")
    case True
    then have "fl x = x" unfolding x by (intro fl_id is_float_scaled)
    with assms show ?thesis by simp
  next
    case False
    then have "(of_int (2 ^ 53) :: rat) < of_int \<bar>m\<bar>" by (simp only: of_int_less_iff not_le)
    then have "2 ^ 53 * 2 powi g < \<bar>x\<bar>" unfolding x by (simp add: abs_mult)
    then have big: "2 powi (g + 53) < \<bar>x\<bar>" by (simp add: power_int_add mult.commute)
    then have pos: "0 < \<bar>x\<bar>" using power_int_2_pos [of "g + 53"] by (rule order_less_trans [rotated])
    from order_less_trans [OF big ilog2_bounds(2) [OF this]]
    have "(2 :: rat) powi (g + 53) < 2 powi (ilog2 \<bar>x\<bar> + 1)" .
    then have "g \<le> ilog2 \<bar>x\<bar> - 52" by (auto dest: powi_2_less_imp)
    moreover have "on_grid (ilog2 \<bar>x\<bar> - 52) (fl x)" using pos by (auto simp: fl_def Let_def intro: on_gridI)
    ultimately show ?thesis by (rule on_grid_finer [rotated])
  qed
qed

lemma float_grid:
  assumes "is_float x" "2 powi a \<le> x"
  shows "on_grid (a - 52) x"
proof -
  obtain m e where x: "x = of_int m * 2 powi e" "\<bar>m\<bar> \<le> 2 ^ 53" using assms(1) by (auto simp: is_float_def)
  show ?thesis
  proof (cases "a - 52 \<le> e")
    case True
    with x(1) show ?thesis by (blast intro: on_grid_finer on_gridI)
  next
    case False
    have "(of_int m :: rat) \<le> of_int (2 ^ 53)" using x(2) by (simp only: of_int_le_iff)
    then have "x \<le> of_int (2 ^ 53) * 2 powi e" unfolding x(1) by (intro mult_right_mono) simp_all
    also have "\<dots> = 2 powi (e + 53)" by (simp add: power_int_add mult.commute)
    also have "\<dots> \<le> 2 powi a" using False by (intro power_int_increasing) simp_all
    finally have "x = 2 powi a" using assms(2) by simp
    then have "x = of_int (2 ^ 52) * 2 powi (a - 52)" by (simp add: power_int_diff)
    then show ?thesis by (rule on_gridI)
  qed
qed

section \<open>The capture integration in binary64\<close>

text \<open>\<open>_commit\<close>, its first part on its own.\<close>

definition gap_charged64 :: "rat \<Rightarrow> stream_stat \<Rightarrow> rat option" where
  "gap_charged64 ts s = (case (last_end s, cur_rate s) of
       (Some end_ts, Some r) \<Rightarrow> Option.bind (fsub64 ts end_ts) (\<lambda>gap.
          if 0 < gap then Option.bind (fmul64 r gap) (fadd64 (expected s)) else Some (expected s))
     | _ \<Rightarrow> Some (expected s))"

definition commit64 :: "window \<Rightarrow> stream_stat \<Rightarrow> stream_stat option" where
  "commit64 win s = (case win of (ts, rate, n) \<Rightarrow>
     Option.bind (gap_charged64 ts s) (\<lambda>e1.
     Option.bind (of_pyint64 n) (\<lambda>k.
     Option.bind (fadd64 e1 k) (\<lambda>e2.
     Option.bind (fdiv64 k rate) (\<lambda>len.
     Option.bind (fadd64 ts len) (\<lambda>end_ts.
       let s1 = s\<lparr>expected := e2, delivered := delivered s + n\<rparr> in
       Some (if (case last_end s of None \<Rightarrow> True | Some f \<Rightarrow> f < end_ts)
             then s1\<lparr>last_end := Some end_ts, cur_rate := Some rate\<rparr> else s1)))))))"

definition stat_add64 :: "rat \<Rightarrow> rat \<Rightarrow> int \<Rightarrow> stream_stat \<Rightarrow> stream_stat option" where
  "stat_add64 ts rate n s =
    (let s1 = s\<lparr>pending := heappush (ts, rate, n) (pending s)\<rparr> in
     if REORDER_WINDOW < int (length (pending s1))
     then (case heappop (pending s1) of (win, rest) \<Rightarrow> commit64 win (s1\<lparr>pending := rest\<rparr>))
     else Some s1)"

lemma commit64_pending: "commit64 win s = Some s' \<Longrightarrow> pending s' = pending s"
  by (auto simp: commit64_def Let_def bind_eq_Some_conv split: prod.splits option.splits if_splits)

function stat_finalize64 :: "stream_stat \<Rightarrow> stream_stat option" where
  "stat_finalize64 s =
    (if pending s = [] then Some s
     else case heappop (pending s) of (win, rest) \<Rightarrow> Option.bind (commit64 win (s\<lparr>pending := rest\<rparr>)) stat_finalize64)"
  by pat_completeness auto
termination
  by (relation "measure (\<lambda>s. length (pending s))") (auto simp: heappop_def dest!: commit64_pending)

declare stat_finalize64.simps [simp del]

fun feed64 :: "window list \<Rightarrow> stream_stat \<Rightarrow> stream_stat option" where
  "feed64 [] s = Some s"
| "feed64 ((ts, rate, n) # ws) s = Option.bind (stat_add64 ts rate n s) (feed64 ws)"

definition efficiency64 :: "stream_stat \<Rightarrow> rat option" where
  "efficiency64 s = Option.bind (of_pyint64 (delivered s)) (\<lambda>d.
     Option.bind (fmul64 100 d) (\<lambda>x. fdiv64 x (expected s)))"

section \<open>The range of a stream's figures\<close>

text \<open>The timestamps and rates a packet can carry.\<close>

definition stamp_range :: "rat \<Rightarrow> bool" where
  "stamp_range ts \<longleftrightarrow> is_float ts \<and> (ts = 0 \<or> 1 / 2 ^ 40 \<le> ts) \<and> ts \<le> 2 ^ 34"

definition rate_range :: "rat \<Rightarrow> bool" where
  "rate_range r \<longleftrightarrow> (0 < r \<longrightarrow> 1 / 2 ^ 20 \<le> r \<and> r \<le> 2 ^ 44)"

definition window_range :: "window \<Rightarrow> bool" where
  "window_range win \<longleftrightarrow> (case win of (ts, rate, n) \<Rightarrow>
     stamp_range ts \<and> rate_range rate \<and> 0 < rate \<and> 1 \<le> n \<and> n \<le> 2 ^ 53)"

definition stat_range :: "nat \<Rightarrow> stream_stat \<Rightarrow> bool" where
  "stat_range i s \<longleftrightarrow>
     0 \<le> expected s \<and> expected s \<le> of_nat (2 * i) * 2 ^ 78 \<and> 0 \<le> delivered s \<and> delivered s \<le> int i * 2 ^ 53 \<and>
     (0 < i \<longrightarrow> 1 \<le> expected s \<and> 1 \<le> delivered s) \<and>
     (\<forall>e. last_end s = Some e \<longrightarrow> 0 \<le> e \<and> e \<le> 2 ^ 74 \<and> on_grid (- 96) e) \<and>
     (\<forall>r. cur_rate s = Some r \<longrightarrow> 1 / 2 ^ 20 \<le> r \<and> r \<le> 2 ^ 44)"

lemma normal_between: "1 / 2 ^ 200 \<le> x \<Longrightarrow> x \<le> 2 ^ 200 \<Longrightarrow> normal x"
  by (rule normalI [of "- 200" x 200]) (simp_all add: power_int_minus inverse_eq_divide)

lemma normal_range: "1 / 2 ^ j \<le> x \<Longrightarrow> x \<le> 2 ^ k \<Longrightarrow> j \<le> 1022 \<Longrightarrow> k \<le> 1023 \<Longrightarrow> normal x"
  by (rule normalI [of "- int j" x "int k"]) (simp_all add: power_int_minus inverse_eq_divide)

lemma normal_minus [simp]: "normal (- x) \<longleftrightarrow> normal x"
  by (simp add: normal_def)

lemma normal_0 [simp]: "normal 0"
  by (simp add: normal_def)

lemma is_float_power2: "is_float (2 ^ k)"
  using is_float_powi [of "int k"] by simp

lemma is_float_inverse_power2: "is_float (1 / 2 ^ k)"
  using is_float_powi [of "- int k"] by (simp add: power_int_minus inverse_eq_divide)

lemma fl_between: "1 / 2 ^ j \<le> x \<Longrightarrow> x \<le> 2 ^ k \<Longrightarrow> 1 / 2 ^ j \<le> fl x \<and> fl x \<le> 2 ^ k"
  using dbl.rnd_ge [OF is_float_inverse_power2] dbl.rnd_le [OF is_float_power2] by blast

lemma grid_between:
  assumes "on_grid (- 96) x" "\<bar>x\<bar> \<le> 2 ^ 75"
  shows "normal x" "0 < x \<Longrightarrow> 1 / 2 ^ 96 \<le> x"
proof -
  have least: "1 / 2 ^ 96 \<le> y" if "on_grid (- 96) y" "0 < y" for y
    using on_grid_least [OF that] by (simp add: power_int_minus inverse_eq_divide)
  show "0 < x \<Longrightarrow> 1 / 2 ^ 96 \<le> x" using assms(1) by (rule least)
  have neg: "on_grid (- 96) (- x)" using on_grid_diff [of "- 96" 0 x] assms(1) by (auto simp: on_grid_def intro: exI [of _ 0])
  consider "x = 0" | "0 < x" | "0 < - x" by linarith
  then show "normal x"
  proof cases
    case 2
    with least [OF assms(1)] assms(2) show ?thesis by (intro normal_between) simp_all
  next
    case 3
    with least [OF neg] assms(2) have "normal (- x)" by (intro normal_between) simp_all
    then show ?thesis by simp
  qed simp
qed

lemma accumulate:
  assumes "0 \<le> x" "x \<le> of_nat c * 2 ^ 78" "0 \<le> y" "y \<le> 2 ^ 78" "Suc c \<le> 2 ^ 53" "1 / 2 ^ 120 \<le> y"
  shows "fadd64 x y = Some (fadd x y)" "fadd x y \<le> of_nat (Suc c) * 2 ^ 78" "fl y \<le> fadd x y" "1 \<le> x \<Longrightarrow> 1 \<le> fadd x y"
proof -
  have sum: "x + y \<le> of_nat (Suc c) * 2 ^ 78" using assms(2,4) by (simp add: algebra_simps)
  have "of_nat (Suc c) \<le> (of_nat (2 ^ 53) :: rat)" using assms(5) by (simp only: of_nat_le_iff)
  then have "of_nat (Suc c) * 2 ^ 78 \<le> (of_nat (2 ^ 53) * 2 ^ 78 :: rat)" by (intro mult_right_mono) simp_all
  with sum have "x + y \<le> of_nat (2 ^ 53) * 2 ^ 78" by (rule order_trans)
  with assms(1,6) have "normal (x + y)" by (intro normal_between) simp_all
  then show "fadd64 x y = Some (fadd x y)" by (simp add: fadd64_def fadd_def fl64_normal)
  have "int (Suc c) \<le> int (2 ^ 53)" using assms(5) by (simp only: of_nat_le_iff)
  then have "is_float (of_int (int (Suc c)) * 2 powi 78)" by (intro is_float_scaled) simp
  then have "is_float (of_nat (Suc c) * 2 ^ 78)" by simp
  then show "fadd x y \<le> of_nat (Suc c) * 2 ^ 78" unfolding fadd_def using sum by (rule dbl.rnd_le)
  show "fl y \<le> fadd x y" unfolding fadd_def using assms(1) by (intro fl_mono) simp
  show "1 \<le> fadd x y" if "1 \<le> x" unfolding fadd_def using that assms(3) is_float_power2 [of 0]
    by (intro dbl.rnd_ge) simp_all
qed

text \<open>The gap before a window, and what it adds.\<close>

lemma gap_in_range:
  assumes "is_float ts" "ts = 0 \<or> 1 / 2 ^ 40 \<le> ts" "ts \<le> 2 ^ 34" "0 \<le> e" "e \<le> 2 ^ 74" "on_grid (- 96) e"
    and "1 / 2 ^ 20 \<le> r" "r \<le> 2 ^ 44"
  shows "fsub64 ts e = Some (fsub ts e)"
    "0 < fsub ts e \<Longrightarrow> fmul64 r (fsub ts e) = Some (fmul r (fsub ts e)) \<and>
       1 / 2 ^ 120 \<le> fmul r (fsub ts e) \<and> fmul r (fsub ts e) \<le> 2 ^ 78"
proof -
  have ts: "on_grid (- 96) ts"
  proof (cases "ts = 0")
    case True
    then show ?thesis by (auto simp: on_grid_def intro: exI [of _ 0])
  next
    case False
    with assms(2) have "2 powi (- 40) \<le> ts" by (simp add: power_int_minus inverse_eq_divide)
    from float_grid [OF assms(1) this] show ?thesis by (rule on_grid_finer) simp
  qed
  have ts0: "0 \<le> ts" using assms(2) by auto
  have grid: "on_grid (- 96) (ts - e)" using ts assms(6) by (rule on_grid_diff)
  have "\<bar>ts - e\<bar> \<le> 2 ^ 75" using ts0 assms(3-5) by (simp add: abs_le_iff)
  from grid_between(1) [OF grid this] show "fsub64 ts e = Some (fsub ts e)"
    by (simp add: fsub64_def fsub_def fl64_normal)
  assume pos: "0 < fsub ts e"
  have "fsub ts e \<le> 2 ^ 34" unfolding fsub_def using assms(3,4) by (intro dbl.rnd_le is_float_power2) simp
  moreover have "1 / 2 ^ 96 \<le> fsub ts e"
    using grid_between(2) [OF on_grid_fl [OF grid]] pos calculation by (simp add: fsub_def)
  ultimately have "1 / 2 ^ 20 * (1 / 2 ^ 96) \<le> r * fsub ts e" "r * fsub ts e \<le> 2 ^ 44 * 2 ^ 34"
    using assms(7,8) pos by (intro mult_mono; simp)+
  then have b: "1 / 2 ^ 120 \<le> r * fsub ts e" "r * fsub ts e \<le> 2 ^ 78" by simp_all
  then have "normal (r * fsub ts e)" by (rule normal_range) simp_all
  with fl_between [OF b] show "fmul64 r (fsub ts e) = Some (fmul r (fsub ts e)) \<and>
      1 / 2 ^ 120 \<le> fmul r (fsub ts e) \<and> fmul r (fsub ts e) \<le> 2 ^ 78"
    by (simp add: fmul64_def fmul_def fl64_normal)
qed

text \<open>The end of a window.\<close>

lemma end_in_range:
  assumes "is_float ts" "ts = 0 \<or> 1 / 2 ^ 40 \<le> ts" "ts \<le> 2 ^ 34" "1 / 2 ^ 20 \<le> r" "r \<le> 2 ^ 44" "1 \<le> n" "n \<le> 2 ^ 53"
  shows "of_pyint64 n = Some (of_pyint n)" "of_pyint n = of_int n"
    "fdiv64 (of_pyint n) r = Some (fdiv (of_pyint n) r)"
    "fadd64 ts (fdiv (of_pyint n) r) = Some (fadd ts (fdiv (of_pyint n) r))"
    "0 \<le> fadd ts (fdiv (of_pyint n) r)" "fadd ts (fdiv (of_pyint n) r) \<le> 2 ^ 74"
    "on_grid (- 96) (fadd ts (fdiv (of_pyint n) r))"
proof -
  have n: "1 \<le> (of_int n :: rat)" "(of_int n :: rat) \<le> 2 ^ 53"
    using assms(6,7) of_int_le_iff [of n "2 ^ 53", where 'a = rat] by simp_all
  show k: "of_pyint n = of_int n" using assms(6,7) by (intro of_pyint_exact) simp
  have "normal (of_int n)" using n by (intro normal_between) simp_all
  then show "of_pyint64 n = Some (of_pyint n)" by (simp add: of_pyint64_def of_pyint_def fl64_normal)
  have r: "0 < r" using assms(4) by (rule order_less_le_trans [rotated]) simp
  have "1 / 2 ^ 44 \<le> of_int n / r" using n(1) r assms(5) by (intro frac_le) simp_all
  moreover have "of_int n / r \<le> 2 ^ 53 / (1 / 2 ^ 20)" using n r assms(4) by (intro frac_le) simp_all
  ultimately have q: "1 / 2 ^ 44 \<le> of_int n / r" "of_int n / r \<le> 2 ^ 73" by simp_all
  then have "normal (of_int n / r)" by (rule normal_range) simp_all
  then show "fdiv64 (of_pyint n) r = Some (fdiv (of_pyint n) r)" by (simp add: fdiv64_def fdiv_def k fl64_normal)
  let ?d = "fdiv (of_pyint n) r"
  have d: "1 / 2 ^ 44 \<le> ?d" "?d \<le> 2 ^ 73" "is_float ?d" unfolding fdiv_def k using fl_between [OF q] fl_is_float by blast+
  have ts0: "0 \<le> ts" using assms(2) by auto
  have s: "1 / 2 ^ 44 \<le> ts + ?d" "ts + ?d \<le> 2 ^ 74" using ts0 d(1,2) assms(3) by simp_all
  then have "normal (ts + ?d)" by (rule normal_range) simp_all
  then show "fadd64 ts ?d = Some (fadd ts ?d)" by (simp add: fadd64_def fadd_def fl64_normal)
  show "0 \<le> fadd ts ?d" "fadd ts ?d \<le> 2 ^ 74"
    unfolding fadd_def using fl_between [OF s] by (auto intro: order_trans [rotated])
  have "2 powi (- 44) \<le> ?d" using d(1) by (simp add: power_int_minus inverse_eq_divide)
  from float_grid [OF d(3) this] have gd: "on_grid (- 96) ?d" by simp
  have "on_grid (- 96) ts"
  proof (cases "ts = 0")
    case False
    with assms(2) have "2 powi (- 40) \<le> ts" by (simp add: power_int_minus inverse_eq_divide)
    from float_grid [OF assms(1) this] show ?thesis by (rule on_grid_finer) simp
  qed (auto simp: on_grid_def intro: exI [of _ 0])
  then show "on_grid (- 96) (fadd ts ?d)" unfolding fadd_def using gd by (intro on_grid_fl on_grid_add)
qed

text \<open>What a commit adds to \<open>expected\<close>, before the window's own samples.\<close>

definition gap_charged :: "rat \<Rightarrow> stream_stat \<Rightarrow> rat" where
  "gap_charged ts s = (case (last_end s, cur_rate s) of
     (Some end_ts, Some r) \<Rightarrow>
       let gap = fsub ts end_ts in if 0 < gap then fadd (expected s) (fmul r gap) else expected s
   | _ \<Rightarrow> expected s)"

lemma gap_charged_range:
  assumes "stat_range i s" "window_range (ts, rate, n)" "2 * Suc i \<le> 2 ^ 53"
  shows "gap_charged64 ts s = Some (gap_charged ts s)"
    "0 \<le> gap_charged ts s" "gap_charged ts s \<le> of_nat (Suc (2 * i)) * 2 ^ 78"
    "0 < i \<Longrightarrow> 1 \<le> gap_charged ts s"
proof -
  have x: "0 \<le> expected s" "expected s \<le> of_nat (2 * i) * 2 ^ 78" "0 < i \<Longrightarrow> 1 \<le> expected s"
    using assms(1) by (simp_all add: stat_range_def)
  have more: "expected s \<le> of_nat (Suc (2 * i)) * 2 ^ 78"
    using x(2) by (rule order_trans) (intro mult_right_mono; simp)
  have w: "is_float ts" "ts = 0 \<or> 1 / 2 ^ 40 \<le> ts" "ts \<le> 2 ^ 34"
    using assms(2) by (simp_all add: window_range_def stamp_range_def)
  have "gap_charged64 ts s = Some (gap_charged ts s) \<and>
    0 \<le> gap_charged ts s \<and> gap_charged ts s \<le> of_nat (Suc (2 * i)) * 2 ^ 78 \<and> (0 < i \<longrightarrow> 1 \<le> gap_charged ts s)"
  proof (cases "\<exists>e r. last_end s = Some e \<and> cur_rate s = Some r \<and> 0 < fsub ts e")
    case True
    then obtain e r where er: "last_end s = Some e" "cur_rate s = Some r" "0 < fsub ts e" by blast
    with assms(1) have b: "0 \<le> e" "e \<le> 2 ^ 74" "on_grid (- 96) e" "1 / 2 ^ 20 \<le> r" "r \<le> 2 ^ 44"
      by (simp_all add: stat_range_def)
    note gap = gap_in_range(1) [OF w b] gap_in_range(2) [OF w b er(3)]
    let ?p = "fmul r (fsub ts e)"
    have p: "0 \<le> ?p" "?p \<le> 2 ^ 78" "1 / 2 ^ 120 \<le> ?p" using gap(2) by (auto intro: order_trans [rotated])
    have "Suc (2 * i) \<le> 2 ^ 53" using assms(3) by simp
    note acc = accumulate [OF x(1,2) p(1,2) this p(3)]
    have "0 \<le> fl ?p" using p(1) by (rule dbl.rnd_nonneg [rotated]) simp
    then have "0 \<le> fadd (expected s) ?p" using acc(3) by (rule order_trans)
    with gap acc(1,2,4) x(3) er show ?thesis by (simp add: gap_charged_def gap_charged64_def)
  next
    case False
    have "fsub64 ts e = Some (fsub ts e)" if "last_end s = Some e" "cur_rate s = Some r" for e r
      using gap_in_range(1) [OF w, of e r] assms(1) that by (simp add: stat_range_def)
    with False x more show ?thesis by (auto simp: gap_charged_def gap_charged64_def split: option.split)
  qed
  then show "gap_charged64 ts s = Some (gap_charged ts s)"
    "0 \<le> gap_charged ts s" "gap_charged ts s \<le> of_nat (Suc (2 * i)) * 2 ^ 78"
    "0 < i \<Longrightarrow> 1 \<le> gap_charged ts s" by blast+
qed

lemma commit64_range:
  assumes "stat_range i s" "window_range win" "2 * Suc i \<le> 2 ^ 53"
  shows "commit64 win s = Some (commit win s)" "stat_range (Suc i) (commit win s)"
proof -
  obtain ts rate n where win: "win = (ts, rate, n)" by (metis prod_cases3)
  have w: "is_float ts" "ts = 0 \<or> 1 / 2 ^ 40 \<le> ts" "ts \<le> 2 ^ 34" "1 / 2 ^ 20 \<le> rate" "rate \<le> 2 ^ 44" "1 \<le> n" "n \<le> 2 ^ 53"
    using assms(2) by (simp_all add: window_range_def stamp_range_def rate_range_def win)
  note gap = gap_charged_range [OF assms(1) assms(2) [unfolded win] assms(3)]
  note last = end_in_range [OF w]
  let ?k = "of_pyint n"
  have k: "1 \<le> ?k" "?k \<le> 2 ^ 53" unfolding last(2)
    using w(6,7) of_int_le_iff [of n "2 ^ 53", where 'a = rat] by simp_all
  then have k': "0 \<le> ?k" "?k \<le> 2 ^ 78" "1 / 2 ^ 120 \<le> ?k" by (auto intro: order_trans [rotated] order_trans)
  have le: "Suc (Suc (2 * i)) \<le> 2 ^ 53" using assms(3) by simp
  note acc = accumulate [OF gap(2,3) k'(1,2) le k'(3)]
  have "fl ?k = ?k" by (simp add: of_pyint_def fl_id fl_is_float)
  with acc(3) k(1) have one: "1 \<le> fadd (gap_charged ts s) ?k" by simp
  show "commit64 win s = Some (commit win s)"
    unfolding commit64_def win prod.case gap(1) Option.bind.bind_lunit last(1) acc(1) last(3,4)
    by (simp add: commit_def Let_def gap_charged_def)
  have c: "commit win s = (let s1 = s\<lparr>expected := fadd (gap_charged ts s) ?k, delivered := delivered s + n\<rparr>;
      end_ts = fadd ts (fdiv ?k rate)
    in if (case last_end s of None \<Rightarrow> True | Some f \<Rightarrow> f < end_ts)
       then s1\<lparr>last_end := Some end_ts, cur_rate := Some rate\<rparr> else s1)"
    by (simp add: win commit_def Let_def gap_charged_def)
  have d: "0 \<le> delivered s" "delivered s \<le> int i * 2 ^ 53" using assms(1) by (simp_all add: stat_range_def)
  then have d': "1 \<le> delivered s + n" "delivered s + n \<le> int (Suc i) * 2 ^ 53" using w(6,7) by (simp_all add: algebra_simps)
  have two: "Suc (Suc (2 * i)) = 2 * Suc i" by simp
  from assms(1) one acc(2) [unfolded two] d' last(5-7) w(4,5) show "stat_range (Suc i) (commit win s)"
    unfolding c by (auto simp: stat_range_def Let_def)
qed

section \<open>A whole stream\<close>

text \<open>A stream that has committed \<open>i\<close> windows and holds the others.\<close>

definition stream_range :: "nat \<Rightarrow> stream_stat \<Rightarrow> bool" where
  "stream_range n s \<longleftrightarrow> (\<exists>i. stat_range i s \<and> i + length (pending s) = n) \<and> (\<forall>win \<in> set (pending s). window_range win)"

lemma stat_range_pending [simp]: "stat_range i (s\<lparr>pending := h\<rparr>) = stat_range i s"
  by (simp add: stat_range_def)

lemma stream_range_new: "stream_range 0 new_stat"
  by (simp add: stream_range_def stat_range_def new_stat_def)

lemma heap_parts:
  assumes "heappop h = (win, rest)" "h \<noteq> []"
  shows "length h = Suc (length rest)" "set h = insert win (set rest)"
  using assms by (cases h; auto simp: heappop_def)+

lemma pop_commit_range:
  assumes "stream_range n s" "pending s \<noteq> []" "heappop (pending s) = (win, rest)" "2 * n \<le> 2 ^ 53"
  shows "commit64 win (s\<lparr>pending := rest\<rparr>) = Some (commit win (s\<lparr>pending := rest\<rparr>))"
    "stream_range n (commit win (s\<lparr>pending := rest\<rparr>))"
proof -
  obtain i where i: "stat_range i s" "i + length (pending s) = n" and r: "\<forall>win \<in> set (pending s). window_range win"
    using assms(1) by (auto simp: stream_range_def)
  note h = heap_parts [OF assms(3,2)]
  have "stat_range i (s\<lparr>pending := rest\<rparr>)" "window_range win" "2 * Suc i \<le> 2 ^ 53" using i r h assms(4) by simp_all
  note c = commit64_range [OF this]
  then show "commit64 win (s\<lparr>pending := rest\<rparr>) = Some (commit win (s\<lparr>pending := rest\<rparr>))" by blast
  show "stream_range n (commit win (s\<lparr>pending := rest\<rparr>))"
    using c(2) i(2) r h unfolding stream_range_def by (intro conjI exI [of _ "Suc i"]) simp_all
qed

lemma stat_add64_range:
  assumes "stream_range n s" "window_range (ts, rate, k)" "2 * Suc n \<le> 2 ^ 53"
  shows "stat_add64 ts rate k s = Some (stat_add ts rate k s) \<and> stream_range (Suc n) (stat_add ts rate k s)"
proof -
  let ?s = "s\<lparr>pending := heappush (ts, rate, k) (pending s)\<rparr>"
  have s: "stream_range (Suc n) ?s"
    using assms(1,2) by (auto simp: stream_range_def heappush_def set_insort_key)
  show ?thesis
  proof (cases "REORDER_WINDOW < int (length (pending ?s))")
    case True
    obtain win rest where h: "heappop (pending ?s) = (win, rest)" by (metis surj_pair)
    have ne: "pending ?s \<noteq> []" using True by (auto simp: REORDER_WINDOW_def)
    from pop_commit_range [OF s ne h assms(3)] True h show ?thesis
      by (simp add: stat_add64_def stat_add_def Let_def)
  next
    case False
    with s show ?thesis by (simp add: stat_add64_def stat_add_def Let_def)
  qed
qed

lemma feed64_range:
  "stream_range n s \<Longrightarrow> \<forall>win \<in> set ws. window_range win \<Longrightarrow> 2 * (n + length ws) \<le> 2 ^ 53 \<Longrightarrow>
     feed64 ws s = Some (fold window_add ws s) \<and> stream_range (n + length ws) (fold window_add ws s)"
proof (induction ws arbitrary: n s)
  case (Cons win ws)
  obtain ts rate k where win: "win = (ts, rate, k)" by (metis prod_cases3)
  from stat_add64_range [OF Cons.prems(1), of ts rate k] Cons.prems win
  have a: "stat_add64 ts rate k s = Some (stat_add ts rate k s)" "stream_range (Suc n) (stat_add ts rate k s)" by simp_all
  from Cons.IH [OF a(2)] Cons.prems a(1) show ?case by (simp add: win window_add_def)
qed simp

lemma stat_finalize64_range:
  "stream_range n s \<Longrightarrow> 2 * n \<le> 2 ^ 53 \<Longrightarrow>
     stat_finalize64 s = Some (stat_finalize s) \<and> stream_range n (stat_finalize s)"
proof (induction s rule: stat_finalize.induct)
  case (1 s)
  show ?case
  proof (cases "pending s = []")
    case True
    with 1 show ?thesis by (simp add: stat_finalize64.simps [of s] stat_finalize.simps [of s])
  next
    case False
    obtain win rest where h: "heappop (pending s) = (win, rest)" by (metis surj_pair)
    note c = pop_commit_range [OF "1.prems"(1) False h "1.prems"(2)]
    from "1.IH" [OF False h [symmetric] c(2) "1.prems"(2)] c(1) False h show ?thesis
      by (simp add: stat_finalize64.simps [of s] stat_finalize.simps [of s])
  qed
qed

lemma efficiency64_range:
  assumes "stream_range n s" "pending s = []" "0 < n" "2 * n \<le> 2 ^ 53"
  shows "efficiency64 s = Some (efficiency s)"
proof -
  have r: "stat_range n s" using assms(1,2) by (auto simp: stream_range_def)
  then have e: "1 \<le> expected s" "expected s \<le> of_nat (2 * n) * 2 ^ 78" and d: "1 \<le> delivered s" "delivered s \<le> int n * 2 ^ 53"
    using assms(3) by (simp_all add: stat_range_def)
  have "of_nat (2 * n) \<le> (of_nat (2 ^ 53) :: rat)" using assms(4) by (simp only: of_nat_le_iff)
  then have "of_nat (2 * n) * 2 ^ 78 \<le> (of_nat (2 ^ 53) * 2 ^ 78 :: rat)" by (intro mult_right_mono) simp_all
  with e(2) have e2: "expected s \<le> 2 ^ 131" by simp
  have "int n \<le> 2 ^ 53" using assms(4) by simp
  then have "delivered s \<le> 2 ^ 53 * 2 ^ 53" using d(2) by (intro order_trans [OF d(2)] mult_right_mono) simp_all
  then have "(of_int (delivered s) :: rat) \<le> of_int (2 ^ 106)" by (subst of_int_le_iff) simp
  then have b: "1 / 2 ^ 0 \<le> (of_int (delivered s) :: rat)" "(of_int (delivered s) :: rat) \<le> 2 ^ 106" using d(1) by simp_all
  let ?d = "of_pyint (delivered s)"
  have "normal (of_int (delivered s))" using b by (rule normal_range) simp_all
  then have 1: "of_pyint64 (delivered s) = Some ?d" by (simp add: of_pyint64_def of_pyint_def fl64_normal)
  have d: "1 \<le> ?d" "?d \<le> 2 ^ 106" using fl_between [OF b] by (simp_all add: of_pyint_def)
  then have m: "1 / 2 ^ 0 \<le> 100 * ?d" "100 * ?d \<le> 2 ^ 113" by simp_all
  then have "normal (100 * ?d)" by (rule normal_range) simp_all
  then have 2: "fmul64 100 ?d = Some (fmul 100 ?d)" by (simp add: fmul64_def fmul_def fl64_normal)
  have f: "1 \<le> fmul 100 ?d" "fmul 100 ?d \<le> 2 ^ 113" using fl_between [OF m] by (simp_all add: fmul_def)
  have "1 / 2 ^ 131 \<le> fmul 100 ?d / expected s" "fmul 100 ?d / expected s \<le> 2 ^ 113 / 1"
    using f e(1) e2 by (intro frac_le; simp)+
  then have "normal (fmul 100 ?d / expected s)" by (intro normal_range [of 131 _ 113]) simp_all
  with 1 2 show ?thesis by (simp add: efficiency64_def efficiency_def fdiv64_def fdiv_def fl64_normal)
qed

text \<open>Integrating the windows of a stream, draining its jitter buffer and forming the ratio never overflows
  or loses bits to the bounded exponent, for up to \<open>2 ^ 52\<close> windows in range.\<close>

lemma capture_doubles:
  assumes "capture_summary (meter_all us m0) = (Some rep, m')" "stream_of k m0 = new_stat" "windows_of k us \<noteq> []"
    and "\<forall>win \<in> set (windows_of k us). window_range win" "length (windows_of k us) \<le> 2 ^ 52"
  shows "\<exists>s. Option.bind (feed64 (windows_of k us) new_stat) stat_finalize64 = Some s \<and>
    same_integral (stream_of k m') s \<and> efficiency64 s = Some (efficiency (stream_of k m'))"
proof -
  let ?ws = "windows_of k us" and ?s = "stat_finalize (fold window_add (windows_of k us) new_stat)"
  have n: "2 * (0 + length ?ws) \<le> 2 ^ 53" using assms(5) by simp
  note f = feed64_range [OF stream_range_new assms(4) n]
  have n': "2 * length ?ws \<le> 2 ^ 53" "0 < length ?ws" using n assms(3) by simp_all
  note z = stat_finalize64_range [OF conjunct2 [OF f, simplified] n'(1)]
  have same: "same_integral (stream_of k m') ?s"
    using same_integral_finalize [OF meter_all_windows [of k us m0]] capture_streams(3) [OF assms(1)] assms(2) by simp
  have "pending ?s = []" by (simp add: finalize_commits)
  from efficiency64_range [OF conjunct2 [OF z] this n'(2,1)] have "efficiency64 ?s = Some (efficiency ?s)" .
  moreover have "efficiency ?s = efficiency (stream_of k m')" using same by (simp add: efficiency_def same_integral_def)
  ultimately show ?thesis using f z same by (intro exI [of _ ?s]) simp
qed

section \<open>What a packet can carry\<close>

definition timestamp64 :: "header \<Rightarrow> rat option" where
  "timestamp64 h =
     Option.bind (of_pyint64 (case int_ts h of None \<Rightarrow> 0 | Some s \<Rightarrow> s)) (\<lambda>s.
     Option.bind (of_pyint64 (case frac_ps h of None \<Rightarrow> 0 | Some p \<Rightarrow> p)) (\<lambda>p.
     Option.bind (fdiv64 p (10 ^ 12)) (fadd64 s)))"

definition int_div64 :: "int \<Rightarrow> int \<Rightarrow> rat option" where
  "int_div64 a b = fl64 (of_int a / of_int b)"

definition freq_field64 :: "bytes \<Rightarrow> rat option" where
  "freq_field64 field = int_div64 (to_signed 64 (be_int field)) RADIX_FREQ_HZ"

definition gain_field64 :: "bytes \<Rightarrow> rat option" where
  "gain_field64 field =
    Option.bind (int_div64 (to_signed 16 (be_int (py_slice field 0 2))) RADIX_GAIN_DB) (\<lambda>stage2.
    Option.bind (int_div64 (to_signed 16 (be_int (py_slice field 2 4))) RADIX_GAIN_DB) (\<lambda>stage1.
      fadd64 stage2 stage1))"

lemma timestamp_range:
  assumes "header_wf h"
  shows "timestamp64 h = Some (timestamp h)" "stamp_range (timestamp h)"
proof -
  define s where "s = (case int_ts h of None \<Rightarrow> 0 | Some s \<Rightarrow> s)"
  define p where "p = (case frac_ps h of None \<Rightarrow> 0 | Some p \<Rightarrow> p)"
  have r: "0 \<le> s" "s < 2 ^ 32" "0 \<le> p" "p < 2 ^ 64"
    using assms by (auto simp: header_wf_def s_def p_def split: option.split)
  have s: "of_pyint64 s = Some (of_int s)" "of_pyint s = of_int s" "0 \<le> (of_int s :: rat)" "(of_int s :: rat) \<le> 2 ^ 32"
    "s = 0 \<or> 1 \<le> (of_int s :: rat)"
  proof -
    show e: "of_pyint s = of_int s" using r by (intro of_pyint_exact) simp
    show le: "(of_int s :: rat) \<le> 2 ^ 32" using r(2) of_int_le_iff [of s "2 ^ 32", where 'a = rat] by simp
    show one: "s = 0 \<or> 1 \<le> (of_int s :: rat)" "0 \<le> (of_int s :: rat)" using r(1) by auto
    have "normal (of_int s)"
    proof (cases "s = 0")
      case False
      with one have "1 / 2 ^ 0 \<le> (of_int s :: rat)" by simp
      from this le show ?thesis by (rule normal_range) simp_all
    qed simp
    with e show "of_pyint64 s = Some (of_int s)" by (simp add: of_pyint64_def of_pyint_def fl64_normal)
  qed
  have p: "of_pyint64 p = Some (of_pyint p)" "p = 0 \<or> 1 \<le> of_pyint p" "of_pyint p \<le> 2 ^ 64" "of_pyint 0 = 0"
  proof -
    have le: "(of_int p :: rat) \<le> 2 ^ 64" using r(4) of_int_le_iff [of p "2 ^ 64", where 'a = rat] by simp
    then show "of_pyint p \<le> 2 ^ 64" unfolding of_pyint_def by (rule dbl.rnd_le [OF is_float_power2])
    show "of_pyint 0 = 0" by (simp add: of_pyint_def)
    have "normal (of_int p) \<and> (p = 0 \<or> 1 \<le> of_pyint p)"
    proof (cases "p = 0")
      case False
      with r(3) have one: "1 / 2 ^ 0 \<le> (of_int p :: rat)" by simp
      from fl_between [OF one le] normal_range [OF one le] show ?thesis by (simp add: of_pyint_def)
    qed simp
    then show "of_pyint64 p = Some (of_pyint p)" "p = 0 \<or> 1 \<le> of_pyint p"
      by (simp_all add: of_pyint64_def of_pyint_def fl64_normal)
  qed
  let ?f = "fdiv (of_pyint p) (10 ^ 12)"
  have f: "fdiv64 (of_pyint p) (10 ^ 12) = Some ?f" "?f = 0 \<or> 1 / 2 ^ 40 \<le> ?f" "?f \<le> 2 ^ 25" "p = 0 \<Longrightarrow> ?f = 0"
  proof -
    show z: "p = 0 \<Longrightarrow> ?f = 0" by (simp add: fdiv_def p(4))
    have "fdiv64 (of_pyint p) (10 ^ 12) = Some ?f \<and> (?f = 0 \<or> 1 / 2 ^ 40 \<le> ?f) \<and> ?f \<le> 2 ^ 25"
    proof (cases "p = 0")
      case True
      with z p(4) show ?thesis by (simp add: fdiv64_def fl64_normal)
    next
      case False
      with p(2,3) have b: "1 / 2 ^ 40 \<le> of_pyint p / 10 ^ 12" "of_pyint p / 10 ^ 12 \<le> 2 ^ 25" by simp_all
      from normal_range [OF b] fl_between [OF b] show ?thesis by (simp add: fdiv64_def fdiv_def fl64_normal)
    qed
    then show "fdiv64 (of_pyint p) (10 ^ 12) = Some ?f" "?f = 0 \<or> 1 / 2 ^ 40 \<le> ?f" "?f \<le> 2 ^ 25" by blast+
  qed
  have t: "timestamp h = fadd (of_int s) ?f" by (simp add: timestamp_def s_def [symmetric] p_def [symmetric] s(2))
  have float: "is_float (timestamp h)" by (simp add: t fadd_def fl_is_float)
  have nn: "0 \<le> ?f" using f(2) by (auto intro: order_trans [rotated])
  have t64: "timestamp64 h = fadd64 (of_int s) ?f"
    by (simp only: timestamp64_def s_def [symmetric] p_def [symmetric] s(1) p(1) f(1) Option.bind.simps)
  show "timestamp64 h = Some (timestamp h)" "stamp_range (timestamp h)"
  proof -
    have "timestamp64 h = Some (timestamp h) \<and> (timestamp h = 0 \<or> 1 / 2 ^ 40 \<le> timestamp h) \<and> timestamp h \<le> 2 ^ 34"
    proof (cases "of_int s + ?f = 0")
      case True
      then show ?thesis by (simp add: t t64 fadd64_def fadd_def fl64_normal)
    next
      case False
      have "1 / 2 ^ 40 \<le> of_int s + ?f" using s(3,5) f(2) nn False by auto
      moreover have "of_int s + ?f \<le> 2 ^ 34" using s(4) f(3) by simp
      ultimately show ?thesis
        using normal_range [of 40 "of_int s + ?f" 34] fl_between [of 40 "of_int s + ?f" 34]
        by (simp add: t t64 fadd64_def fadd_def fl64_normal)
    qed
    with float show "timestamp64 h = Some (timestamp h)" "stamp_range (timestamp h)"
      by (simp_all add: stamp_range_def)
  qed
qed

lemma to_signed_bounds:
  assumes "0 < w" "0 \<le> v" "v < 2 ^ w"
  shows "- (2 ^ (w - 1)) \<le> to_signed w v" "to_signed w v < 2 ^ (w - 1)"
proof -
  have "(2 :: int) ^ w = 2 * 2 ^ (w - 1)" using assms(1) by (cases w) auto
  with assms(2,3) show "- (2 ^ (w - 1)) \<le> to_signed w v" "to_signed w v < 2 ^ (w - 1)"
    by (auto simp: to_signed_def)
qed

text \<open>A fixed-point field: an integer over a power of two.\<close>

lemma int_div64_range:
  assumes "\<bar>n\<bar> \<le> 2 ^ 63" "m = 2 ^ j" "j \<le> 20"
  shows "int_div64 n m = Some (int_div n m)" "0 < int_div n m \<Longrightarrow> 1 / 2 ^ 20 \<le> int_div n m" "int_div n m \<le> 2 ^ 63"
    "\<bar>n\<bar> \<le> 2 ^ 15 \<Longrightarrow> int_div n m = of_int n / 2 ^ j"
proof -
  have grid: "1 / 2 ^ 20 \<le> \<bar>of_int n / of_int m :: rat\<bar>" if "n \<noteq> 0"
  proof -
    have "1 \<le> \<bar>n\<bar>" using that by simp
    then have "(of_int 1 :: rat) \<le> of_int \<bar>n\<bar>" by (simp only: of_int_le_iff)
    then have "1 \<le> (of_int \<bar>n\<bar> :: rat)" by simp
    moreover have "(2 :: rat) ^ j \<le> 2 ^ 20" using assms(3) by (intro power_increasing) simp_all
    ultimately have "1 / 2 ^ 20 \<le> (of_int \<bar>n\<bar> :: rat) / 2 ^ j" by (intro frac_le) simp_all
    then show ?thesis by (simp add: assms(2) abs_divide)
  qed
  have "(of_int \<bar>n\<bar> :: rat) \<le> of_int (2 ^ 63)" using assms(1) by (simp only: of_int_le_iff)
  moreover have "(1 :: rat) \<le> 2 ^ j" by simp
  ultimately have "(of_int \<bar>n\<bar> :: rat) / 2 ^ j \<le> 2 ^ 63 / 1" by (intro frac_le) simp_all
  then have le: "\<bar>of_int n / of_int m :: rat\<bar> \<le> 2 ^ 63" by (simp add: assms(2) abs_divide)
  have "normal (of_int n / of_int m)"
  proof (cases "n = 0")
    case False
    from normal_range [OF grid [OF this] le] show ?thesis by (auto simp: normal_def)
  qed simp
  then show "int_div64 n m = Some (int_div n m)" by (simp add: int_div64_def int_div_def fl64_normal)
  have "of_int n / of_int m \<le> (2 :: rat) ^ 63" using le by (rule order_trans [OF abs_ge_self])
  then show "int_div n m \<le> 2 ^ 63" unfolding int_div_def by (rule dbl.rnd_le [OF is_float_power2])
  show "1 / 2 ^ 20 \<le> int_div n m" if "0 < int_div n m"
  proof -
    have pos: "0 < (of_int n / of_int m :: rat)"
      using that fl_mono [of "of_int n / of_int m" 0] by (auto simp: int_div_def not_le [symmetric])
    then have "n \<noteq> 0" by auto
    from grid [OF this] pos show ?thesis unfolding int_div_def by (intro dbl.rnd_ge [OF is_float_inverse_power2]) simp
  qed
  show "int_div n m = of_int n / 2 ^ j" if "\<bar>n\<bar> \<le> 2 ^ 15"
    using int_div_power2_exact [of n j] that by (simp add: assms(2))
qed

lemma freq_range:
  assumes "be_int field < 2 ^ 64"
  shows "\<exists>r. freq_field64 field = Some r \<and> freq_field field = PFloat r \<and> rate_range r"
proof -
  let ?n = "to_signed 64 (be_int field)"
  from to_signed_bounds [OF _ be_int_nonneg assms] have n: "\<bar>?n\<bar> \<le> 2 ^ 63" "?n < 2 ^ 63" by auto
  have m: "RADIX_FREQ_HZ = 2 ^ 20" by (simp add: RADIX_FREQ_HZ_def)
  note d = int_div64_range [OF n(1) m order_refl]
  have "(of_int ?n :: rat) \<le> of_int (2 ^ 63)" using n(2) by (simp only: of_int_le_iff)
  then have "of_int ?n / of_int RADIX_FREQ_HZ \<le> (2 :: rat) ^ 44" by (simp add: m)
  then have "int_div ?n RADIX_FREQ_HZ \<le> 2 ^ 44" unfolding int_div_def by (rule dbl.rnd_le [OF is_float_power2])
  with d show ?thesis by (simp add: freq_field64_def freq_field_def rate_range_def)
qed

lemma gain_range:
  assumes "length field = 4"
  shows "\<exists>g. gain_field64 field = Some g \<and> gain_field field = PFloat g"
proof -
  have m: "RADIX_GAIN_DB = 2 ^ 7" by (simp add: RADIX_GAIN_DB_def)
  have b: "be_int (py_slice field 0 2) < 2 ^ 16" "be_int (py_slice field 2 4) < 2 ^ 16"
    using be_slice_bound [of 0 2 field] be_slice_bound [of 2 2 field] by simp_all
  define n1 where "n1 = to_signed 16 (be_int (py_slice field 0 2))"
  define n2 where "n2 = to_signed 16 (be_int (py_slice field 2 4))"
  have n: "\<bar>n1\<bar> \<le> 2 ^ 15" "\<bar>n2\<bar> \<le> 2 ^ 15"
    using to_signed_bounds [OF _ be_int_nonneg b(1)] to_signed_bounds [OF _ be_int_nonneg b(2)]
    by (auto simp: n1_def n2_def)
  then have n': "\<bar>n1\<bar> \<le> 2 ^ 63" "\<bar>n2\<bar> \<le> 2 ^ 63" by simp_all
  note d = int_div64_range [OF n'(1) m] int_div64_range [OF n'(2) m]
  have sum: "int_div n1 RADIX_GAIN_DB + int_div n2 RADIX_GAIN_DB = of_int (n1 + n2) / of_int (2 ^ 7)"
    using d(4,8) n by (simp add: add_divide_distrib)
  have "\<bar>n1 + n2\<bar> \<le> 2 ^ 63" using n by simp
  from int_div64_range(1) [OF this refl, of 7] have "fadd64 (int_div n1 RADIX_GAIN_DB) (int_div n2 RADIX_GAIN_DB)
      = Some (fadd (int_div n1 RADIX_GAIN_DB) (int_div n2 RADIX_GAIN_DB))"
    unfolding fadd64_def fadd_def sum by (simp add: int_div64_def int_div_def)
  with d(1,5) show ?thesis
    by (simp add: gain_field64_def gain_field_def Let_def n1_def [symmetric] n2_def [symmetric])
qed

text \<open>C17: every double decoded from a packet is the binary64 one. The timestamp of any parsed header, a
  frequency and a gain of any bytes are in the normal range, and a window made of such a timestamp
  and a positive rate is within the range the capture report needs.\<close>

theorem packet_doubles_in_range:
  assumes "parse_header b = Inr h" "length f = 8" "length g = 4"
  shows "timestamp64 h = Some (timestamp h) \<and>
    (\<exists>r. freq_field64 f = Some r \<and> freq_field f = PFloat r \<and>
       (0 < r \<and> 1 \<le> n \<and> n \<le> 2 ^ 53 \<longrightarrow> window_range (timestamp h, r, n))) \<and>
    (\<exists>x. gain_field64 g = Some x \<and> gain_field g = PFloat x)"
proof -
  have "be_int f < 2 ^ 64" using be_int_bound [of f] assms(2) by simp
  with timestamp_range [OF parse_header_wf [OF assms(1)]] freq_range [of f] gain_range [OF assms(3)]
  show ?thesis by (auto simp: window_range_def)
qed

section \<open>Concrete figures\<close>

definition stamped_packet :: bytes where
  "stamped_packet = [0x10, 0x60, 0, 6, 0, 0, 0, 7, 0x68, 0, 0, 0, 0, 0, 0, 1, 0, 0, 0, 0, 0, 0, 0, 9]"

theorem packet_doubles_in_range_witness:
  "\<exists>h. parse_header stamped_packet = Inr h \<and> int_ts h = Some 1744830464 \<and> timestamp64 h = Some (timestamp h) \<and>
     freq_field64 [0, 0, 9, 0x89, 0x68, 0, 0, 0] = Some 10000000 \<and> window_range (timestamp h, 10000000, 100)"
proof -
  have p: "parse_header stamped_packet = Inr \<lparr>packet_type = 1, class_id = None, has_trailer = False, tsi = 1, tsf = 2,
      packet_counter = 0, packet_size = 6, stream_id = Some 7, int_ts = Some 1744830464, frac_ps = Some 4294967296,
      header_len = 20\<rparr>" by code_simp
  have f: "freq_field [0, 0, 9, 0x89, 0x68, 0, 0, 0] = PFloat 10000000"
    by (simp add: freq_field_def RADIX_FREQ_HZ_def to_signed_def int_div_def fl_numeral)
  have "length [0, 0, 9, 0x89, 0x68, 0, 0, 0 :: byte] = 8" "length [0, 0, 0, 0 :: byte] = 4" by simp_all
  from packet_doubles_in_range [OF p this, of 100] f p show ?thesis by simp
qed

end
