(* ===== verification/Metered.thy ===== *)
theory Metered
  imports World_Map Pipeline_Laws Double_Range
begin

text \<open>
  The pipeline as \<open>main\<close> wires it: the callback of the router is the throughput meter, called as a
  function around the consumer (\<open>ThroughputMeter(demo_emit)\<close>). The run is related to one whose world
  keeps the units themselves, so that the figures of the meter are those of the units, whatever the
  consumer does.
\<close>

section \<open>The meter as the callback\<close>

definition metered :: "('f, 'w) env \<Rightarrow> ('f, meter \<times> 'w) env" where
  "metered env =
     \<lparr>monotonic = (\<lambda>(m, w). case monotonic env w of (t, w') \<Rightarrow> (t, (m, w'))), emit = meter_call (emit env),
      np_dtype = np_dtype env, np_float32 = np_float32 env, np_complex64 = np_complex64 env\<rparr>"

text \<open>The same callback over the list of units it was called with.\<close>

definition traced :: "meter \<Rightarrow> ('f, 'w) env \<Rightarrow> ('f, 'f unit_rec list \<times> 'w) env" where
  "traced m0 env =
     \<lparr>monotonic = (\<lambda>(us, w). case monotonic env w of (t, w') \<Rightarrow> (t, (us, w'))),
      emit = (\<lambda>u (us, w). case meter_call (emit env) u (meter_all us m0, w) of (e, (m, w')) \<Rightarrow> (e, (us @ [u], w'))),
      np_dtype = np_dtype env, np_float32 = np_float32 env, np_complex64 = np_complex64 env\<rparr>"

definition meter_view :: "meter \<Rightarrow> 'f unit_rec list \<times> 'w \<Rightarrow> meter \<times> 'w" where
  "meter_view m0 = (\<lambda>(us, w). (meter_all us m0, w))"

lemma meter_all_snoc: "meter_all (us @ [u]) m = snd (tally u (meter_all us m))"
  by (simp add: meter_all_def)

lemma meter_call_meter: "fst (snd (meter_call f u (m, w))) = snd (tally u m)"
  by (simp add: meter_call_def split: prod.split option.split)

interpretation metered: world_map "traced m0 env" "metered env" "meter_view m0"
  for m0 :: meter and env :: "('f, 'w) env"
proof unfold_locales
  fix u :: "'f unit_rec" and v :: "'f unit_rec list \<times> 'w"
  obtain us w where v: "v = (us, w)" by force
  obtain e m w' where c: "meter_call (emit env) u (meter_all us m0, w) = (e, (m, w'))" by (metis prod_cases3)
  then have "m = meter_all (us @ [u]) m0"
    using meter_call_meter [of "emit env" u "meter_all us m0" w] by (simp add: meter_all_snoc)
  with c v show "emit (metered env) u (meter_view m0 v) = (case emit (traced m0 env) u v of (e, v') \<Rightarrow> (e, meter_view m0 v'))"
    by (simp add: metered_def traced_def meter_view_def)
qed (simp_all add: metered_def traced_def meter_view_def split: prod.split)

lemma traced_logs: "numpy_ok env item \<Longrightarrow> env_logs (traced m0 env) item fst"
  by (auto simp: env_logs_def numpy_ok_def traced_def split: prod.split)

lemma traced_numpy: "numpy_formats env \<Longrightarrow> numpy_formats (traced m0 env)"
  by (simp add: numpy_formats_def traced_def)

text \<open>What counts as a window does not depend on the callback.\<close>

lemma traced_usable: "usable (traced m0 env) r = usable env r"
  by (simp add: usable_def convertible_def traced_def)

lemma traced_window:
  "unit_ok (traced m0 env) item fs os u = unit_ok env item fs os u"
  "arrivals (traced m0 env) fs c recs = arrivals env fs c recs"
proof -
  show "unit_ok (traced m0 env) item fs os u = unit_ok env item fs os u"
    by (simp add: unit_ok_def window_ok_def traced_usable)
  have "arrival_of (traced m0 env) fs c rec = arrival_of env fs c rec" for c rec
    by (simp add: arrival_of_def traced_usable split: option.split)
  then show "arrivals (traced m0 env) fs c recs = arrivals env fs c recs" by (induction recs arbitrary: c) simp_all
qed

section \<open>The meter never fails on a unit of the pipeline\<close>

text \<open>Contexts whose sample rate, when present, is a number, and one a packet can carry.\<close>

definition rated :: "pydict \<Rightarrow> bool" where
  "rated ctx \<longleftrightarrow> py_get ctx ''sample_rate_hz'' = PNone \<or>
     (\<exists>r. py_number (py_get ctx ''sample_rate_hz'') = Some r \<and> rate_range r)"

lemma rated_other: "k \<noteq> ''sample_rate_hz'' \<Longrightarrow> rated (dict_set k v ctx) = rated ctx"
  by (simp add: rated_def)

lemma decode_field_rated:
  assumes "rated ctx" "0 \<le> off" "map_of FIELD_SIZE k = Some n"
  shows "rated (fst (decode_field k (py_slice b off (off + n)) ctx g))"
proof (cases "k = CIF_SAMPLE_RATE")
  case True
  then have "n = 8" using assms(3) by (simp add: FIELD_SIZE_def cif_bits)
  from freq_range [OF be_slice_lt_2_64 [OF assms(2), of b]] True this show ?thesis
    by (auto simp: decode_field_def cif_bits rated_def)
next
  case False
  with assms(1) show ?thesis
    by (simp add: decode_field_def rated_other format_fields_def split: prod.split)
qed

lemma walk_cif_rated:
  "rated ctx \<Longrightarrow> 0 \<le> offset \<Longrightarrow> fst (walk_cif b cif end_limit ks offset ctx g) = Inr ctx' \<Longrightarrow> rated ctx'"
proof (induction b cif end_limit ks offset ctx g rule: walk_cif.induct)
  case (2 b cif end_limit k ks offset ctx g)
  have size: "0 \<le> offset + n" if "map_of FIELD_SIZE k = Some n" for n
    using "2.prems"(2) FIELD_SIZE_pos [OF that] by simp
  have field: "rated c1" if "map_of FIELD_SIZE k = Some n"
      "decode_field k (py_slice b offset (offset + n)) ctx g = (c1, g1)" for n c1 g1
    using decode_field_rated [OF "2.prems"(1,2) that(1), of b g] that(2) by simp
  show ?case
  proof (cases "(drop_bit k cif) AND 1 \<noteq> 0 \<and> k \<noteq> CONTEXT_FIELD_CHANGE_BIT \<and> map_of FIELD_SIZE k \<noteq> None")
    case False
    with 2 show ?thesis by (auto simp: rated_other split: if_splits)
  next
    case True
    then obtain n where n: "map_of FIELD_SIZE k = Some n" by auto
    obtain c1 g1 where d: "decode_field k (py_slice b offset (offset + n)) ctx g = (c1, g1)" by force
    have fit: "\<not> end_limit < offset + n" using "2.prems"(3) True n by auto
    with "2.prems"(3) True n d have "fst (walk_cif b cif end_limit ks (offset + n) c1 g1) = Inr ctx'" by simp
    from "2.IH"(3) [OF _ _ n fit d [symmetric] field [OF n d] size [OF n] this] True show ?thesis by simp
  qed
qed simp

text \<open>A record's context, and its timestamp.\<close>

definition record_range :: "packet_record \<Rightarrow> bool" where
  "record_range r \<longleftrightarrow> (\<forall>ctx. rec_context r = Some ctx \<longrightarrow> rated ctx) \<and>
     (\<forall>ts. md_timestamp (rec_metadata r) = Some ts \<longrightarrow> stamp_range ts)"

lemma process_record:
  assumes "process i s g = (Some r, s', g')"
  shows "record_range r"
proof -
  have "rated []" by (simp add: rated_def)
  have d: "rated c" if "decode_context b hdr g = (Inr c, g1)" "0 \<le> header_len hdr" for b hdr g c g1
  proof -
    have "0 \<le> header_len hdr + 4" using that(2) by simp
    from walk_cif_rated [OF \<open>rated []\<close> this] that(1) show ?thesis
      unfolding decode_context_def Let_def by (metis fst_conv sum.distinct(1))
  qed
  have meta: "md_timestamp (make_metadata hdr c gap) = Some (timestamp hdr)" for hdr c gap
    by (simp add: make_metadata_def)
  have c: "process_context b hdr k s g = (Inr (Some r), s1, g1) \<Longrightarrow> header_wf hdr \<Longrightarrow> 0 \<le> header_len hdr \<Longrightarrow> record_range r"
    for b hdr k s1 g1
    by (auto simp: process_context_def record_range_def meta split: if_splits prod.splits sum.splits dest: d timestamp_range(2))
  have e: "process_data b hdr k s g = (Inr (Some r), s1, g1) \<Longrightarrow> header_wf hdr \<Longrightarrow> record_range r" for b hdr k s1 g1
    by (auto simp: process_data_def Let_def record_range_def meta split: if_splits prod.splits sum.splits option.splits
        dest: timestamp_range(2))
  show ?thesis
    using assms by (auto simp: process_def process_inner_def split: raw_item.splits sum.splits prod.splits if_splits
        dest: c e parse_header_wf parse_header_nonneg)
qed

lemma process_all_records:
  "process_all is s g = (rs, s', g') \<Longrightarrow> Some r \<in> set rs \<Longrightarrow> record_range r"
proof (induction "is" arbitrary: s g rs)
  case (Cons i "is")
  obtain r1 s1 g1 where p: "process i s g = (r1, s1, g1)" by (metis prod_cases3)
  obtain rs2 where "process_all is s1 g1 = (rs2, s', g')" "rs = r1 # rs2"
    using Cons.prems(1) p by (auto split: prod.splits)
  with Cons.IH [of s1 g1 rs2] Cons.prems(2) p show ?case by (auto dest: process_record)
qed simp

lemma process_all_rated:
  "process_all is s g = (rs, s', g') \<Longrightarrow> Some r \<in> set rs \<Longrightarrow> rec_context r = Some ctx \<Longrightarrow> rated ctx"
  using process_all_records by (auto simp: record_range_def)

text \<open>The label of an accepted record is that of a context with a rate.\<close>

lemma arrivals_rated:
  assumes "(l, r) \<in> set (arrivals env fs c recs)" "\<And>ctx. c = Some ctx \<Longrightarrow> rated ctx"
    and "\<And>r ctx. Some r \<in> set recs \<Longrightarrow> rec_context r = Some ctx \<Longrightarrow> rated ctx"
  shows "\<exists>ctx. rated ctx \<and> l = flush_label fs ctx"
  using assms
proof (induction recs arbitrary: c)
  case (Cons rec recs)
  have next_rated: "rated ctx" if "next_context rec c = Some ctx" for ctx
    using that Cons.prems(2,3) by (auto simp: next_context_def split: option.splits if_splits)
  show ?case
  proof (cases "(l, r) \<in> set (arrival_of env fs c rec)")
    case True
    with Cons.prems(2) show ?thesis by (auto simp: arrival_of_def split: option.splits if_splits)
  next
    case False
    with Cons.prems(1) have "(l, r) \<in> set (arrivals env fs (next_context rec c) recs)" by simp
    then show ?thesis
      by (rule Cons.IH) (use next_rated Cons.prems(3) in auto)
  qed
qed simp

lemma rated_label:
  assumes "flush_label fs ctx = flush_label fs ctx'" "''sample_rate_hz'' \<in> set fs" "rated ctx"
  shows "rated ctx'"
proof -
  have "py_norm (py_get ctx ''sample_rate_hz'') = py_norm (py_get ctx' ''sample_rate_hz'')"
    using assms(1,2) by (auto simp: flush_label_def map_eq_conv)
  with assms(3) show ?thesis
    unfolding rated_def by (cases "py_get ctx ''sample_rate_hz''"; cases "py_get ctx' ''sample_rate_hz''")
      (auto simp: py_norm_def)
qed

lemma tally_rated: "(\<And>c. u_context u = Some c \<Longrightarrow> rated c) \<Longrightarrow> fst (tally u m) = None"
  by (cases "u_context u") (auto simp: tally_def stat_unit_def rated_def Let_def split: prod.split option.split)

section \<open>The figures of a run\<close>

lemma arrivals_usable: "(l, r) \<in> set (arrivals env fs c recs) \<Longrightarrow> usable env r"
  by (induction recs arbitrary: c) (auto simp: arrival_of_def split: option.splits if_splits)

lemma pipe_cut_samples:
  assumes env: "env_logs env item sent" and cut: "pipe_cut env item p us rs"
  shows "sum_list (map u_num_samples (units_of k us)) \<le> delivered_samples k rs"
proof -
  have nonneg: "0 \<le> sum_list (map rec_samples (map snd xs))" if "set xs \<subseteq> set (arrivals env fs c recs)" for xs fs c recs
  proof (rule sum_list_nonneg)
    fix n assume "n \<in> set (map rec_samples (map snd xs))"
    then obtain l r where r: "(l, r) \<in> set xs" "n = rec_samples r" by auto
    with that have "usable env r" by (auto dest: arrivals_usable)
    with usable_component [OF env, of r] r(2) show "0 \<le> n"
      by (metis div_int_pos_iff less_imp_le of_nat_0_le_iff rec_samples_def)
  qed
  let ?fs = "rt_flush_fields (bufrouter p)"
  show ?thesis
  proof (cases "map_of (buffers (bufrouter p)) k")
    case None
    with cut have u: "units_of k us = []" by (auto simp: pipe_cut_def router_cut_def router_wins_def)
    have "filter filled (delivered_recs k rs) = map snd (arrivals env ?fs None (stream_recs k rs))"
      using cut by (simp add: pipe_cut_def)
    then have "0 \<le> delivered_samples k rs"
      unfolding delivered_samples_recs using nonneg [OF order_refl] by metis
    with u show ?thesis by simp
  next
    case (Some b)
    from pipe_cut_windows [OF cut Some] obtain ws more where w:
      "arrivals env ?fs None (stream_recs k rs) = concat ws @ more"
      "list_all2 (unit_ok env item ?fs) ws (units_of k us)"
      "filter filled (delivered_recs k rs) = map snd (concat ws @ more)" by blast
    have "0 \<le> sum_list (map rec_samples (map snd more))"
      by (rule nonneg [of more ?fs None "stream_recs k rs"]) (simp add: w(1))
    then show ?thesis
      unfolding delivered_samples_recs w(3) windows_samples [OF w(2)] by simp
  qed
qed

lemma pipe_cut_nonneg:
  assumes env: "env_logs env item sent" and cut: "pipe_cut env item p us rs"
    and r: "r \<in> set (delivered_recs k rs)" "filled r"
  shows "0 \<le> rec_samples r"
proof -
  have "r \<in> set (filter filled (delivered_recs k rs))" using r by simp
  also have "filter filled (delivered_recs k rs)
      = map snd (arrivals env (rt_flush_fields (bufrouter p)) None (stream_recs k rs))"
    using cut by (simp add: pipe_cut_def)
  finally have "r \<in> set (map snd (arrivals env (rt_flush_fields (bufrouter p)) None (stream_recs k rs)))" .
  then have "usable env r" by (auto dest: arrivals_usable)
  with usable_component [OF env, of r] show ?thesis
    by (metis div_int_pos_iff less_imp_le of_nat_0_le_iff rec_samples_def)
qed

lemma units_rated:
  assumes cut: "pipe_cut env item p us rs" and fs: "''sample_rate_hz'' \<in> set (rt_flush_fields (bufrouter p))"
    and rated: "\<And>r ctx. Some r \<in> set rs \<Longrightarrow> rec_context r = Some ctx \<Longrightarrow> rated ctx"
    and u: "u \<in> set us" "u_context u = Some c"
  shows "rated c"
proof -
  let ?k = "u_stream_id u" and ?fs = "rt_flush_fields (bufrouter p)"
  obtain os where os: "unit_ok env item ?fs os u" "set os \<subseteq> set (arrivals env ?fs None (stream_recs ?k rs))"
    using pipe_cut_unit [OF cut u(1)] .
  then have "os \<noteq> []" by (simp add: unit_ok_def window_ok_def)
  then obtain l r where m: "(l, r) \<in> set os" by (metis list.set_sel(1) prod.collapse)
  with os(1) have lr: "Some l = map_option (flush_label ?fs) (u_context u)"
    unfolding unit_ok_def window_ok_def by auto
  from m os(2) have "(l, r) \<in> set (arrivals env ?fs None (stream_recs ?k rs))" by blast
  from arrivals_rated [OF this] rated obtain ctx where "rated ctx" "l = flush_label ?fs ctx"
    unfolding stream_recs_def by auto
  with lr u(2) fs show ?thesis by (auto intro: rated_label)
qed

text \<open>What the meter reads of a unit is what a packet can carry.\<close>

definition unit_range :: "'f unit_rec \<Rightarrow> bool" where
  "unit_range u \<longleftrightarrow> (\<forall>c. u_context u = Some c \<longrightarrow> rated c) \<and> (\<forall>ts. u_start_timestamp u = Some ts \<longrightarrow> stamp_range ts)"

lemma arrivals_recs: "(l, r) \<in> set (arrivals env fs c recs) \<Longrightarrow> Some r \<in> set recs"
  by (induction recs arbitrary: c) (auto simp: arrival_of_def split: option.splits if_splits)

lemma units_range:
  assumes cut: "pipe_cut env item p us rs" and fs: "''sample_rate_hz'' \<in> set (rt_flush_fields (bufrouter p))"
    and recs: "\<And>r. Some r \<in> set rs \<Longrightarrow> record_range r" and u: "u \<in> set us"
  shows "unit_range u"
proof -
  have "stamp_range ts" if ts: "u_start_timestamp u = Some ts" for ts
  proof -
    let ?fs = "rt_flush_fields (bufrouter p)"
    obtain os where os: "unit_ok env item ?fs os u" "set os \<subseteq> set (arrivals env ?fs None (stream_recs (u_stream_id u) rs))"
      using pipe_cut_unit [OF cut u] .
    then have w: "os \<noteq> []" "md_timestamp (rec_metadata (snd (hd os))) = Some ts"
      using ts by (simp_all add: unit_ok_def window_ok_def)
    obtain l r where lr: "hd os = (l, r)" by force
    with w(1) os(2) have "(l, r) \<in> set (arrivals env ?fs None (stream_recs (u_stream_id u) rs))"
      by (metis hd_in_set subsetD)
    from arrivals_recs [OF this] have "Some r \<in> set rs" by (simp add: stream_recs_def)
    with recs w(2) lr show ?thesis by (auto simp: record_range_def)
  qed
  moreover have "rated c" if "u_context u = Some c" for c
    using units_rated [OF cut fs _ u that] recs by (auto simp: record_range_def)
  ultimately show ?thesis by (simp add: unit_range_def)
qed

text \<open>Where a metered run stands, in terms of the records delivered and the units handed out.\<close>

definition figures ::
  "('f, 'w) env \<Rightarrow> (pyval \<Rightarrow> bytes \<Rightarrow> 'f) \<Rightarrow> string list \<Rightarrow> int \<Rightarrow> meter \<Rightarrow> raw_item list \<Rightarrow> (meter \<times> 'w) system \<Rightarrow>
     packet_record option list \<Rightarrow> 'f unit_rec list \<Rightarrow> bool" where
  "figures env item fs m m0 is s rs us \<longleftrightarrow>
     process_all is (new_interpreter m) new_module_state = (rs, interp (pipe s), logging (pipe s)) \<and>
     fst (world s) = meter_all us m0 \<and> rt_dropped (bufrouter (pipe s)) = 0 \<and>
     (\<forall>k. prefix (emitted_items k us) (delivered_items item k rs)) \<and>
     (\<forall>k. st_total (stream_of k (fst (world s))) \<le> delivered_samples k rs) \<and>
     (\<forall>k. \<forall>r \<in> set (delivered_recs k rs). filled r \<longrightarrow> 0 \<le> rec_samples r) \<and>
     (\<forall>u \<in> set us. int (samples_length (u_samples u)) = u_num_samples u \<and> 0 < u_num_samples u \<and>
        Some (is_complex_array (u_samples u)) = u_is_complex u \<and> unit_range u) \<and>
     (\<forall>u \<in> set us. \<exists>os. unit_ok env item fs os u \<and>
        set os \<subseteq> set (arrivals env fs None (stream_recs (u_stream_id u) rs))) \<and>
     (\<forall>x. phase s = Finished (Some x) \<longrightarrow> (\<exists>u \<in> set us. \<exists>v. fst (emit env u v) = Some x)) \<and>
     (phase s = Finished None \<longrightarrow> (\<forall>k. emitted_items k us = delivered_items item k rs \<and>
        st_total (stream_of k (fst (world s))) = delivered_samples k rs))"

lemma metered_figures:
  assumes run: "sys_run (metered env) (init_system q (fresh_pipeline n age fs m) (new_meter\<lparr>meter_start := t0\<rparr>, w)) is s"
    and np: "numpy_ok env item" "numpy_formats env" and fs: "''sample_rate_hz'' \<in> set fs"
  shows "\<exists>rs us. figures env item fs m (new_meter\<lparr>meter_start := t0\<rparr>) is s rs us"
proof -
  let ?m = "new_meter\<lparr>meter_start := t0\<rparr>" and ?env = "traced (new_meter\<lparr>meter_start := t0\<rparr>) env"
  have "map_system (meter_view ?m) (init_system q (fresh_pipeline n age fs m) ([], w))
      = init_system q (fresh_pipeline n age fs m) (?m, w)"
    by (simp add: meter_view_def)
  with run obtain s1 where s1: "sys_run ?env (init_system q (fresh_pipeline n age fs m) ([], w)) is s1"
    "s = map_system (meter_view ?m) s1"
    by (metis metered.sys_run_map)
  note logs = traced_logs [OF np(1), of ?m]
  from sys_run_at [OF s1(1) logs traced_numpy [OF np(2)]] obtain rs us where
    at: "sys_at ?env item fst (new_router n age fs m) m ([], w) is s1 rs us" by blast
  then have w: "fst (world s1) = us" and pr: "process_all is (new_interpreter m) new_module_state
      = (rs, interp (pipe s), logging (pipe s))" and ph: "phase_ok ?env item (pipe s) us rs (phase s)"
    and st: "settings (bufrouter (pipe s)) = settings (new_router n age fs m)"
    by (simp_all add: sys_at_def s1(2))
  have meter: "fst (world s) = meter_all us ?m"
    using w by (simp add: s1(2) meter_view_def case_prod_unfold)
  have total: "st_total (stream_of k (fst (world s))) = sum_list (map u_num_samples (units_of k us))" for k
    using meter_all_totals [of us ?m k]
    by (simp add: meter stream_total_def units_of_def stream_of_def new_meter_def new_stat_def)
  have cut: "pipe_cut ?env item (pipe s) us rs"
    using ph pipe_inv_cut unfolding phase_ok_def by (auto split: phase.splits option.splits)
  have fs': "rt_flush_fields (bufrouter (pipe s)) = fs" using st by (simp add: settings_def new_router_def)
  have failed: "\<exists>u \<in> set us. \<exists>v. fst (emit env u v) = Some x" if "phase s = Finished (Some x)" for x
  proof -
    from ph that have "raised_on ?env us x" by (simp add: phase_ok_def)
    then obtain u v where u: "u \<in> set us" "fst (emit ?env u v) = Some x" unfolding raised_on_def by blast
    obtain vs w1 where v: "v = (vs, w1)" by force
    have "rated c" if "u_context u = Some c" for c
      using units_rated [OF cut _ process_all_rated [OF pr] u(1) that] fs fs' by simp
    then have "fst (tally u (meter_all vs ?m)) = None" by (rule tally_rated)
    then have "fst (emit ?env u v) = fst (emit env u w1)"
      by (auto simp: v traced_def meter_call_def split: prod.split option.split)
    with u show ?thesis by metis
  qed
  have ended: "emitted_items k us = delivered_items item k rs \<and>
      st_total (stream_of k (fst (world s))) = delivered_samples k rs" if "phase s = Finished None" for k
  proof -
    from ph that have "pipe_inv ?env item (pipe s) us rs" "drained (pipe s)" by (simp_all add: phase_ok_def)
    from pipe_inv_items(2) [OF this] pipe_inv_samples [OF this] show ?thesis unfolding total by blast
  qed
  have "rt_dropped (bufrouter (pipe s)) = 0" using cut by (simp add: pipe_cut_def)
  moreover have "int (samples_length (u_samples u)) = u_num_samples u \<and> 0 < u_num_samples u \<and>
      Some (is_complex_array (u_samples u)) = u_is_complex u \<and> unit_range u" if u: "u \<in> set us" for u
  proof -
    obtain os where os: "unit_ok ?env item (rt_flush_fields (bufrouter (pipe s))) os u"
      using pipe_cut_unit [OF cut u] by blast
    with unit_shape [OF logs os] units_range [OF cut _ process_all_records [OF pr] u] fs fs' show ?thesis
      by (simp add: unit_ok_def)
  qed
  moreover have "\<exists>os. unit_ok env item fs os u \<and> set os \<subseteq> set (arrivals env fs None (stream_recs (u_stream_id u) rs))"
    if "u \<in> set us" for u
    using pipe_cut_unit [OF cut that] unfolding fs' traced_window by blast
  ultimately show ?thesis
    using pr meter pipe_cut_items [OF cut] pipe_cut_samples [OF logs cut] pipe_cut_nonneg [OF logs cut] failed ended
    unfolding figures_def total by (intro exI conjI) auto
qed

text \<open>C2: the pipeline as the program wires it, with the meter around any consumer, about which nothing
  is assumed. At every moment of every run the meter's figures are those of the units handed to it,
  no stream's total exceeds the samples delivered on it, and the meter itself never fails: an
  exception that ends the run was raised by the consumer. When the run ends without one, each
  stream's total is exactly the number of samples the interpreter delivered on it.\<close>

theorem metered_run:
  assumes run: "sys_run (metered env) (init_system q (fresh_pipeline n age fs m) (new_meter\<lparr>meter_start := t0\<rparr>, w)) is s"
    and np: "numpy_ok env item" "numpy_formats env" and fs: "''sample_rate_hz'' \<in> set fs"
  shows "\<exists>rs us. process_all is (new_interpreter m) new_module_state = (rs, interp (pipe s), logging (pipe s)) \<and>
    fst (world s) = meter_all us (new_meter\<lparr>meter_start := t0\<rparr>) \<and>
    (\<forall>k. prefix (emitted_items k us) (delivered_items item k rs)) \<and>
    (\<forall>k. st_total (stream_of k (fst (world s))) \<le> delivered_samples k rs) \<and>
    (\<forall>x. phase s = Finished (Some x) \<longrightarrow> (\<exists>u \<in> set us. \<exists>v. fst (emit env u v) = Some x)) \<and>
    (phase s = Finished None \<longrightarrow> (\<forall>k. emitted_items k us = delivered_items item k rs \<and>
       st_total (stream_of k (fst (world s))) = delivered_samples k rs))"
  using metered_figures [OF assms] unfolding figures_def by blast

section \<open>A concrete run\<close>

definition metered_start :: "(meter \<times> demo_world) system" where
  "metered_start = init_system mini_queue (fresh_pipeline 625000 1 DEFAULT_FLUSH_FIELDS 64)
     (new_meter\<lparr>meter_start := Some 0\<rparr>, (0, []))"

abbreviation metered_step :: "(meter \<times> demo_world) system \<Rightarrow> (meter \<times> demo_world) system" where
  "metered_step s \<equiv> snd (loop_step (metered demo_env) s)"

lemma metered_phases:
  "phase metered_start = Looping" "phase (metered_step metered_start) = Looping"
  "phase (metered_step (metered_step metered_start)) = Looping"
  "phase (metered_step (metered_step (metered_step metered_start))) = Looping"
  "phase (metered_step (metered_step (metered_step (metered_step metered_start)))) = Finished None"
  "fst (loop_step (metered demo_env) metered_start) @ fst (loop_step (metered demo_env) (metered_step metered_start)) @
   fst (loop_step (metered demo_env) (metered_step (metered_step metered_start))) @
   fst (loop_step (metered demo_env) (metered_step (metered_step (metered_step metered_start)))) = mini_items"
  by code_simp+

lemma demo_numpy_ok: "numpy_ok demo_env demo_item"
  using env_okD [OF demo_env_ok] by (simp add: env_logs_def)

abbreviation metered_end :: "(meter \<times> demo_world) system" where
  "metered_end \<equiv> metered_step (metered_step (metered_step (metered_step metered_start)))"

lemma metered_mini_run:
  "sys_run (metered demo_env) (init_system mini_queue (fresh_pipeline 625000 1 DEFAULT_FLUSH_FIELDS 64)
     (new_meter\<lparr>meter_start := Some 0\<rparr>, (0, []))) mini_items metered_end"
  using sys_run_step [OF sys_run_step [OF sys_run_step [OF sys_run_step [OF sys_run.start metered_phases(1)]
      metered_phases(2)] metered_phases(3)] metered_phases(4)] metered_phases(6)
  unfolding metered_start_def by simp

theorem metered_run_witness:
  "\<exists>s. sys_run (metered demo_env) metered_start mini_items s \<and> phase s = Finished None \<and>
     st_total (stream_of (Some 7) (fst (world s))) = 2"
proof -
  have d: "delivered_samples (Some 7) (fst (process_all mini_items (new_interpreter 64) new_module_state)) = 2"
    by code_simp
  have "''sample_rate_hz'' \<in> set DEFAULT_FLUSH_FIELDS" by (simp add: DEFAULT_FLUSH_FIELDS_def)
  from metered_run [OF metered_mini_run demo_numpy_ok demo_numpy_formats this] metered_phases(5)
  obtain rs where "process_all mini_items (new_interpreter 64) new_module_state
      = (rs, interp (pipe metered_end), logging (pipe metered_end))"
    "st_total (stream_of (Some 7) (fst (world metered_end))) = delivered_samples (Some 7) rs"
    by blast
  with d metered_mini_run metered_phases(5) show ?thesis
    by (intro exI [of _ metered_end]) (simp add: metered_start_def)
qed

end
