(* ===== verification/Recorder.thy ===== *)
theory Recorder
  imports Prelude "HOL-Library.Sublist"
begin

text \<open>
  \<open>recorder.py\<close>: the in-memory packet recorder. It is capped, not a ring: once the cap is hit nothing
  is appended any more, so a recording is always complete from its start.
\<close>

section \<open>State and operations\<close>

type_synonym address = "string \<times> int"
type_synonym packet = "int \<times> string \<times> int \<times> bytes"

record recorder =
  max_packets :: "int option"
  max_bytes :: "int option"
  packets :: "packet list"
  total_bytes :: int
  capped :: bool

definition DEFAULT_LIVE_RECORD_MAX_BYTES :: int where
  "DEFAULT_LIVE_RECORD_MAX_BYTES = 512 * 1024 * 1024"

definition new_recorder :: "int option \<Rightarrow> int option \<Rightarrow> recorder" where
  "new_recorder mp mb = \<lparr>max_packets = mp, max_bytes = mb, packets = [], total_bytes = 0, capped = False\<rparr>"

definition over_cap :: "recorder \<Rightarrow> bytes \<Rightarrow> bool" where
  "over_cap r data \<longleftrightarrow>
     (case max_packets r of None \<Rightarrow> False | Some n \<Rightarrow> n \<le> int (length (packets r))) \<or>
     (case max_bytes r of None \<Rightarrow> False | Some n \<Rightarrow> n < total_bytes r + int (length data))"

definition append_packet :: "int \<Rightarrow> address \<Rightarrow> bytes \<Rightarrow> recorder \<Rightarrow> bool \<times> recorder" where
  "append_packet ts_ns addr data r =
    (if capped r then (False, r)
     else if over_cap r data then (False, r\<lparr>capped := True\<rparr>)
     else (True, r\<lparr>packets := packets r @ [(ts_ns, fst addr, snd addr, data)],
                  total_bytes := total_bytes r + int (length data)\<rparr>))"

definition recorder_len :: "recorder \<Rightarrow> int" where
  "recorder_len r = int (length (packets r))"

text \<open>The capture \<open>save\<close> pickles. Pickling and the file are outside code; \<open>dump\<close> is their effect on the
  world.\<close>

record capture =
  start_time_ns :: int
  duration_seconds :: rat
  cap_packets :: "packet list"

definition save :: "(string \<Rightarrow> capture \<Rightarrow> 'w \<Rightarrow> exn option \<times> 'w) \<Rightarrow> recorder \<Rightarrow> string \<Rightarrow> int \<Rightarrow> rat \<Rightarrow> 'w \<Rightarrow>
    (exn + string) \<times> 'w" where
  "save dump r path start duration w =
    (case dump path \<lparr>start_time_ns = start, duration_seconds = duration, cap_packets = packets r\<rparr> w of
       (None, w') \<Rightarrow> (Inr path, w')
     | (Some e, w') \<Rightarrow> (Inl e, w'))"

text \<open>\<open>default_recording_path\<close>: the directory is created, then the time of day read. Joining paths (\<open>/\<close> of
  \<open>pathlib\<close>), creating the directory and the formatted time are outside code.\<close>

definition default_recording_path ::
  "(string \<Rightarrow> string \<Rightarrow> string) \<Rightarrow> (string \<Rightarrow> 'w \<Rightarrow> exn option \<times> 'w) \<Rightarrow> ('w \<Rightarrow> string \<times> 'w) \<Rightarrow> string \<Rightarrow> 'w \<Rightarrow>
     (exn + string) \<times> 'w" where
  "default_recording_path join mkdir now dir w =
    (let recordings = join dir ''recordings'' in
     case mkdir recordings w of
       (Some e, w1) \<Rightarrow> (Inl e, w1)
     | (None, w1) \<Rightarrow> (case now w1 of (timestamp, w2) \<Rightarrow>
         (Inr (join recordings (''udp_capture_'' @ timestamp @ ''.pkl'')), w2)))"

section \<open>What a recorder holds\<close>

text \<open>Appending a sequence of packets, with the answers in order.\<close>

fun append_all :: "(int \<times> address \<times> bytes) list \<Rightarrow> recorder \<Rightarrow> bool list \<times> recorder" where
  "append_all [] r = ([], r)"
| "append_all ((ts, addr, data) # ps) r =
     (case append_packet ts addr data r of (a, r1) \<Rightarrow>
        (case append_all ps r1 of (as, r2) \<Rightarrow> (a # as, r2)))"

definition as_packet :: "int \<times> address \<times> bytes \<Rightarrow> packet" where
  "as_packet p = (case p of (ts, addr, data) \<Rightarrow> (ts, fst addr, snd addr, data))"

definition payload_bytes :: "packet list \<Rightarrow> int" where
  "payload_bytes ps = sum_list (map (\<lambda>(ts, ip, port, d). int (length d)) ps)"

text \<open>Whether one more packet of the given size still fits the caps behind those recorded.\<close>

definition fits_caps :: "int option \<Rightarrow> int option \<Rightarrow> packet list \<Rightarrow> bytes \<Rightarrow> bool" where
  "fits_caps mp mb ps d \<longleftrightarrow> (\<forall>n. mp = Some n \<longrightarrow> int (length ps) < n) \<and>
     (\<forall>n. mb = Some n \<longrightarrow> payload_bytes ps + int (length d) \<le> n)"

fun accepted :: "int option \<Rightarrow> int option \<Rightarrow> packet list \<Rightarrow> (int \<times> address \<times> bytes) list \<Rightarrow> packet list" where
  "accepted mp mb got [] = []"
| "accepted mp mb got (p # ps) =
     (if fits_caps mp mb got (snd (snd p)) then as_packet p # accepted mp mb (got @ [as_packet p]) ps else [])"

lemma payload_bytes_append [simp]: "payload_bytes (xs @ ys) = payload_bytes xs + payload_bytes ys"
  by (simp add: payload_bytes_def)

lemma payload_bytes_Nil [simp]: "payload_bytes [] = 0"
  by (simp add: payload_bytes_def)

lemma over_cap_iff:
  assumes "total_bytes r = payload_bytes (packets r)"
  shows "over_cap r d \<longleftrightarrow> \<not> fits_caps (max_packets r) (max_bytes r) (packets r) d"
  using assms by (auto simp: over_cap_def fits_caps_def not_le not_less split: option.splits)

lemma append_all_capped:
  "capped r \<Longrightarrow> append_all ps r = (replicate (length ps) False, r)"
  by (induction ps) (auto simp: append_packet_def)

lemma append_all_open:
  assumes "\<not> capped r" "total_bytes r = payload_bytes (packets r)" "append_all ps r = (as, r')"
  shows "packets r' = packets r @ accepted (max_packets r) (max_bytes r) (packets r) ps \<and>
    total_bytes r' = payload_bytes (packets r') \<and>
    as = replicate (length (accepted (max_packets r) (max_bytes r) (packets r) ps)) True @
      replicate (length ps - length (accepted (max_packets r) (max_bytes r) (packets r) ps)) False \<and>
    (capped r' \<longleftrightarrow> length (accepted (max_packets r) (max_bytes r) (packets r) ps) < length ps)"
  using assms
proof (induction ps arbitrary: r as)
  case Nil
  then show ?case by auto
next
  case (Cons p ps)
  obtain ts addr d where p: "p = (ts, addr, d)" by (metis prod_cases3)
  show ?case
  proof (cases "fits_caps (max_packets r) (max_bytes r) (packets r) d")
    case False
    then have "append_packet ts addr d r = (False, r\<lparr>capped := True\<rparr>)"
      using Cons.prems over_cap_iff [OF Cons.prems(2)] by (simp add: append_packet_def)
    with Cons.prems False show ?thesis by (auto simp: p append_all_capped)
  next
    case True
    let ?r = "r\<lparr>packets := packets r @ [as_packet p], total_bytes := total_bytes r + int (length d)\<rparr>"
    have ap: "append_packet ts addr d r = (True, ?r)"
      using Cons.prems over_cap_iff [OF Cons.prems(2)] True by (simp add: append_packet_def as_packet_def p)
    obtain as2 r2 where rest: "append_all ps ?r = (as2, r2)" by force
    have res: "as = True # as2" "r' = r2"
      using Cons.prems(3) ap rest by (simp_all add: p del: append_all.simps(1))
    have "payload_bytes [as_packet p] = int (length d)" by (simp add: payload_bytes_def as_packet_def p)
    then have "\<not> capped ?r" "total_bytes ?r = payload_bytes (packets ?r)" using Cons.prems by simp_all
    from Cons.IH [OF this rest [folded res(2)]] True res show ?thesis by (simp add: p)
  qed
qed

text \<open>C26: a recording is complete from its start. Whatever is appended to a fresh recorder, it holds
  exactly the packets before the first one that does not fit a cap, in order and unchanged, with
  their byte total; it answered True for those and False for every later packet, also for smaller
  ones that would still fit; and it is capped exactly when something was refused.\<close>

theorem recorder_complete_prefix:
  assumes "append_all ps (new_recorder mp mb) = (as, r)"
  shows "packets r = accepted mp mb [] ps \<and> prefix (packets r) (map as_packet ps) \<and>
    total_bytes r = payload_bytes (packets r) \<and>
    as = replicate (length (packets r)) True @ replicate (length ps - length (packets r)) False \<and>
    (capped r \<longleftrightarrow> length (packets r) < length ps)"
proof -
  have "\<not> capped (new_recorder mp mb)" "total_bytes (new_recorder mp mb) = payload_bytes (packets (new_recorder mp mb))"
    by (simp_all add: new_recorder_def payload_bytes_def)
  note all = append_all_open [OF this assms]
  have "prefix (accepted mp mb got ps) (map as_packet ps)" for got
    by (induction ps arbitrary: got) auto
  with all show ?thesis by (simp add: new_recorder_def)
qed

theorem recorder_complete_prefix_witness:
  "packets (snd (append_all [(1, (''a'', 5), [1, 2]), (2, (''a'', 5), [3, 4]), (3, (''b'', 6), [5])] (new_recorder None (Some 3))))
     = [(1, ''a'', 5, [1, 2])]"
  using recorder_complete_prefix [OF prod.collapse [symmetric],
      of "[(1, (''a'', 5), [1, 2]), (2, (''a'', 5), [3, 4]), (3, (''b'', 6), [5])]" None "Some 3"]
  by (simp add: fits_caps_def payload_bytes_def as_packet_def)

lemma accepted_caps:
  "(\<forall>n. mp = Some n \<longrightarrow> int (length (got @ accepted mp mb got ps)) \<le> max (int (length got)) n) \<and>
   (\<forall>n. mb = Some n \<longrightarrow> payload_bytes (got @ accepted mp mb got ps) \<le> max (payload_bytes got) n)"
proof (induction ps arbitrary: got)
  case (Cons p ps)
  have "payload_bytes [as_packet p] = int (length (snd (snd p)))"
    by (simp add: payload_bytes_def as_packet_def split: prod.split)
  with Cons.IH [of "got @ [as_packet p]"] show ?case
    by (auto simp: fits_caps_def)
qed simp

text \<open>Bounded memory. A recorder with caps never holds more packets or bytes than they allow.\<close>

theorem recorder_caps:
  assumes "append_all ps (new_recorder mp mb) = (as, r)"
  shows "(\<forall>n. mp = Some n \<longrightarrow> recorder_len r \<le> max 0 n) \<and> (\<forall>n. mb = Some n \<longrightarrow> total_bytes r \<le> max 0 n)"
proof -
  have "\<not> capped (new_recorder mp mb)" "total_bytes (new_recorder mp mb) = payload_bytes (packets (new_recorder mp mb))"
    by (simp_all add: new_recorder_def payload_bytes_def)
  note all = append_all_open [OF this assms]
  from accepted_caps [where got = "[]"] all show ?thesis
    by (simp add: new_recorder_def recorder_len_def payload_bytes_def)
qed

theorem recorder_caps_witness:
  "recorder_len (snd (append_all [(1, (''a'', 5), [1, 2]), (2, (''a'', 5), [3, 4])] (new_recorder (Some 1) None))) \<le> 1"
  using recorder_caps [OF prod.collapse [symmetric], where ps = "[(1, (''a'', 5), [1, 2]), (2, (''a'', 5), [3, 4])]" and mp = "Some 1" and mb = None]
  by simp

end
