(* ===== verification/Sources.thy ===== *)
theory Sources
  imports Runtime Recorder
begin

text \<open>
  \<open>sources.py\<close>: the two packet sources of Thread A. A source is modelled by what it does to the rest
  of the program, in order: the items it enqueues, the sleeps of a paced replay, the recorder it
  leaves and the flags it sets. What the operating system and the stop event answer (the result of
  each \<open>is_set\<close>, \<open>wait\<close>, \<open>bind\<close> and \<open>recvfrom\<close>) is an argument.
\<close>

datatype source_act = Enqueue queue_item | Sleep rat

fun enqueued :: "source_act list \<Rightarrow> queue_item list" where
  "enqueued [] = []"
| "enqueued (Enqueue x # acts) = x # enqueued acts"
| "enqueued (Sleep d # acts) = enqueued acts"

lemma enqueued_append [simp]: "enqueued (xs @ ys) = enqueued xs @ enqueued ys"
  by (induction xs rule: enqueued.induct) simp_all

section \<open>Replay\<close>

text \<open>A row of the loaded capture: a timestamp and a payload, a row too short to have a payload, or
  one whose timestamp cannot even be read.\<close>

datatype replay_row = Row int raw_item | Short_Row int | Bad_Row

definition pace_delay :: "bool \<Rightarrow> int option \<Rightarrow> int \<Rightarrow> rat option" where
  "pace_delay pace prev ts_ns = (case prev of None \<Rightarrow> None
     | Some p \<Rightarrow> let delta_s = fdiv (of_pyint (ts_ns - p)) (10 ^ 9) in
         if pace \<and> 0 < delta_s then Some delta_s else None)"

fun replay_rows ::
  "bool \<Rightarrow> (nat \<Rightarrow> bool) \<Rightarrow> (nat \<Rightarrow> bool) \<Rightarrow> nat \<Rightarrow> int option \<Rightarrow> replay_row list \<Rightarrow> source_act list \<times> bool" where
  "replay_rows pace stops wakes i prev [] = ([], False)"
| "replay_rows pace stops wakes i prev (row # rows) =
     (if stops i then ([], False)
      else case (case row of Row ts it \<Rightarrow> Some (ts, Some it) | Short_Row ts \<Rightarrow> Some (ts, None) | Bad_Row \<Rightarrow> None) of
          None \<Rightarrow> ([], True)
        | Some (ts, payload) \<Rightarrow>
            let nap = (case pace_delay pace prev ts of None \<Rightarrow> [] | Some d \<Rightarrow> [Sleep d]) in
            if nap \<noteq> [] \<and> wakes i then (nap, False)
            else (case payload of
                None \<Rightarrow> (nap, True)
              | Some it \<Rightarrow>
                  (case replay_rows pace stops wakes (Suc i) (Some ts) rows of
                     (acts, failed) \<Rightarrow> (nap @ Enqueue (Item it) # acts, failed))))"

text \<open>\<open>_run\<close>: \<open>loaded\<close> is what opening and unpickling the capture gave; the sentinel is enqueued in the
  \<open>finally\<close>.\<close>

definition replay_run ::
  "exn + replay_row list \<Rightarrow> bool \<Rightarrow> (nat \<Rightarrow> bool) \<Rightarrow> (nat \<Rightarrow> bool) \<Rightarrow> source_act list \<times> bool" where
  "replay_run loaded pace stops wakes =
    (case (case loaded of Inl e \<Rightarrow> ([], True) | Inr rows \<Rightarrow> replay_rows pace stops wakes 0 None rows) of
       (acts, failed) \<Rightarrow> (acts @ [Enqueue SHUTDOWN], failed))"

definition row_items :: "replay_row list \<Rightarrow> queue_item list" where
  "row_items rows = concat (map (\<lambda>row. case row of Row ts it \<Rightarrow> [Item it] | _ \<Rightarrow> []) rows)"

definition row_ok :: "replay_row \<Rightarrow> bool" where
  "row_ok row = (case row of Row ts it \<Rightarrow> True | _ \<Rightarrow> False)"

lemma replay_rows_props:
  assumes "replay_rows pace stops wakes i prev rows = (acts, failed)"
  shows "prefix (enqueued acts) (row_items (takeWhile row_ok rows))"
    "(\<forall>j. \<not> stops j) \<Longrightarrow> (\<forall>j. \<not> wakes j) \<Longrightarrow>
       enqueued acts = row_items (takeWhile row_ok rows) \<and> (failed \<longleftrightarrow> (\<exists>row \<in> set rows. \<not> row_ok row))"
    "failed \<Longrightarrow> \<exists>row \<in> set rows. \<not> row_ok row"
proof -
  have naps: "enqueued (case pace_delay pace prev ts of None \<Rightarrow> [] | Some d \<Rightarrow> [Sleep d]) = []" for prev ts
    by (simp split: option.split)
  have "prefix (enqueued acts) (row_items (takeWhile row_ok rows)) \<and>
    ((\<forall>j. \<not> stops j) \<longrightarrow> (\<forall>j. \<not> wakes j) \<longrightarrow>
       enqueued acts = row_items (takeWhile row_ok rows) \<and> (failed \<longleftrightarrow> (\<exists>row \<in> set rows. \<not> row_ok row))) \<and>
    (failed \<longrightarrow> (\<exists>row \<in> set rows. \<not> row_ok row))"
    using assms
  proof (induction rows arbitrary: i prev acts failed)
    case Nil
    then show ?case by (auto simp: row_items_def)
  next
    case (Cons row rows)
    show ?case
    proof (cases row)
      case (Row ts it)
      obtain acts1 f1 where r: "replay_rows pace stops wakes (Suc i) (Some ts) rows = (acts1, f1)" by force
      show ?thesis
        using Cons.prems Cons.IH [OF r] r Row naps [of prev ts]
        by (auto simp: Let_def row_items_def row_ok_def split: if_splits)
    next
      case (Short_Row ts)
      then show ?thesis
        using Cons.prems naps [of prev ts] by (auto simp: Let_def row_items_def row_ok_def split: if_splits)
    next
      case Bad_Row
      then show ?thesis
        using Cons.prems by (auto simp: row_items_def row_ok_def split: if_splits)
    qed
  qed
  then show "prefix (enqueued acts) (row_items (takeWhile row_ok rows))"
    "(\<forall>j. \<not> stops j) \<Longrightarrow> (\<forall>j. \<not> wakes j) \<Longrightarrow>
       enqueued acts = row_items (takeWhile row_ok rows) \<and> (failed \<longleftrightarrow> (\<exists>row \<in> set rows. \<not> row_ok row))"
    "failed \<Longrightarrow> \<exists>row \<in> set rows. \<not> row_ok row" by blast+
qed

text \<open>C22: the end of a replay is always signalled. Whatever the capture holds (also none, or a
  corrupt one), whatever the pace and whenever it is stopped, the sentinel is the last item the
  source enqueues and the only sentinel, and the items before it are the payloads of the capture
  in order, up to a point; a replay that is not interrupted enqueues all rows before the first
  corrupt one, and reports failure exactly when the capture could not be read or has such a row.\<close>

theorem replay_signals_end:
  assumes "replay_run loaded pace stops wakes = (acts, failed)"
  shows "\<exists>items. enqueued acts = items @ [SHUTDOWN] \<and> SHUTDOWN \<notin> set items \<and>
    last acts = Enqueue SHUTDOWN \<and>
    (\<forall>e. loaded = Inl e \<longrightarrow> items = [] \<and> failed) \<and>
    (\<forall>rows. loaded = Inr rows \<longrightarrow> prefix items (row_items (takeWhile row_ok rows)) \<and>
       (failed \<longrightarrow> (\<exists>row \<in> set rows. \<not> row_ok row)) \<and>
       ((\<forall>j. \<not> stops j \<and> \<not> wakes j) \<longrightarrow> items = row_items (takeWhile row_ok rows) \<and>
          (failed \<longleftrightarrow> (\<exists>row \<in> set rows. \<not> row_ok row))))"
proof (cases loaded)
  case (Inl e)
  with assms show ?thesis by (auto simp: replay_run_def)
next
  case (Inr rows)
  obtain acts1 f1 where r: "replay_rows pace stops wakes 0 None rows = (acts1, f1)" by force
  with assms Inr have a: "acts = acts1 @ [Enqueue SHUTDOWN]" "failed = f1" by (simp_all add: replay_run_def)
  note props = replay_rows_props [OF r]
  have "SHUTDOWN \<notin> set (row_items (takeWhile row_ok rows))"
    by (auto simp: row_items_def split: replay_row.splits)
  then have "SHUTDOWN \<notin> set (enqueued acts1)"
    using set_mono_prefix [OF props(1)] by blast
  with a Inr props show ?thesis by (intro exI [of _ "enqueued acts1"]) auto
qed

theorem replay_signals_end_witness:
  "enqueued (fst (replay_run (Inr [Row 0 Stray, Row 1000 Stray, Bad_Row, Row 2000 Stray]) True (\<lambda>_. False) (\<lambda>_. False)))
     = [Item Stray, Item Stray, SHUTDOWN]"
  using replay_signals_end [OF prod.collapse [symmetric],
      of "Inr [Row 0 Stray, Row 1000 Stray, Bad_Row, Row 2000 Stray]" True "\<lambda>_. False" "\<lambda>_. False"]
  by (auto simp: row_items_def row_ok_def)

section \<open>The sentinel ends the run\<close>

fun loop_n :: "('f, 'w) env \<Rightarrow> nat \<Rightarrow> 'w system \<Rightarrow> 'w system" where
  "loop_n env 0 s = s"
| "loop_n env (Suc n) s = (if phase s = Looping then loop_n env n (snd (loop_step env s)) else s)"

lemma loop_turn_raw: "raw (loop_turn env got s) = raw s"
  by (simp add: loop_turn_def finish_def Let_def split: prod.splits option.splits)

lemma loop_n_finishes:
  assumes "SHUTDOWN \<in> set (queue_items (raw s))"
  shows "phase (loop_n env (length (queue_items (raw s))) s) \<noteq> Looping"
  using assms
proof (induction "queue_items (raw s)" arbitrary: s)
  case Nil
  then show ?case by simp
next
  case (Cons x xs)
  then have len: "length (queue_items (raw s)) = Suc (length xs)" by (metis length_Cons)
  have fin: "phase (finish env e t) \<noteq> Looping" for e t
    using finish_phase(1) [of env e t] by auto
  have stay: "phase (loop_n env n t) \<noteq> Looping" if "phase t \<noteq> Looping" for n t
    using that by (cases n) simp_all
  show ?case
  proof (cases "phase s = Looping")
    case False
    then show ?thesis by (rule stay)
  next
    case True
    let ?t = "snd (loop_step env s)"
    have get: "queue_get (raw s) = (Some x, (raw s)\<lparr>queue_items := xs\<rparr>)"
      unfolding queue_get_def Cons.hyps(2) [symmetric] by simp
    have "phase ?t \<noteq> Looping \<or> queue_items (raw ?t) = xs \<and> SHUTDOWN \<in> set xs"
    proof (cases "stop_set s \<or> x = SHUTDOWN")
      case True
      with get fin show ?thesis by (auto simp: loop_step_def)
    next
      case False
      with Cons.prems Cons.hyps(2) have "SHUTDOWN \<in> set xs" by (metis set_ConsD)
      with False get show ?thesis by (cases x) (auto simp: loop_step_def loop_turn_raw)
    qed
    then have "phase (loop_n env (length xs) ?t) \<noteq> Looping"
      using stay Cons.hyps(1) [of ?t] by auto
    with True show ?thesis unfolding len by simp
  qed
qed

section \<open>Live reception\<close>

datatype rcvbuf_status = Clamped | Granted | Unknown

definition DEFAULT_RCVBUF_BYTES :: int where "DEFAULT_RCVBUF_BYTES = 8 * 1024 * 1024"

text \<open>\<open>_configure_rcvbuf\<close>, given what \<open>setsockopt\<close> and \<open>getsockopt\<close> did: the exceptions it does not catch
  propagate.\<close>

definition configure_rcvbuf ::
  "int \<Rightarrow> bool \<Rightarrow> exn option \<Rightarrow> exn + int \<Rightarrow> exn + (rcvbuf_status \<times> int option)" where
  "configure_rcvbuf requested linux set_result get_result =
    (if set_result \<notin> {None, Some OSError, Some TypeError, Some (External ''OverflowError'')}
     then Inl (the set_result)
     else case (case get_result of Inl e \<Rightarrow> if e = OSError then Inr None else Inl e | Inr n \<Rightarrow> Inr (Some n)) of
         Inl e \<Rightarrow> Inl e
       | Inr granted \<Rightarrow>
           let honored_floor = requested * (if linux then 2 else 1) in
           Inr (case granted of None \<Rightarrow> Unknown
                | Some n \<Rightarrow> if n < honored_floor then Clamped else Granted, granted))"

abbreviation KeyboardInterrupt :: exn where "KeyboardInterrupt \<equiv> External ''KeyboardInterrupt''"

text \<open>What \<open>recvfrom\<close> did, with the wall-clock time read for the recorder.\<close>

datatype recv = Received bytes address int | Recv_Timeout | Recv_Error exn

text \<open>The receive loop over the answers of the socket: the items enqueued, the recorder, and how it
  ended (\<open>None\<close>: the stop event, or the answers ran out).\<close>

fun live_loop ::
  "(nat \<Rightarrow> bool) \<Rightarrow> nat \<Rightarrow> recv list \<Rightarrow> recorder option \<Rightarrow> queue_item list \<times> recorder option \<times> exn option" where
  "live_loop stops i [] rec = ([], rec, None)"
| "live_loop stops i (ev # evs) rec =
     (if stops i then ([], rec, None)
      else (case ev of
          Recv_Timeout \<Rightarrow> live_loop stops (Suc i) evs rec
        | Recv_Error e \<Rightarrow> ([], rec, Some e)
        | Received data addr ts \<Rightarrow>
            (case live_loop stops (Suc i) evs (map_option (\<lambda>r. snd (append_packet ts addr data r)) rec) of
               (puts, rec', e) \<Rightarrow> (Item (Datagram data) # puts, rec', e))))"

record live_state =
  live_failed :: bool
  live_ready :: bool
  bound_address :: "address option"
  granted_rcvbuf :: "int option"
  live_puts :: "queue_item list"
  live_recorder :: "recorder option"
  live_raised :: "exn option"

text \<open>\<open>_run\<close>: \<open>opened\<close> is the exception of \<open>socket.socket\<close>, if any; it is raised before the \<open>try\<close>. Inside, an
  \<open>OSError\<close> is caught and reported in \<open>failed\<close>; any other exception ends the thread (\<open>live_raised\<close>).
  \<open>ready\<close> is set once binding was tried.\<close>

definition live_end ::
  "bool \<Rightarrow> address option \<Rightarrow> int option \<Rightarrow> queue_item list \<Rightarrow> recorder option \<Rightarrow> exn option \<Rightarrow> live_state" where
  "live_end is_ready addr granted puts rec e =
    \<lparr>live_failed = (e = Some OSError), live_ready = is_ready, bound_address = addr, granted_rcvbuf = granted,
     live_puts = puts, live_recorder = rec, live_raised = (if e = Some OSError then None else e)\<rparr>"

definition live_run ::
  "exn option \<Rightarrow> exn + (rcvbuf_status \<times> int option) \<Rightarrow> exn + address \<Rightarrow> (nat \<Rightarrow> bool) \<Rightarrow> recv list \<Rightarrow>
     recorder option \<Rightarrow> live_state" where
  "live_run opened configured bound stops evs rec =
    (case opened of
       Some e \<Rightarrow> (live_end False None None [] rec None)\<lparr>live_raised := Some e\<rparr>
     | None \<Rightarrow>
        (case configured of
           Inl e \<Rightarrow> live_end False None None [] rec (Some e)
         | Inr (st, granted) \<Rightarrow>
            (case bound of
               Inl e \<Rightarrow> live_end True None granted [] rec (Some e)
             | Inr addr \<Rightarrow>
                 (case live_loop stops 0 evs rec of
                    (puts, rec', e) \<Rightarrow> live_end True (Some addr) granted puts rec' e))))"

fun received_of :: "recv list \<Rightarrow> (int \<times> address \<times> bytes) list" where
  "received_of [] = []"
| "received_of (Received data addr ts # evs) = (ts, addr, data) # received_of evs"
| "received_of (_ # evs) = received_of evs"

lemma live_loop_fanout:
  "live_loop stops i evs rec = (puts, rec', e) \<Longrightarrow>
     \<exists>got. prefix got (received_of evs) \<and> puts = map (\<lambda>(ts, addr, d). Item (Datagram d)) got \<and>
       rec' = map_option (\<lambda>r. snd (append_all got r)) rec"
proof (induction stops i evs rec arbitrary: puts rec' e rule: live_loop.induct)
  case (1 stops i rec)
  then show ?case by (intro exI [of _ "[]"]) (auto simp: option.map_id [unfolded id_def])
next
  case (2 stops i ev evs rec)
  show ?case
  proof (cases "stops i \<or> (\<exists>e. ev = Recv_Error e)")
    case True
    with "2.prems" show ?thesis
      by (intro exI [of _ "[]"]) (auto simp: option.map_id [unfolded id_def] split: if_splits)
  next
    case False
    then consider "ev = Recv_Timeout" | data addr ts where "ev = Received data addr ts"
      by (cases ev) auto
    then show ?thesis
    proof cases
      case 1
      with 2 False show ?thesis by auto
    next
      case (2 data addr ts)
      obtain p1 r1 e1 where l: "live_loop stops (Suc i) evs (map_option (\<lambda>r. snd (append_packet ts addr data r)) rec) = (p1, r1, e1)"
        by (metis prod_cases3)
      from "2.IH"(1) [OF _ 2 l] False obtain got where g: "prefix got (received_of evs)"
        "p1 = map (\<lambda>(ts, addr, d). Item (Datagram d)) got"
        "r1 = map_option (\<lambda>r. snd (append_all got r)) (map_option (\<lambda>r. snd (append_packet ts addr data r)) rec)"
        by blast
      have "rec' = map_option (\<lambda>r. snd (append_all ((ts, addr, data) # got) r)) rec"
        using "2.prems" 2 False l g(3) by (auto simp: option.map_comp comp_def split_beta)
      with "2.prems" 2 False l g(1,2) show ?thesis
        by (intro exI [of _ "(ts, addr, data) # got"]) auto
    qed
  qed
qed

text \<open>C23: the two sinks of a live source get the same datagrams in the same order: what is enqueued and
  what the recorder is offered are the same received datagrams, the recorder sees them whatever the
  queue drops. A failed bind leaves both untouched, with \<open>ready\<close> set and no address, which is what the
  watchdog of the command line looks at; \<open>ready\<close> stays unset exactly when the socket could not be
  created or its buffer not be configured.\<close>

theorem live_fanout:
  assumes "live_run opened configured bound stops evs rec = s"
  shows "(\<exists>got. prefix got (received_of evs) \<and>
      live_puts s = map (\<lambda>(ts, addr, d). Item (Datagram d)) got \<and>
      live_recorder s = map_option (\<lambda>r. snd (append_all got r)) rec) \<and>
    (\<forall>st granted e. opened = None \<and> configured = Inr (st, granted) \<and> bound = Inl e \<longrightarrow>
       live_puts s = [] \<and> live_recorder s = rec \<and> live_ready s \<and> bound_address s = None \<and>
       (live_failed s \<longleftrightarrow> e = OSError)) \<and>
    (\<not> live_ready s \<longleftrightarrow> opened \<noteq> None \<or> (\<exists>e. configured = Inl e))"
proof (intro conjI)
  show "\<exists>got. prefix got (received_of evs) \<and>
      live_puts s = map (\<lambda>(ts, addr, d). Item (Datagram d)) got \<and>
      live_recorder s = map_option (\<lambda>r. snd (append_all got r)) rec"
  proof (cases "opened \<noteq> None \<or> (\<exists>e. configured = Inl e \<or> bound = Inl e)")
    case True
    with assms have "live_puts s = [] \<and> live_recorder s = rec"
      by (auto simp: live_run_def live_end_def split: sum.splits prod.splits option.splits)
    moreover have "map_option (\<lambda>r. snd (append_all [] r)) rec = rec" by (cases rec) simp_all
    ultimately show ?thesis by (intro exI [of _ "[]"]) simp
  next
    case False
    then obtain st granted addr where c: "opened = None" "configured = Inr (st, granted)" "bound = Inr addr"
      by (cases configured; cases bound) auto
    obtain puts rec' e where l: "live_loop stops 0 evs rec = (puts, rec', e)" by (metis prod_cases3)
    from live_loop_fanout [OF l] c l assms show ?thesis by (auto simp: live_run_def live_end_def)
  qed
  show "\<forall>st granted e. opened = None \<and> configured = Inr (st, granted) \<and> bound = Inl e \<longrightarrow>
       live_puts s = [] \<and> live_recorder s = rec \<and> live_ready s \<and> bound_address s = None \<and>
       (live_failed s \<longleftrightarrow> e = OSError)"
    using assms by (auto simp: live_run_def live_end_def)
  show "\<not> live_ready s \<longleftrightarrow> opened \<noteq> None \<or> (\<exists>e. configured = Inl e)"
    using assms by (auto simp: live_run_def live_end_def split: sum.splits prod.splits option.splits)
qed

theorem live_fanout_witness:
  "\<exists>s. live_run None (Inr (Granted, Some 1000)) (Inr (''0.0.0.0'', 5000)) (\<lambda>_. False)
       [Received [1] (''h'', 1) 10, Recv_Timeout, Received [2] (''h'', 1) 11] (Some (new_recorder (Some 1) None)) = s \<and>
     (\<exists>got :: (int \<times> address \<times> bytes) list.
        live_puts s = map (\<lambda>(ts, addr, d). Item (Datagram d)) got \<and> length (live_puts s) = 2)"
proof -
  let ?s = "live_run None (Inr (Granted, Some 1000)) (Inr (''0.0.0.0'', 5000)) (\<lambda>_. False)
       [Received [1] (''h'', 1) 10, Recv_Timeout, Received [2] (''h'', 1) 11] (Some (new_recorder (Some 1) None))"
  have "\<exists>got :: (int \<times> address \<times> bytes) list. live_puts ?s = map (\<lambda>(ts, addr, d). Item (Datagram d)) got"
    using live_fanout [where opened = None and configured = "Inr (Granted, Some 1000)"
      and bound = "Inr (''0.0.0.0'', 5000)"
      and stops = "\<lambda>_. False" and rec = "Some (new_recorder (Some 1) None)"
      and evs = "[Received [1] (''h'', 1) 10, Recv_Timeout, Received [2] (''h'', 1) 11]", OF refl, THEN conjunct1]
    by blast
  moreover have "length (live_puts ?s) = 2" by (simp add: live_run_def live_end_def split_beta)
  ultimately show ?thesis by blast
qed

end
