(* ===== verification/Accounting.thy ===== *)
theory Accounting
  imports Metered Sources
begin

text \<open>
  Runs as schedules: what other threads do (put an item, set the event) and the turns of the loop, in
  the order in which they happen. A schedule determines the run, the queue of a run is a run of the
  queue, and so every item put is accounted for in the counters that \<open>run\<close> logs at its end; a replay
  that fits the queue loses nothing.
\<close>

section \<open>Schedules\<close>

datatype sys_event = Arrive queue_item | Signal | Turn

fun sys_events :: "('f, 'w) env \<Rightarrow> sys_event list \<Rightarrow> 'w system \<Rightarrow> raw_item list \<times> 'w system" where
  "sys_events env [] s = ([], s)"
| "sys_events env (Arrive x # evs) s = sys_events env evs (s\<lparr>raw := queue_put x (raw s)\<rparr>)"
| "sys_events env (Signal # evs) s = sys_events env evs (s\<lparr>stop_set := True\<rparr>)"
| "sys_events env (Turn # evs) s =
     (if phase s = Looping
      then case loop_step env s of (new, s') \<Rightarrow> (case sys_events env evs s' of (is, t) \<Rightarrow> (new @ is, t))
      else sys_events env evs s)"

fun arrived :: "sys_event list \<Rightarrow> queue_item list" where
  "arrived [] = []"
| "arrived (Arrive x # evs) = x # arrived evs"
| "arrived (_ # evs) = arrived evs"

lemma sys_events_append:
  "sys_events env (xs @ ys) s =
     (case sys_events env xs s of (is, t) \<Rightarrow> (case sys_events env ys t of (is', u) \<Rightarrow> (is @ is', u)))"
  by (induction env xs s rule: sys_events.induct) (auto split: prod.split)

lemma sys_events_run:
  "sys_run env s0 is s \<Longrightarrow> sys_events env evs s = (is', t) \<Longrightarrow> sys_run env s0 (is @ is') t"
proof (induction evs arbitrary: "is" s is')
  case (Cons ev evs)
  show ?case
  proof (cases ev)
    case (Arrive x)
    with Cons.IH [OF sys_run.put [OF Cons.prems(1)]] Cons.prems(2) show ?thesis by simp
  next
    case Signal
    with Cons.IH [OF sys_run.stop [OF Cons.prems(1)]] Cons.prems(2) show ?thesis by simp
  next
    case Turn
    show ?thesis
    proof (cases "phase s = Looping")
      case False
      with Turn Cons show ?thesis by simp
    next
      case True
      obtain new s' where l: "loop_step env s = (new, s')" by force
      obtain is1 where "sys_events env evs s' = (is1, t)" "is' = new @ is1"
        using Cons.prems(2) Turn True l by (auto split: prod.splits)
      with Cons.IH [OF sys_run.loop [OF Cons.prems(1) True l]] show ?thesis by simp
    qed
  qed
qed simp

text \<open>Schedules and the step relation describe the same runs.\<close>

lemma sys_run_iff_events: "sys_run env s0 is s \<longleftrightarrow> (\<exists>evs. sys_events env evs s0 = (is, s))"
proof
  assume "sys_run env s0 is s"
  then show "\<exists>evs. sys_events env evs s0 = (is, s)"
  proof (induction rule: sys_run.induct)
    case start
    show ?case by (rule exI [of _ "[]"]) simp
  next
    case (put "is" s x)
    then obtain evs where "sys_events env evs s0 = (is, s)" by blast
    then show ?case by (intro exI [of _ "evs @ [Arrive x]"]) (simp add: sys_events_append)
  next
    case (stop "is" s)
    then obtain evs where "sys_events env evs s0 = (is, s)" by blast
    then show ?case by (intro exI [of _ "evs @ [Signal]"]) (simp add: sys_events_append)
  next
    case (loop "is" s new s')
    then obtain evs where "sys_events env evs s0 = (is, s)" by blast
    with loop show ?case by (intro exI [of _ "evs @ [Turn]"]) (simp add: sys_events_append)
  qed
next
  assume "\<exists>evs. sys_events env evs s0 = (is, s)"
  then show "sys_run env s0 is s" using sys_events_run [OF sys_run.start] by fastforce
qed

section \<open>The queue of a run\<close>

text \<open>The items of the queue the loop has taken: those interpreted, and possibly the sentinel.\<close>

definition taken :: "raw_item list \<Rightarrow> bool \<Rightarrow> queue_item list" where
  "taken is sentinel = map Item is @ (if sentinel then [SHUTDOWN] else [])"

lemma finish_raw: "raw (finish env e s) = raw s"
  by (simp add: finish_def split: prod.splits)

lemma loop_turn_cases:
  assumes "phase s = Looping"
  shows "(phase (loop_turn env got s) = Looping \<and> stop_set (loop_turn env got s) = stop_set s) \<or>
    (\<exists>e. phase (loop_turn env got s) = Finished (Some e))"
proof -
  have "\<exists>e'. phase (finish env (Some e) t) = Finished (Some e')" for e and t :: "'a system"
    by (simp add: finish_def split: prod.splits option.splits)
  with assms show ?thesis by (auto simp: loop_turn_def Let_def split: prod.splits option.splits)
qed

lemma loop_step_queue:
  assumes "phase s = Looping" "loop_step env s = (new, s')"
  obtains "stop_set s" "new = []" "raw s' = raw s" "phase s' \<noteq> Looping"
  | "\<not> stop_set s" "queue_get (raw s) = (None, raw s')" "new = []"
  | "\<not> stop_set s" "queue_get (raw s) = (Some SHUTDOWN, raw s')" "new = []" "phase s' \<noteq> Looping"
  | i where "\<not> stop_set s" "queue_get (raw s) = (Some (Item i), raw s')" "new = [i]"
proof -
  have fin: "phase (finish env e t) \<noteq> Looping" for e and t :: "'a system"
    using finish_phase(1) [of env e t] by auto
  obtain got q where g: "queue_get (raw s) = (got, q)" by force
  show thesis
  proof (cases "stop_set s")
    case True
    with assms(2) that(1) fin show thesis by (auto simp: loop_step_def finish_raw)
  next
    case False
    consider "got = None" | "got = Some SHUTDOWN" | i where "got = Some (Item i)"
      by (cases got rule: option.exhaust) (auto intro: queue_item.exhaust)
    then show thesis
    proof cases
      case 1
      with False assms(2) g that(2) show thesis by (auto simp: loop_step_def loop_turn_raw)
    next
      case 2
      with False assms(2) g that(3) fin show thesis by (auto simp: loop_step_def finish_raw)
    next
      case (3 i)
      with False assms(2) g that(4) show thesis by (auto simp: loop_step_def loop_turn_raw)
    qed
  qed
qed

text \<open>What a schedule does to the queue is a run of the queue that gets what the loop takes; the sentinel
  is taken at most once and last.\<close>

lemma sys_events_queue:
  "sys_events env evs s = (is, t) \<Longrightarrow>
     \<exists>ops sentinel. queue_run queue_put queue_get ops (raw s) = (taken is sentinel, raw t) \<and>
       puts_of ops = arrived evs \<and> (sentinel \<longrightarrow> phase t \<noteq> Looping) \<and>
       (phase s \<noteq> Looping \<longrightarrow> is = [] \<and> \<not> sentinel \<and> phase t = phase s) \<and>
       (phase s = Looping \<and> phase t \<noteq> Looping \<and> \<not> stop_set s \<and> Signal \<notin> set evs \<longrightarrow>
          sentinel \<or> (\<exists>e. phase t = Finished (Some e)))"
proof (induction evs arbitrary: s "is")
  case Nil
  then show ?case by (intro exI [of _ "[]"] exI [of _ False]) (auto simp: taken_def)
next
  case (Cons ev evs)
  show ?case
  proof (cases ev)
    case (Arrive x)
    from Cons.IH [of "s\<lparr>raw := queue_put x (raw s)\<rparr>" "is"] Cons.prems Arrive obtain ops sentinel where
      "queue_run queue_put queue_get ops (queue_put x (raw s)) = (taken is sentinel, raw t)"
      "puts_of ops = arrived evs" "sentinel \<longrightarrow> phase t \<noteq> Looping"
      "phase s \<noteq> Looping \<longrightarrow> is = [] \<and> \<not> sentinel \<and> phase t = phase s"
      "phase s = Looping \<and> phase t \<noteq> Looping \<and> \<not> stop_set s \<and> Signal \<notin> set evs \<longrightarrow>
          sentinel \<or> (\<exists>e. phase t = Finished (Some e))" by auto
    with Arrive show ?thesis by (intro exI [of _ "Put x # ops"] exI [of _ sentinel]) simp
  next
    case Signal
    from Cons.IH [of "s\<lparr>stop_set := True\<rparr>" "is"] Cons.prems Signal show ?thesis by auto
  next
    case Turn
    show ?thesis
    proof (cases "phase s = Looping")
      case False
      with Turn Cons.prems have "sys_events env evs s = (is, t)" by simp
      from Cons.IH [OF this] False Turn show ?thesis by auto
    next
      case True
      obtain new s' where l: "loop_step env s = (new, s')" by force
      obtain is1 where r: "sys_events env evs s' = (is1, t)" "is = new @ is1"
        using Cons.prems Turn True l by (auto split: prod.splits)
      from Cons.IH [OF r(1)] obtain ops sentinel where
        o: "queue_run queue_put queue_get ops (raw s') = (taken is1 sentinel, raw t)"
          "puts_of ops = arrived evs" "sentinel \<longrightarrow> phase t \<noteq> Looping"
          "phase s' \<noteq> Looping \<longrightarrow> is1 = [] \<and> \<not> sentinel \<and> phase t = phase s'"
          "phase s' = Looping \<and> phase t \<noteq> Looping \<and> \<not> stop_set s' \<and> Signal \<notin> set evs \<longrightarrow>
             sentinel \<or> (\<exists>e. phase t = Finished (Some e))" by blast
      show ?thesis
        using True l
      proof (cases rule: loop_step_queue)
        case 1
        with o r(2) True Turn show ?thesis by (intro exI [of _ ops] exI [of _ sentinel]) auto
      next
        case 2
        have "phase s' = Looping \<and> \<not> stop_set s' \<or> (\<exists>e. phase s' = Finished (Some e))"
          using l True 2 loop_turn_cases [of "s\<lparr>raw := raw s'\<rparr>" env None] by (auto simp: loop_step_def)
        with 2 o r(2) True Turn show ?thesis
          by (intro exI [of _ "Get # ops"] exI [of _ sentinel]) auto
      next
        case 3
        with o r(2) True Turn show ?thesis
          by (intro exI [of _ "Get # ops"] exI [of _ True]) (auto simp: taken_def)
      next
        case (4 i)
        have "phase s' = Looping \<and> \<not> stop_set s' \<or> (\<exists>e. phase s' = Finished (Some e))"
          using l True 4 loop_turn_cases [of "s\<lparr>raw := raw s'\<rparr>" env "Some i"] by (auto simp: loop_step_def)
        with 4 o r(2) True Turn show ?thesis
          by (intro exI [of _ "Get # ops"] exI [of _ sentinel]) (auto simp: taken_def)
      qed
    qed
  qed
qed

section \<open>The interpreter of a run\<close>

text \<open>Neither the router nor the exit path touches the interpreter: whatever the callbacks do, its state is
  that of interpreting the items taken, one after the other.\<close>

lemma run_router_interp:
  "run_router f p w = (e, p', w') \<Longrightarrow> interp p' = interp p \<and> logging p' = logging p"
  by (auto simp: run_router_def split: prod.splits)

lemma iteration_interp:
  assumes "iteration env got p w = (e, p', w')"
  shows "case got of None \<Rightarrow> interp p' = interp p \<and> logging p' = logging p
    | Some i \<Rightarrow> \<exists>r. process i (interp p) (logging p) = (r, interp p', logging p')"
  using assms
  by (auto simp: iteration_def and_then_def Let_def split: option.splits prod.splits dest!: run_router_interp)

lemma finish_interp: "interp (pipe (finish env e s)) = interp (pipe s)" "logging (pipe (finish env e s)) = logging (pipe s)"
  by (auto simp: finish_def split: prod.splits dest: run_router_interp)

lemma loop_turn_interp:
  "case got of None \<Rightarrow> interp (pipe (loop_turn env got s)) = interp (pipe s) \<and>
       logging (pipe (loop_turn env got s)) = logging (pipe s)
   | Some i \<Rightarrow> \<exists>r. process i (interp (pipe s)) (logging (pipe s))
       = (r, interp (pipe (loop_turn env got s)), logging (pipe (loop_turn env got s)))"
proof -
  obtain e p w where i: "iteration env got (pipe s) (world s) = (e, p, w)" by (metis prod_cases3)
  then have "interp (pipe (loop_turn env got s)) = interp p" "logging (pipe (loop_turn env got s)) = logging p"
    by (simp_all add: loop_turn_def Let_def finish_interp split: option.split)
  with iteration_interp [OF i] show ?thesis by (cases got) simp_all
qed

lemma loop_step_interp:
  assumes "loop_step env s = (new, s')"
  shows "\<exists>rs. process_all new (interp (pipe s)) (logging (pipe s)) = (rs, interp (pipe s'), logging (pipe s'))"
proof (cases "\<exists>i. new = [i]")
  case True
  then obtain i where i: "new = [i]" ..
  with assms have "s' = loop_turn env (Some i) (s\<lparr>raw := raw s'\<rparr>)"
    by (auto simp: loop_step_def loop_turn_raw split: if_splits prod.splits option.splits queue_item.splits)
  with i loop_turn_interp [of env "Some i" "s\<lparr>raw := raw s'\<rparr>"] show ?thesis by fastforce
next
  case False
  with assms have "new = []"
    by (auto simp: loop_step_def split: if_splits prod.splits option.splits queue_item.splits)
  moreover have "interp (pipe s') = interp (pipe s)" "logging (pipe s') = logging (pipe s)"
    using assms False loop_turn_interp [of env None]
    by (auto simp: loop_step_def finish_interp split: if_splits prod.splits option.splits queue_item.splits)
  ultimately show ?thesis by simp
qed

lemma sys_run_interp:
  "sys_run env s0 is s \<Longrightarrow>
     \<exists>rs. process_all is (interp (pipe s0)) (logging (pipe s0)) = (rs, interp (pipe s), logging (pipe s))"
proof (induction rule: sys_run.induct)
  case (loop "is" s new s')
  with loop_step_interp [OF loop.hyps(3)] show ?case by (auto simp: process_all_append)
qed auto

section \<open>The counters logged at the end\<close>

text \<open>\<open>run\<close> logs the drops of the queue, the errors and drops of the interpreter and the drops of the
  router.\<close>

definition stop_counters :: "'w system \<Rightarrow> int \<times> int \<times> int \<times> int" where
  "stop_counters s = (queue_dropped (raw s), errors (interp (pipe s)), dropped (interp (pipe s)), rt_dropped (bufrouter (pipe s)))"

lemma schedule_queue:
  assumes "make_queue n = Inr q" "sys_events env evs (init_system q p w) = (is, s)"
  obtains ops sentinel where "queue_run queue_put queue_get ops q = (taken is sentinel, raw s)"
    "puts_of ops = arrived evs" "sentinel \<longrightarrow> phase s \<noteq> Looping"
    "phase s \<noteq> Looping \<and> Signal \<notin> set evs \<longrightarrow> sentinel \<or> (\<exists>e. phase s = Finished (Some e))"
  using sys_events_queue [OF assms(2)] by (auto simp: init_system_def)

lemma schedule_account:
  assumes "make_queue n = Inr q"
    and "sys_events env evs (init_system q (fresh_pipeline b age fs m) w) = (is, s)"
  obtains rs sentinel where "process_all is (new_interpreter m) new_module_state = (rs, interp (pipe s), logging (pipe s))"
    "int (length (arrived evs)) = delivered_count rs + errors (interp (pipe s)) + dropped (interp (pipe s)) +
       queue_dropped (raw s) + queue_len (raw s) + of_bool sentinel"
    "subseq (taken is sentinel @ queue_items (raw s)) (arrived evs)" "sentinel \<longrightarrow> phase s \<noteq> Looping"
proof -
  from schedule_queue [OF assms(1,2)] obtain ops sentinel where
    o: "queue_run queue_put queue_get ops q = (taken is sentinel, raw s)" "puts_of ops = arrived evs"
      "sentinel \<longrightarrow> phase s \<noteq> Looping" by metis
  note q = make_queue_ok [OF assms(1)]
  have "sys_run env (init_system q (fresh_pipeline b age fs m) w) is s"
    using assms(2) sys_run_iff_events by blast
  from sys_run_interp [OF this] obtain rs where
    rs: "process_all is (new_interpreter m) new_module_state = (rs, interp (pipe s), logging (pipe s))"
    by (auto simp: init_system_def fresh_pipeline_def)
  have "delivered_count rs + errors (interp (pipe s)) + dropped (interp (pipe s)) = int (length is)"
    using process_all_account [OF new_module_state_ok new_interpreter_inv rs] by (simp add: new_interpreter_def)
  with raw.run_account [OF _ o(1)] raw.run_order [OF _ o(1)] q o(2,3) rs show thesis
    by (intro that [of rs sentinel]) (cases sentinel; simp add: queue_len_def taken_def)+
qed

text \<open>C8: the counters \<open>run\<close> logs account for everything. Whatever the callbacks do and however the puts,
  the stop event and the turns of the loop interleave, at every moment of a run the items put into
  the queue are exactly: the records the interpreter delivered, the interpreter's errors, its drops,
  the drops of the queue, what the queue still holds, and the sentinel if it was taken; and the
  items taken followed by those held are, in order, among the items put.\<close>

theorem run_accounts:
  assumes "make_queue n = Inr q"
    and "sys_events env evs (init_system q (fresh_pipeline b age fs m) w) = (is, s)"
    and "stop_counters s = (queue_lost, errs, refused, router_lost)"
  shows "\<exists>rs sentinel. process_all is (new_interpreter m) new_module_state = (rs, interp (pipe s), logging (pipe s)) \<and>
    int (length (arrived evs)) =
      delivered_count rs + errs + refused + queue_lost + queue_len (raw s) + of_bool sentinel \<and>
    subseq (taken is sentinel @ queue_items (raw s)) (arrived evs) \<and> (sentinel \<longrightarrow> phase s \<noteq> Looping)"
  using schedule_account [OF assms(1,2)] assms(3) unfolding stop_counters_def by (metis prod.inject)

lemma subseq_subset: "subseq xs ys \<Longrightarrow> set xs \<subseteq> set ys"
  by (auto elim: list_emb_set)

lemma queue_run_maxsize: "queue_run queue_put queue_get ops q = (got, q') \<Longrightarrow> maxsize q' = maxsize q"
proof (induction ops arbitrary: q got)
  case (Cons op ops)
  obtain r q1 where g: "queue_get q = (r, q1)" by force
  then have "maxsize q1 = maxsize q" by (auto simp: queue_get_def split: list.splits)
  moreover have "maxsize (queue_put x q) = maxsize q" for x by (simp add: queue_put_def Let_def)
  ultimately show ?case using Cons g by (cases op) (auto split: prod.splits)
qed simp

section \<open>A replay that fits\<close>

lemma queue_run_fits:
  "queue_run queue_put queue_get ops q = (got, q') \<Longrightarrow>
     queue_len q + int (length (puts_of ops)) \<le> maxsize q \<Longrightarrow> queue_dropped q' = queue_dropped q"
proof (induction ops arbitrary: q got)
  case (Cons op ops)
  show ?case
  proof (cases op)
    case (Put x)
    with Cons.prems(2) have put: "queue_put x q = q\<lparr>queue_items := queue_items q @ [x]\<rparr>"
      by (simp add: queue_put_def queue_len_def)
    with Cons.IH [of "queue_put x q" got] Cons.prems Put show ?thesis by (simp add: queue_len_def)
  next
    case Get
    obtain r q1 where g: "queue_get q = (r, q1)" by force
    then have "queue_len q1 \<le> queue_len q" "maxsize q1 = maxsize q" "queue_dropped q1 = queue_dropped q"
      by (auto simp: queue_get_def queue_len_def split: list.splits)
    with Cons.IH [of q1] Cons.prems Get g show ?thesis by (auto split: prod.splits)
  qed
qed simp

lemma taken_until_sentinel:
  assumes "taken is sentinel @ rest = map Item xs @ [SHUTDOWN]" "sentinel"
  shows "is = xs \<and> rest = []"
proof -
  from assms have "map Item is @ SHUTDOWN # rest = map Item xs @ [SHUTDOWN]" by (simp add: taken_def)
  then show ?thesis
  proof (induction "is" arbitrary: xs)
    case Nil
    then show ?case by (cases xs) simp_all
  next
    case (Cons i "is")
    then show ?case by (cases xs) simp_all
  qed
qed

definition row_data :: "replay_row list \<Rightarrow> raw_item list" where
  "row_data rows = concat (map (\<lambda>row. case row of Row ts it \<Rightarrow> [it] | _ \<Rightarrow> []) rows)"

lemma row_items_data: "row_items rows = map Item (row_data rows)"
  by (induction rows) (auto simp: row_items_def row_data_def split: replay_row.splits)

lemma replay_interprets:
  assumes replay: "replay_run (Inr rows) pace stops wakes = (acts, failed)" "\<forall>j. \<not> stops j \<and> \<not> wakes j"
    and q: "make_queue n = Inr q" "int (length rows) < n \<or> queue_dropped (raw s) = 0"
    and run: "sys_events env evs (init_system q p w) = (is, s)"
    and evs: "arrived evs = enqueued acts" "Signal \<notin> set evs" "phase s = Finished None"
  shows "is = row_data (takeWhile row_ok rows) \<and> queue_items (raw s) = []"
proof -
  let ?xs = "row_data (takeWhile row_ok rows)"
  obtain acts1 f1 where r: "replay_rows pace stops wakes 0 None rows = (acts1, f1)" by force
  with replay(1) have "acts = acts1 @ [Enqueue SHUTDOWN]" by (simp add: replay_run_def)
  with replay_rows_props(2) [OF r] replay(2) evs(1) have arr: "arrived evs = map Item ?xs @ [SHUTDOWN]"
    by (simp add: row_items_data)
  from schedule_queue [OF q(1) run] obtain ops sentinel where
    o: "queue_run queue_put queue_get ops q = (taken is sentinel, raw s)" "puts_of ops = arrived evs"
      "sentinel \<or> (\<exists>e. phase s = Finished (Some e))"
    using evs(2,3) by (metis phase.distinct(1))
  note qs = make_queue_ok [OF q(1)]
  have "length ?xs \<le> length rows"
    unfolding row_data_def by (induction rows) (auto simp: row_ok_def split: replay_row.splits)
  with arr o(2) have "queue_len q + int (length (puts_of ops)) \<le> maxsize q" if "int (length rows) < n"
    using that qs by (simp add: queue_len_def)
  with queue_run_fits [OF o(1)] q(2) qs have "queue_dropped (raw s) = queue_dropped q" by auto
  from raw.run_lossless [OF _ o(1) this] qs o(2) arr have "taken is sentinel @ queue_items (raw s) = map Item ?xs @ [SHUTDOWN]"
    by simp
  from taken_until_sentinel [OF this] o(3) evs(3) show ?thesis by simp
qed

text \<open>C4: a replay does not depend on scheduling. When the capture and the sentinel fit the queue (or,
  for any queue, when its counter says that nothing was dropped), the replay is not interrupted, and
  \<open>run\<close> ends without an exception, then however the two threads interleaved: the interpreter got
  exactly the payloads of the capture's rows before the first corrupt one, in order, the consumer
  got exactly their samples, and each stream's total in the throughput report is the number of
  samples a sequential interpretation of the capture delivers.\<close>

theorem replay_schedule_free:
  assumes replay: "replay_run (Inr rows) pace stops wakes = (acts, failed)" "\<forall>j. \<not> stops j \<and> \<not> wakes j"
    and q: "make_queue n = Inr q" "int (length rows) < n \<or> queue_dropped (raw s) = 0"
    and run: "sys_events (metered env) evs
      (init_system q (fresh_pipeline b age fs m) (new_meter\<lparr>meter_start := t0\<rparr>, w)) = (is, s)"
    and evs: "arrived evs = enqueued acts" "Signal \<notin> set evs" "phase s = Finished None"
    and np: "numpy_ok env item" "numpy_formats env" and fs: "''sample_rate_hz'' \<in> set fs"
  shows "is = row_data (takeWhile row_ok rows) \<and> queue_items (raw s) = [] \<and>
    (\<exists>rs g us. process_all (row_data (takeWhile row_ok rows)) (new_interpreter m) new_module_state = (rs, interp (pipe s), g) \<and>
       fst (world s) = meter_all us (new_meter\<lparr>meter_start := t0\<rparr>) \<and>
       (\<forall>k. emitted_items k us = delivered_items item k rs \<and>
          st_total (stream_of k (fst (world s))) = delivered_samples k rs))"
proof -
  note got = replay_interprets [OF replay q run evs]
  have "sys_run (metered env) (init_system q (fresh_pipeline b age fs m) (new_meter\<lparr>meter_start := t0\<rparr>, w)) is s"
    using run sys_run_iff_events by blast
  from metered_figures [OF this np fs] obtain rs us where
    "figures env item fs m (new_meter\<lparr>meter_start := t0\<rparr>) is s rs us" by blast
  with got evs(3) show ?thesis unfolding figures_def by blast
qed

section \<open>Concrete schedules\<close>

text \<open>A queue of two that drops one of three datagrams, and a sentinel put between turns.\<close>

definition small_events :: "sys_event list" where
  "small_events = [Arrive (Item Stray), Arrive (Item Stray), Arrive (Item Stray), Turn, Arrive SHUTDOWN, Turn, Turn]"

abbreviation empty_queue :: "int \<Rightarrow> queue_item raw_queue" where
  "empty_queue n \<equiv> \<lparr>maxsize = n, queue_items = [], queue_dropped = 0\<rparr>"

definition small_start :: "demo_world system" where
  "small_start = init_system (empty_queue 2) (fresh_pipeline 1 1 DEFAULT_FLUSH_FIELDS 64) (0, [])"

lemma small_counters:
  "stop_counters (snd (sys_events demo_env small_events small_start)) = (1, 2, 0, 0)"
  "queue_len (raw (snd (sys_events demo_env small_events small_start))) = 0"
  by code_simp+

theorem run_accounts_witness:
  "\<exists>rs sentinel. process_all (fst (sys_events demo_env small_events small_start)) (new_interpreter 64) new_module_state
       = (rs, interp (pipe (snd (sys_events demo_env small_events small_start))),
          logging (pipe (snd (sys_events demo_env small_events small_start)))) \<and>
     4 = delivered_count rs + 2 + 0 + 1 + 0 + of_bool sentinel"
proof -
  have q: "make_queue 2 = Inr (empty_queue 2)" by (simp add: make_queue_def)
  let ?t = "sys_events demo_env small_events small_start"
  have n: "int (length (arrived small_events)) = 4" by (simp add: small_events_def)
  from run_accounts [OF q prod.collapse [symmetric] small_counters(1) [unfolded small_start_def],
      folded small_start_def, unfolded n small_counters(2)]
  obtain rs sentinel where "process_all (fst ?t) (new_interpreter 64) new_module_state
      = (rs, interp (pipe (snd ?t)), logging (pipe (snd ?t)))"
    "4 = delivered_count rs + 2 + 0 + 1 + 0 + of_bool sentinel" by (elim exE conjE)
  then show ?thesis by (intro exI conjI)
qed

text \<open>The capture of the pipeline's concrete run, its rows put before the first turn.\<close>

definition mini_rows :: "replay_row list" where
  "mini_rows = [Row 0 (Datagram mini_context), Row 1000 (Datagram (mini_data 1 [0, 0, 0, 1, 0, 0, 0, 2])),
     Row 2000 (Datagram (mini_data 3 [0, 0, 0, 3, 0, 0, 0, 4]))]"

definition mini_events :: "sys_event list" where
  "mini_events = map Arrive (enqueued (fst (replay_run (Inr mini_rows) False (\<lambda>_. False) (\<lambda>_. False)))) @ replicate 4 Turn"

lemma sys_events_turn:
  "phase s = Looping \<Longrightarrow> sys_events env (Turn # evs) s =
     (fst (loop_step env s) @ fst (sys_events env evs (snd (loop_step env s))), snd (sys_events env evs (snd (loop_step env s))))"
  by (simp split: prod.split)

lemma mini_acts: "enqueued (fst (replay_run (Inr mini_rows) False (\<lambda>_. False) (\<lambda>_. False)))
    = [Item (Datagram mini_context), Item (Datagram (mini_data 1 [0, 0, 0, 1, 0, 0, 0, 2])),
       Item (Datagram (mini_data 3 [0, 0, 0, 3, 0, 0, 0, 4])), SHUTDOWN]"
  by (simp add: replay_run_def mini_rows_def pace_delay_def split: option.split)

lemma mini_schedule:
  "sys_events (metered demo_env) mini_events (init_system (empty_queue 8) (fresh_pipeline 625000 1 DEFAULT_FLUSH_FIELDS 64)
     (new_meter\<lparr>meter_start := Some 0\<rparr>, (0, []))) = (mini_items, metered_end)"
proof -
  have "sys_events (metered demo_env) mini_events (init_system (empty_queue 8) (fresh_pipeline 625000 1 DEFAULT_FLUSH_FIELDS 64)
      (new_meter\<lparr>meter_start := Some 0\<rparr>, (0, [])))
    = sys_events (metered demo_env) [Turn, Turn, Turn, Turn] metered_start"
    unfolding mini_events_def mini_acts metered_start_def mini_queue_def init_system_def
    by (simp add: queue_put_def eval_nat_numeral del: sys_events.simps(4))
  also have "\<dots> = (mini_items, metered_end)"
    unfolding sys_events_turn [OF metered_phases(1)] sys_events_turn [OF metered_phases(2)]
      sys_events_turn [OF metered_phases(3)] sys_events_turn [OF metered_phases(4)] sys_events.simps(1) fst_conv snd_conv
      append_Nil2 metered_phases(6) ..
  finally show ?thesis .
qed

theorem replay_schedule_free_witness:
  "\<exists>s. sys_events (metered demo_env) mini_events (init_system (empty_queue 8)
       (fresh_pipeline 625000 1 DEFAULT_FLUSH_FIELDS 64) (new_meter\<lparr>meter_start := Some 0\<rparr>, (0, []))) = (mini_items, s) \<and>
     mini_items = row_data mini_rows \<and> st_total (stream_of (Some 7) (fst (world s))) = 2"
proof -
  have q: "make_queue 8 = Inr (empty_queue 8)" by (simp add: make_queue_def)
  have d: "delivered_samples (Some 7) (fst (process_all mini_items (new_interpreter 64) new_module_state)) = 2"
    by code_simp
  have fs: "''sample_rate_hz'' \<in> set DEFAULT_FLUSH_FIELDS" by (simp add: DEFAULT_FLUSH_FIELDS_def)
  have fits: "int (length mini_rows) < 8 \<or> queue_dropped (raw metered_end) = 0" by (simp add: mini_rows_def)
  have evs: "arrived mini_events = enqueued (fst (replay_run (Inr mini_rows) False (\<lambda>_. False) (\<lambda>_. False)))"
      "Signal \<notin> set mini_events"
    unfolding mini_events_def mini_acts by (simp_all add: eval_nat_numeral)
  have rows: "row_data (takeWhile row_ok mini_rows) = row_data mini_rows"
    by (simp add: mini_rows_def row_ok_def)
  from replay_schedule_free [OF prod.collapse [symmetric] _ q fits mini_schedule evs metered_phases(5) demo_numpy_ok
      demo_numpy_formats fs, unfolded rows]
  obtain rs g where i: "mini_items = row_data mini_rows"
    "process_all (row_data mini_rows) (new_interpreter 64) new_module_state = (rs, interp (pipe metered_end), g)"
    "st_total (stream_of (Some 7) (fst (world metered_end))) = delivered_samples (Some 7) rs" by blast
  with d have "st_total (stream_of (Some 7) (fst (world metered_end))) = 2" by simp
  with i(1) mini_schedule show ?thesis by blast
qed

end
