(* ===== verification/Session_Ends.thy ===== *)
theory Session_Ends
  imports Accounting
begin

text \<open>
  How a run of the program ends: by the stop event, the sentinel or an exception of the consumer in a
  turn of the loop or in the final flush, all of which a schedule describes, or by an interrupt that
  reaches the main thread while it waits in \<open>get\<close>. In each case \<open>Pipeline.run\<close> leaves through its
  \<open>finally\<close> blocks (\<open>finish\<close>), while the source may still put what it received.
\<close>

section \<open>Sessions\<close>

text \<open>A schedule; then, if \<open>interrupted\<close> and the loop is still running, the interrupt; then what the source
  still puts until it is joined.\<close>

definition sys_session ::
  "('f, 'w) env \<Rightarrow> sys_event list \<Rightarrow> bool \<Rightarrow> queue_item list \<Rightarrow> 'w system \<Rightarrow> raw_item list \<times> 'w system" where
  "sys_session env evs interrupted late s0 =
    (case sys_events env evs s0 of (is, s) \<Rightarrow>
       let t = (if interrupted \<and> phase s = Looping then finish env (Some KeyboardInterrupt) s else s)
       in (is, t\<lparr>raw := fold queue_put late (raw t)\<rparr>))"

text \<open>\<open>main\<close> sees the exception of \<open>run\<close>, which is \<open>None\<close>, that of the consumer or the interrupt. The
  consumer has raised nothing if there is none, or an interrupt that consumers do not raise.\<close>

definition unraised :: "('f, 'w) env \<Rightarrow> exn option \<Rightarrow> bool" where
  "unraised env e \<longleftrightarrow> e = None \<or> e = Some KeyboardInterrupt \<and> (\<forall>u v. fst (emit env u v) \<noteq> Some KeyboardInterrupt)"

section \<open>Sessions as runs\<close>

lemma sys_run_puts: "sys_run env s0 is s \<Longrightarrow> sys_run env s0 is (s\<lparr>raw := fold queue_put xs (raw s)\<rparr>)"
proof (induction xs arbitrary: s)
  case (Cons x xs)
  from Cons.IH [OF sys_run.put [OF Cons.prems, of x]] show ?case by simp
qed simp

text \<open>Interrupted or stopped, the end of a session differs from a stopped run in the exception only.\<close>

lemma finish_as_stop:
  assumes run: "sys_run env s0 is s" and ph: "phase s = Looping"
  obtains s2 e where "sys_run env s0 is s2" "phase s2 = Finished e"
    "finish env cause s = s2\<lparr>phase := Finished (case e of None \<Rightarrow> cause | Some _ \<Rightarrow> e)\<rparr>"
proof -
  let ?s = "s\<lparr>stop_set := True\<rparr>"
  have "loop_step env ?s = ([], finish env None ?s)" by (simp add: loop_step_def)
  from sys_run.loop [OF sys_run.stop [OF run] _ this] ph have r: "sys_run env s0 is (finish env None ?s)" by simp
  obtain e p w where f: "run_router (flush_all env) (pipe s) (world s) = (e, p, w)" by (metis prod_cases3)
  show thesis
    by (rule that [OF r, of e]) (use f in \<open>simp_all add: finish_def split: option.split\<close>)
qed

lemma session_as_run:
  assumes "sys_session env evs interrupted late s0 = (is, t)" "phase t = Finished e"
  obtains s2 e2 where "sys_run env s0 is s2" "phase s2 = Finished e2" "t = s2\<lparr>phase := Finished e\<rparr>"
    "e = e2 \<or> interrupted \<and> e2 = None \<and> e = Some KeyboardInterrupt"
proof -
  obtain s where s: "sys_events env evs s0 = (is, s)"
    "t = (let u = (if interrupted \<and> phase s = Looping then finish env (Some KeyboardInterrupt) s else s)
          in u\<lparr>raw := fold queue_put late (raw u)\<rparr>)"
    using assms(1) by (auto simp: sys_session_def Let_def split: prod.splits)
  have run: "sys_run env s0 is s" using s(1) sys_run_iff_events by blast
  show thesis
  proof (cases "interrupted \<and> phase s = Looping")
    case False
    then have t: "t = s\<lparr>raw := fold queue_put late (raw s)\<rparr>" using s(2) unfolding if_not_P [OF False] Let_def by blast
    with sys_run_puts [OF run, of late] assms(2) show thesis by (intro that [of t e]) simp_all
  next
    case True
    then obtain s2 e2 where s2: "sys_run env s0 is s2" "phase s2 = Finished e2"
      "finish env (Some KeyboardInterrupt) s = s2\<lparr>phase := Finished (case e2 of None \<Rightarrow> Some KeyboardInterrupt | Some _ \<Rightarrow> e2)\<rparr>"
      using finish_as_stop [OF run] by metis
    let ?t = "s2\<lparr>raw := fold queue_put late (raw s2)\<rparr>"
    have "t = ?t\<lparr>phase := Finished (case e2 of None \<Rightarrow> Some KeyboardInterrupt | Some _ \<Rightarrow> e2)\<rparr>"
      using s(2) True s2(3) by (simp add: Let_def)
    with sys_run_puts [OF s2(1), of late] s2(2) assms(2) True show thesis
      by (intro that [of ?t e2]) (auto split: option.splits)
  qed
qed

section \<open>What a metered session did\<close>

text \<open>The figures of a session that ended (a run \<open>s2\<close> that differs from it in the exception only), and
  what the exception says about them.\<close>

lemma session_figures:
  assumes ses: "sys_session (metered env) evs interrupted late
      (init_system q (fresh_pipeline n age fs m) (new_meter\<lparr>meter_start := t0\<rparr>, w)) = (is, t)"
    and ph: "phase t = Finished e"
    and np: "numpy_ok env item" "numpy_formats env" and fs: "''sample_rate_hz'' \<in> set fs"
  shows "\<exists>s2 rs us. figures env item fs m (new_meter\<lparr>meter_start := t0\<rparr>) is s2 rs us \<and> t = s2\<lparr>phase := Finished e\<rparr> \<and>
    (\<forall>x. e = Some x \<longrightarrow> interrupted \<and> x = KeyboardInterrupt \<or> (\<exists>u v. fst (emit env u v) = Some x)) \<and>
    (unraised env e \<longrightarrow> (\<forall>k. emitted_items k us = delivered_items item k rs \<and>
       st_total (stream_of k (fst (world t))) = delivered_samples k rs))"
proof -
  from session_as_run [OF ses ph] obtain s2 e2 where
    s2: "sys_run (metered env) (init_system q (fresh_pipeline n age fs m) (new_meter\<lparr>meter_start := t0\<rparr>, w)) is s2"
      "phase s2 = Finished e2" "t = s2\<lparr>phase := Finished e\<rparr>"
    and e: "e = e2 \<or> interrupted \<and> e2 = None \<and> e = Some KeyboardInterrupt" by blast
  from metered_figures [OF s2(1) np fs] obtain rs us where
    f: "figures env item fs m (new_meter\<lparr>meter_start := t0\<rparr>) is s2 rs us" by blast
  have raised: "\<exists>u v. fst (emit env u v) = Some x" if "e2 = Some x" for x
    using f s2(2) that by (auto simp: figures_def)
  have "\<forall>x. e = Some x \<longrightarrow> interrupted \<and> x = KeyboardInterrupt \<or> (\<exists>u v. fst (emit env u v) = Some x)"
    using e raised by auto
  moreover have "\<forall>k. emitted_items k us = delivered_items item k rs \<and>
      st_total (stream_of k (fst (world t))) = delivered_samples k rs" if un: "unraised env e"
  proof -
    have "e2 = None" using un e raised unfolding unraised_def by (cases e2) auto
    with s2(2) have "phase s2 = Finished None" by simp
    with f have "\<forall>k. emitted_items k us = delivered_items item k rs \<and> st_total (stream_of k (fst (world s2))) = delivered_samples k rs"
      unfolding figures_def by blast
    with s2(3) show ?thesis by simp
  qed
  ultimately show ?thesis using f s2(3) by blast
qed

section \<open>The queue of a session\<close>

text \<open>A session as a schedule, up to the exception: an interrupt stops the loop as the event does.\<close>

lemma sys_events_arrivals: "sys_events env (map Arrive xs) s = ([], s\<lparr>raw := fold queue_put xs (raw s)\<rparr>)"
  by (induction xs arbitrary: s) simp_all

lemma arrived_append [simp]: "arrived (xs @ ys) = arrived xs @ arrived ys"
  by (induction xs rule: arrived.induct) simp_all

lemma arrived_arrivals [simp]: "arrived (map Arrive xs) = xs"
  by (induction xs) simp_all

lemma session_as_schedule:
  assumes "sys_session env evs interrupted late s0 = (is, t)"
  obtains evs' s2 where "sys_events env evs' s0 = (is, s2)" "arrived evs' = arrived evs @ late"
    "raw t = raw s2" "pipe t = pipe s2" "world t = world s2" "phase t = Looping \<longleftrightarrow> phase s2 = Looping"
proof -
  obtain s where s: "sys_events env evs s0 = (is, s)"
    "t = (let u = (if interrupted \<and> phase s = Looping then finish env (Some KeyboardInterrupt) s else s)
          in u\<lparr>raw := fold queue_put late (raw u)\<rparr>)"
    using assms by (auto simp: sys_session_def Let_def split: prod.splits)
  show thesis
  proof (cases "interrupted \<and> phase s = Looping")
    case False
    then have "t = s\<lparr>raw := fold queue_put late (raw s)\<rparr>" using s(2) unfolding if_not_P [OF False] Let_def by blast
    with s(1) show thesis
      by (intro that [of "evs @ map Arrive late" t]) (simp_all add: sys_events_append sys_events_arrivals)
  next
    case True
    let ?f = "finish env None (s\<lparr>stop_set := True\<rparr>)"
    have "loop_step env (s\<lparr>stop_set := True\<rparr>) = ([], ?f)" by (simp add: loop_step_def)
    then have ev: "sys_events env (evs @ [Signal, Turn] @ map Arrive late) s0 = (is, ?f\<lparr>raw := fold queue_put late (raw ?f)\<rparr>)"
      using s(1) True by (simp add: sys_events_append sys_events_arrivals)
    have same: "raw (finish env (Some KeyboardInterrupt) s) = raw ?f" "pipe (finish env (Some KeyboardInterrupt) s) = pipe ?f"
      "world (finish env (Some KeyboardInterrupt) s) = world ?f"
      by (simp_all add: finish_def split: prod.split)
    have "phase (finish env c u) \<noteq> Looping" for c and u :: "'a system" using finish_phase(1) [of env c u] by auto
    with same s(2) True show thesis by (intro that [OF ev]) (simp_all add: Let_def)
  qed
qed

text \<open>The account of a session without the sentinel, and its queue.\<close>

lemma session_account:
  assumes q: "make_queue n = Inr q"
    and ses: "sys_session env evs interrupted late (init_system q (fresh_pipeline b age fs m) w) = (is, t)"
    and live: "SHUTDOWN \<notin> set (arrived evs @ late)"
    and rs: "process_all is (new_interpreter m) new_module_state = (rs, interp (pipe t), logging (pipe t))"
  shows "int (length (arrived evs @ late)) =
      delivered_count rs + errors (interp (pipe t)) + dropped (interp (pipe t)) + queue_dropped (raw t) + queue_len (raw t)"
    "subseq (map Item is @ queue_items (raw t)) (arrived evs @ late)"
    "queue_dropped (raw t) = 0 \<Longrightarrow> map Item is @ queue_items (raw t) = arrived evs @ late"
proof -
  obtain evs' s2 where ev: "sys_events env evs' (init_system q (fresh_pipeline b age fs m) w) = (is, s2)"
    "arrived evs' = arrived evs @ late" "raw t = raw s2" "pipe t = pipe s2"
    using session_as_schedule [OF ses] by metis
  from schedule_account [OF q ev(1)] obtain rs1 sentinel where acc:
    "process_all is (new_interpreter m) new_module_state = (rs1, interp (pipe s2), logging (pipe s2))"
    "int (length (arrived evs')) = delivered_count rs1 + errors (interp (pipe s2)) + dropped (interp (pipe s2)) +
       queue_dropped (raw s2) + queue_len (raw s2) + of_bool sentinel"
    "subseq (taken is sentinel @ queue_items (raw s2)) (arrived evs')" by metis
  have no: "\<not> sentinel"
    using live subseq_subset [OF acc(3)] ev(2) by (cases sentinel) (auto simp: taken_def)
  with acc ev rs show "int (length (arrived evs @ late)) =
      delivered_count rs + errors (interp (pipe t)) + dropped (interp (pipe t)) + queue_dropped (raw t) + queue_len (raw t)"
    "subseq (map Item is @ queue_items (raw t)) (arrived evs @ late)"
    by (simp_all add: taken_def)
  from schedule_queue [OF q ev(1)] obtain ops sentinel' where
    o: "queue_run queue_put queue_get ops q = (taken is sentinel', raw s2)" "puts_of ops = arrived evs'" by metis
  note qs = make_queue_ok [OF q]
  have sub: "subseq (taken is sentinel' @ queue_items (raw s2)) (arrived evs')"
    using raw.run_order [OF _ o(1)] qs o(2) by simp
  then have "\<not> sentinel'" using live subseq_subset [OF sub] ev(2) by (cases sentinel') (auto simp: taken_def)
  with raw.run_lossless [OF _ o(1)] qs o(2) ev(2,3)
  show "queue_dropped (raw t) = 0 \<Longrightarrow> map Item is @ queue_items (raw t) = arrived evs @ late"
    by (simp add: taken_def)
qed

lemma demo_env_quiet: "fst (emit demo_env u v) = None"
  by (simp add: demo_env_def split: prod.split)

end
