(* ===== verification/Cli.thy ===== *)
theory Cli
  imports Sources Metrics Pipeline_Laws
begin

text \<open>
  \<open>__main__.py\<close>: the command line, the wiring of the object graph and the exit codes. The argument
  vector arrives as the options \<open>argparse\<close> reads in it (\<open>Unreadable\<close>: one it cannot read, which exits
  2); an exit of the parser is the value \<open>Exit 2\<close>. What the operating system, the capture file and
  the stop event answer is the record \<open>outside\<close>.
\<close>

section \<open>Arguments\<close>

definition DEFAULT_MAX_SAMPLES :: int where "DEFAULT_MAX_SAMPLES = 625000"
definition DEFAULT_MAX_AGE_S :: rat where "DEFAULT_MAX_AGE_S = 1"
definition DEFAULT_QUEUE_SIZE :: int where "DEFAULT_QUEUE_SIZE = 32768"
definition DEFAULT_POLL_INTERVAL_S :: rat where "DEFAULT_POLL_INTERVAL_S = fl (1 / 10)"

datatype record_opt = No_Record | Record_Auto | Record_To string

datatype cli_option =
    Opt_Replay string | Opt_Live | Opt_Pace | Opt_Host string | Opt_Port int | Opt_Record "string option"
  | Opt_Record_Max_Bytes int | Opt_Record_Max_Packets int | Opt_Max_Samples int | Opt_Max_Age_S rat
  | Opt_Max_Streams int | Opt_Queue_Size int | Opt_Poll_Interval rat | Unreadable string

record cli_args =
  arg_replay :: "string option"
  arg_live :: bool
  arg_pace :: bool
  arg_host :: string
  arg_port :: "int option"
  arg_record :: record_opt
  arg_record_max_bytes :: int
  arg_record_max_packets :: "int option"
  arg_max_samples :: int
  arg_max_age_s :: rat
  arg_max_streams :: int
  arg_queue_size :: int
  arg_poll_interval :: rat

definition default_args :: cli_args where
  "default_args = \<lparr>arg_replay = None, arg_live = False, arg_pace = False, arg_host = ''0.0.0.0'', arg_port = None,
     arg_record = No_Record, arg_record_max_bytes = DEFAULT_LIVE_RECORD_MAX_BYTES, arg_record_max_packets = None,
     arg_max_samples = DEFAULT_MAX_SAMPLES, arg_max_age_s = DEFAULT_MAX_AGE_S,
     arg_max_streams = DEFAULT_MAX_STREAMS, arg_queue_size = DEFAULT_QUEUE_SIZE,
     arg_poll_interval = DEFAULT_POLL_INTERVAL_S\<rparr>"

text \<open>One option; \<open>None\<close> when \<open>argparse\<close> rejects it, also the second of the two exclusive ones.\<close>

fun apply_option :: "cli_option \<Rightarrow> cli_args \<Rightarrow> cli_args option" where
  "apply_option (Opt_Replay p) a = (if arg_live a then None else Some (a\<lparr>arg_replay := Some p\<rparr>))"
| "apply_option Opt_Live a = (if arg_replay a \<noteq> None then None else Some (a\<lparr>arg_live := True\<rparr>))"
| "apply_option Opt_Pace a = Some (a\<lparr>arg_pace := True\<rparr>)"
| "apply_option (Opt_Host h) a = Some (a\<lparr>arg_host := h\<rparr>)"
| "apply_option (Opt_Port p) a = Some (a\<lparr>arg_port := Some p\<rparr>)"
| "apply_option (Opt_Record p) a =
     Some (a\<lparr>arg_record := (case p of None \<Rightarrow> Record_Auto | Some f \<Rightarrow> Record_To f)\<rparr>)"
| "apply_option (Opt_Record_Max_Bytes n) a = Some (a\<lparr>arg_record_max_bytes := n\<rparr>)"
| "apply_option (Opt_Record_Max_Packets n) a = Some (a\<lparr>arg_record_max_packets := Some n\<rparr>)"
| "apply_option (Opt_Max_Samples n) a = Some (a\<lparr>arg_max_samples := n\<rparr>)"
| "apply_option (Opt_Max_Age_S x) a = Some (a\<lparr>arg_max_age_s := x\<rparr>)"
| "apply_option (Opt_Max_Streams n) a = Some (a\<lparr>arg_max_streams := n\<rparr>)"
| "apply_option (Opt_Queue_Size n) a = Some (a\<lparr>arg_queue_size := n\<rparr>)"
| "apply_option (Opt_Poll_Interval x) a = Some (a\<lparr>arg_poll_interval := x\<rparr>)"
| "apply_option (Unreadable s) a = None"

fun apply_options :: "cli_option list \<Rightarrow> cli_args \<Rightarrow> cli_args option" where
  "apply_options [] a = Some a"
| "apply_options (x # xs) a = (case apply_option x a of None \<Rightarrow> None | Some a' \<Rightarrow> apply_options xs a')"

definition parse_args :: "cli_option list \<Rightarrow> cli_args option" where
  "parse_args opts = (case apply_options opts default_args of
      None \<Rightarrow> None
    | Some a \<Rightarrow> if arg_live a \<or> arg_replay a \<noteq> None then Some a else None)"

text \<open>The cross-flag checks of \<open>main\<close>.\<close>

definition args_valid :: "cli_args \<Rightarrow> bool" where
  "args_valid a \<longleftrightarrow> \<not> arg_poll_interval a \<le> 0 \<and> \<not> (arg_live a \<and> arg_port a = None)"

section \<open>The object graph\<close>

datatype source_kind = Live_Source string "int option" | Replay_Source "string option" bool

record runtime =
  run_pipeline :: pipeline
  run_queue :: "queue_item raw_queue"
  run_source :: source_kind
  run_recorder :: "recorder option"
  record_path :: "string option"

text \<open>\<open>_build_runtime\<close>; \<open>default_path\<close> is \<open>default_recording_path\<close>, which creates a directory.\<close>

definition build_recorder ::
  "('w \<Rightarrow> (exn + string) \<times> 'w) \<Rightarrow> cli_args \<Rightarrow> 'w \<Rightarrow> (exn + (recorder option \<times> string option)) \<times> 'w" where
  "build_recorder default_path a w =
    (let r = new_recorder (arg_record_max_packets a) (Some (arg_record_max_bytes a)) in
     if \<not> arg_live a then (Inr (None, None), w)
     else case arg_record a of
         No_Record \<Rightarrow> (Inr (None, None), w)
       | Record_To p \<Rightarrow> (Inr (Some r, Some p), w)
       | Record_Auto \<Rightarrow> (case default_path w of
             (Inl e, w') \<Rightarrow> (Inl e, w')
           | (Inr p, w') \<Rightarrow> (Inr (Some r, Some p), w')))"

definition build_runtime ::
  "('w \<Rightarrow> (exn + string) \<times> 'w) \<Rightarrow> cli_args \<Rightarrow> 'w \<Rightarrow> (exn + runtime) \<times> 'w" where
  "build_runtime default_path a w =
    (case make_queue (arg_queue_size a) of
       Inl e \<Rightarrow> (Inl e, w)
     | Inr q \<Rightarrow>
        ebind (build_recorder default_path a w) (\<lambda>(rec, path) w'.
          (sbind (make_pipeline (arg_poll_interval a) (new_interpreter (arg_max_streams a)) new_module_state
               (new_router (arg_max_samples a) (arg_max_age_s a) DEFAULT_FLUSH_FIELDS (arg_max_streams a)))
            (\<lambda>p. Inr \<lparr>run_pipeline = p, run_queue = q,
               run_source = (if arg_live a then Live_Source (arg_host a) (arg_port a)
                             else Replay_Source (arg_replay a) (arg_pace a)),
               run_recorder = rec, record_path = path\<rparr>), w')))"

section \<open>The demo consumer\<close>

text \<open>What \<open>demo_emit\<close> prints of a unit: the fields of its line, in order. A context key that is missing
  prints as \<open>None\<close>. \<open>print\<close> is the standard output.\<close>

record demo_line =
  dl_stream_id :: "int option"
  dl_num_samples :: int
  dl_shape :: "int list"
  dl_dtype :: string
  dl_rf_hz :: pyval
  dl_sample_rate_hz :: pyval
  dl_bandwidth_hz :: pyval
  dl_start_timestamp :: "rat option"

definition array_dtype :: "'f samples \<Rightarrow> string" where
  "array_dtype arr = (if is_complex_array arr then ''complex64'' else ''float32'')"

definition demo_line_of :: "'f unit_rec \<Rightarrow> demo_line" where
  "demo_line_of u =
    (let context = (case u_context u of None \<Rightarrow> [] | Some c \<Rightarrow> c) in
     \<lparr>dl_stream_id = u_stream_id u, dl_num_samples = u_num_samples u,
      dl_shape = [int (samples_length (u_samples u))], dl_dtype = array_dtype (u_samples u),
      dl_rf_hz = py_get context ''rf_hz'', dl_sample_rate_hz = py_get context ''sample_rate_hz'',
      dl_bandwidth_hz = py_get context ''bandwidth_hz'', dl_start_timestamp = u_start_timestamp u\<rparr>)"

definition demo_emit :: "(demo_line \<Rightarrow> 'w \<Rightarrow> exn option \<times> 'w) \<Rightarrow> 'f unit_rec \<Rightarrow> 'w \<Rightarrow> exn option \<times> 'w" where
  "demo_emit print u w = print (demo_line_of u) w"

section \<open>Running\<close>

record outside =
  sock_opened :: "exn option"
  sock_configured :: "exn + (rcvbuf_status \<times> int option)"
  sock_bound :: "exn + address"
  sock_answers :: "recv list"
  capture_loaded :: "exn + replay_row list"
  stop_answers :: "nat \<Rightarrow> bool"
  wait_answers :: "nat \<Rightarrow> bool"
  started_ns :: int
  ended_ns :: int

text \<open>The source thread of a run, once it has ended: whether it failed, whether the bind watchdog saw a
  failed bind, and the recorder it leaves.\<close>

definition source_ended :: "cli_args \<Rightarrow> outside \<Rightarrow> recorder option \<Rightarrow> bool \<times> bool \<times> recorder option" where
  "source_ended a out rec =
    (if arg_live a
     then let s = live_run (sock_opened out) (sock_configured out) (sock_bound out) (stop_answers out) (sock_answers out) rec
          in (live_failed s, live_ready s \<and> bound_address s = None, live_recorder s)
     else (snd (replay_run (capture_loaded out) (arg_pace a) (stop_answers out) (wait_answers out)), False, rec))"

datatype cli_end = Exit int | Raises exn

text \<open>\<open>main\<close> after the wiring, given how \<open>pipeline.run\<close> ended: an interrupt is caught, any other exception
  propagates at once.\<close>

definition main_end ::
  "(string \<Rightarrow> capture \<Rightarrow> 'w \<Rightarrow> exn option \<times> 'w) \<Rightarrow> cli_args \<Rightarrow> runtime \<Rightarrow> outside \<Rightarrow> exn option \<Rightarrow> 'w \<Rightarrow>
     cli_end \<times> 'w" where
  "main_end dump a rt out raised w =
    (if raised \<notin> {None, Some KeyboardInterrupt} then (Raises (the raised), w)
     else case source_ended a out (run_recorder rt) of (failed, bind_failed, rec) \<Rightarrow>
       let exit_code = (if bind_failed then 1 else if failed then 1 else 0) in
       (case (rec, record_path rt) of
          (Some r, Some p) \<Rightarrow>
            (case save dump r p (started_ns out) (fdiv (of_pyint (ended_ns out - started_ns out)) (10 ^ 9)) w of
               (Inl e, w') \<Rightarrow> (Raises e, w')
             | (Inr _, w') \<Rightarrow> (Exit exit_code, w'))
        | _ \<Rightarrow> (Exit exit_code, w)))"

text \<open>The two reports logged once \<open>run\<close> is over: the throughput, and the capture report for a live run.\<close>

definition main_reports ::
  "('w \<Rightarrow> rat \<times> 'w) \<Rightarrow> cli_args \<Rightarrow> meter \<Rightarrow> 'w \<Rightarrow> (throughput \<times> capture_report option) \<times> (meter \<times> 'w)" where
  "main_reports clock a m w =
    (case summary clock m w of (t, w') \<Rightarrow>
       (case capture_summary m of (capture, m') \<Rightarrow>
          ((t, if capture \<noteq> None \<and> arg_live a then capture else None), (m', w'))))"

definition cli_main ::
  "(string \<Rightarrow> capture \<Rightarrow> 'w \<Rightarrow> exn option \<times> 'w) \<Rightarrow> ('w \<Rightarrow> (exn + string) \<times> 'w) \<Rightarrow> cli_option list \<Rightarrow> outside \<Rightarrow>
     (runtime \<Rightarrow> exn option) \<Rightarrow> 'w \<Rightarrow> cli_end \<times> 'w" where
  "cli_main dump default_path opts out run w =
    (case parse_args opts of
       None \<Rightarrow> (Exit 2, w)
     | Some a \<Rightarrow>
         if \<not> args_valid a then (Exit 2, w)
         else (case build_runtime default_path a w of
             (Inl e, w1) \<Rightarrow> (Raises e, w1)
           | (Inr rt, w1) \<Rightarrow> main_end dump a rt out (run rt) w1))"

end
