(* ===== verification/Cli_Laws.thy ===== *)
theory Cli_Laws
  imports Cli Metered
begin

text \<open>
  What a run of the command line promises: its exit code, the recording it saves, and that a run
  over the modelled pipeline never raises.
\<close>

section \<open>Exit codes\<close>

lemma replay_failed:
  "loaded = Inl e \<Longrightarrow> snd (replay_run loaded pace stops wakes)"
  "snd (replay_run loaded pace stops wakes) \<Longrightarrow> loaded = Inr rows \<Longrightarrow> \<exists>row \<in> set rows. \<not> row_ok row"
  "loaded = Inr rows \<Longrightarrow> \<forall>j. \<not> stops j \<and> \<not> wakes j \<Longrightarrow>
     snd (replay_run loaded pace stops wakes) \<longleftrightarrow> (\<exists>row \<in> set rows. \<not> row_ok row)"
proof -
  show "loaded = Inl e \<Longrightarrow> snd (replay_run loaded pace stops wakes)" by (simp add: replay_run_def)
next
  obtain acts f where r: "replay_rows pace stops wakes 0 None rows = (acts, f)" by force
  note props = replay_rows_props [OF r]
  show "snd (replay_run loaded pace stops wakes) \<Longrightarrow> loaded = Inr rows \<Longrightarrow> \<exists>row \<in> set rows. \<not> row_ok row"
    "loaded = Inr rows \<Longrightarrow> \<forall>j. \<not> stops j \<and> \<not> wakes j \<Longrightarrow>
      snd (replay_run loaded pace stops wakes) \<longleftrightarrow> (\<exists>row \<in> set rows. \<not> row_ok row)"
    using props(2,3) by (auto simp: replay_run_def r)
qed

lemma live_loop_ending: "snd (snd (live_loop stops i evs rec)) = snd (snd (live_loop stops i evs None))"
proof (induction evs arbitrary: i rec)
  case (Cons ev evs)
  show ?case
  proof (cases ev)
    case (Received data addr ts)
    have "snd (snd (live_loop stops (Suc i) evs r)) = snd (snd (live_loop stops (Suc i) evs None))" for r
      by (rule Cons)
    with Received show ?thesis by (simp add: split_beta)
  qed (simp_all add: Cons [of _ rec])
qed simp

definition exit_code :: "bool \<Rightarrow> bool \<Rightarrow> int" where
  "exit_code failed bind_failed = (if failed \<or> bind_failed then 1 else 0)"

lemma main_end_Exit:
  assumes "main_end dump a rt out raised w = (Exit c, w')"
  shows "raised \<in> {None, Some KeyboardInterrupt} \<and>
    c = exit_code (fst (source_ended a out (run_recorder rt))) (fst (snd (source_ended a out (run_recorder rt))))"
  using assms
  by (auto simp: main_end_def exit_code_def Let_def split: if_splits prod.splits option.splits sum.splits)

text \<open>C21: the exit code. 2 exactly for arguments that \<open>argparse\<close> or the cross-flag checks reject, and then
  nothing was built or written; otherwise 0 or 1. A replay exits 1 when the capture could not be read,
  only when it could not or has a corrupt row, and, left uninterrupted, exactly then; a live run exits
  1 when its socket could not be bound, and exits 0 only if it was bound and saw no socket error,
  unless the receive thread died before trying to bind.\<close>

theorem cli_exit_status:
  assumes "cli_main dump default_path opts out run w = (Exit c, w')"
  shows "c \<in> {0, 1, 2} \<and>
    (c = 2 \<longleftrightarrow> (\<forall>a. parse_args opts = Some a \<longrightarrow> \<not> args_valid a)) \<and> (c = 2 \<longrightarrow> w' = w) \<and>
    (\<forall>a. parse_args opts = Some a \<and> c \<noteq> 2 \<and> \<not> arg_live a \<longrightarrow>
       (\<forall>e. capture_loaded out = Inl e \<longrightarrow> c = 1) \<and>
       (\<forall>rows. capture_loaded out = Inr rows \<longrightarrow>
          (c = 1 \<longrightarrow> (\<exists>row \<in> set rows. \<not> row_ok row)) \<and>
          ((\<forall>j. \<not> stop_answers out j \<and> \<not> wait_answers out j) \<longrightarrow> (c = 1 \<longleftrightarrow> (\<exists>row \<in> set rows. \<not> row_ok row))))) \<and>
    (\<forall>a. parse_args opts = Some a \<and> c \<noteq> 2 \<and> arg_live a \<and> sock_opened out = None \<and> (\<exists>g. sock_configured out = Inr g) \<longrightarrow>
       (\<forall>e. sock_bound out = Inl e \<longrightarrow> c = 1) \<and>
       (\<forall>addr. sock_bound out = Inr addr \<longrightarrow>
          (c = 1 \<longleftrightarrow> snd (snd (live_loop (stop_answers out) 0 (sock_answers out) None)) = Some OSError)))"
proof (cases "\<exists>a. parse_args opts = Some a \<and> args_valid a")
  case False
  with assms have "c = 2 \<and> w' = w" by (auto simp: cli_main_def split: option.splits if_splits)
  with False show ?thesis by auto
next
  case True
  then obtain a where a: "parse_args opts = Some a" "args_valid a" by blast
  with assms obtain rt w1 where "main_end dump a rt out (run rt) w1 = (Exit c, w')"
    by (auto simp: cli_main_def split: prod.splits sum.splits)
  from main_end_Exit [OF this] have c: "c = exit_code (fst (source_ended a out (run_recorder rt)))
      (fst (snd (source_ended a out (run_recorder rt))))" by blast
  then have c01: "c \<in> {0, 1}" by (simp add: exit_code_def)
  have replay: "c = 1 \<longleftrightarrow> snd (replay_run (capture_loaded out) (arg_pace a) (stop_answers out) (wait_answers out))"
    if "\<not> arg_live a"
    using c that by (simp add: source_ended_def exit_code_def)
  have r1: "\<forall>e. capture_loaded out = Inl e \<longrightarrow> c = 1" if "\<not> arg_live a"
    using replay [OF that] replay_failed(1) by metis
  have r2: "c = 1 \<longrightarrow> (\<exists>row \<in> set rows. \<not> row_ok row)" if "\<not> arg_live a" "capture_loaded out = Inr rows" for rows
    using replay [OF that(1)] replay_failed(2) that(2) by metis
  have r3: "(\<forall>j. \<not> stop_answers out j \<and> \<not> wait_answers out j) \<longrightarrow> (c = 1 \<longleftrightarrow> (\<exists>row \<in> set rows. \<not> row_ok row))"
    if "\<not> arg_live a" "capture_loaded out = Inr rows" for rows
    using replay [OF that(1)] replay_failed(3) [OF that(2)] by blast
  have l1: "c = 1" if "arg_live a" "sock_opened out = None" "sock_configured out = Inr g" "sock_bound out = Inl e" for g e
    using c that by (cases g) (simp add: source_ended_def exit_code_def live_run_def live_end_def)
  have l2: "c = 1 \<longleftrightarrow> snd (snd (live_loop (stop_answers out) 0 (sock_answers out) None)) = Some OSError"
    if "arg_live a" "sock_opened out = None" "sock_configured out = Inr g" "sock_bound out = Inr addr" for g addr
  proof -
    from live_loop_ending [of _ _ _ "run_recorder rt"] c that show ?thesis
      by (cases g) (auto simp: source_ended_def exit_code_def live_run_def live_end_def split_beta)
  qed
  have one: "b = a" if "parse_args opts = Some b" for b using that a(1) by simp
  show ?thesis
  proof (intro conjI)
    show "c \<in> {0, 1, 2}" using c01 by blast
    show "c = 2 \<longleftrightarrow> (\<forall>a. parse_args opts = Some a \<longrightarrow> \<not> args_valid a)" "c = 2 \<longrightarrow> w' = w" using c01 a by auto
  qed (use one r1 r2 r3 l1 l2 in blast)+
qed

section \<open>The recording of a live run\<close>

lemma live_run_recorder:
  "\<exists>got. prefix got (received_of evs) \<and>
     live_recorder (live_run opened configured bound stops evs rec) = map_option (\<lambda>r. snd (append_all got r)) rec"
proof -
  obtain puts rec' e where l: "live_loop stops 0 evs rec = (puts, rec', e)" by (metis prod_cases3)
  have "live_recorder (live_run opened configured bound stops evs rec) \<in> {rec, rec'}"
    by (auto simp: live_run_def live_end_def l split: option.split sum.split)
  moreover have "rec = map_option (\<lambda>r. snd (append_all [] r)) rec" by (cases rec) simp_all
  ultimately show ?thesis using live_loop_fanout [OF l] by (metis Nil_prefix insert_iff singleton_iff)
qed

lemma recorded_packets:
  assumes "append_all got (new_recorder mp mb) = (as, r)"
  shows "packets r = accepted mp mb [] got"
  using append_all_open [OF _ _ assms] by (simp add: new_recorder_def)

text \<open>A live run with \<open>--record\<close> that ended by itself or by an interrupt saves exactly one recording,
  to the path fixed at the start: the datagrams received, complete from the first one up to the caps,
  in order and unchanged, with the start time of the run, and never more payload than
  \<open>--record-max-bytes\<close>. If writing it fails, that exception is the outcome. A run that ended by
  another exception saves nothing.\<close>

theorem cli_live_recording:
  assumes "parse_args opts = Some a" "args_valid a" "arg_live a" "arg_record a \<noteq> No_Record"
    and "build_runtime default_path a w = (Inr rt, w1)"
  shows "\<exists>got p. prefix got (received_of (sock_answers out)) \<and> record_path rt = Some p \<and>
    payload_bytes (accepted (arg_record_max_packets a) (Some (arg_record_max_bytes a)) [] got)
      \<le> max 0 (arg_record_max_bytes a) \<and>
    (let saved = \<lparr>start_time_ns = started_ns out, duration_seconds = fdiv (of_pyint (ended_ns out - started_ns out)) (10 ^ 9),
            cap_packets = accepted (arg_record_max_packets a) (Some (arg_record_max_bytes a)) [] got\<rparr> in
     (run rt \<in> {None, Some KeyboardInterrupt} \<longrightarrow>
       (\<exists>c. cli_main dump default_path opts out run w =
         (case dump p saved w1 of (None, w2) \<Rightarrow> (Exit c, w2) | (Some e, w2) \<Rightarrow> (Raises e, w2)))) \<and>
     (\<forall>e. run rt = Some e \<and> e \<noteq> KeyboardInterrupt \<longrightarrow> cli_main dump default_path opts out run w = (Raises e, w1)))"
proof -
  let ?mp = "arg_record_max_packets a" and ?mb = "Some (arg_record_max_bytes a)"
  obtain p where rt: "record_path rt = Some p" "run_recorder rt = Some (new_recorder ?mp ?mb)"
    using assms(3-5)
    by (auto simp: build_runtime_def build_recorder_def ebind_def sbind_def Let_def split: sum.splits record_opt.splits prod.splits)
  obtain got where got: "prefix got (received_of (sock_answers out))"
    "live_recorder (live_run (sock_opened out) (sock_configured out) (sock_bound out) (stop_answers out) (sock_answers out) (run_recorder rt))
       = Some (snd (append_all got (new_recorder ?mp ?mb)))"
    using live_run_recorder [of "sock_answers out" "sock_opened out" "sock_configured out" "sock_bound out" "stop_answers out" "run_recorder rt"]
    unfolding rt(2) by auto
  have packets: "packets (snd (append_all got (new_recorder ?mp ?mb))) = accepted ?mp ?mb [] got"
    by (rule recorded_packets) (rule prod.collapse [symmetric])
  have bound: "payload_bytes (accepted ?mp ?mb [] got) \<le> max 0 (arg_record_max_bytes a)"
    using accepted_caps [of ?mp "[]" ?mb got] by simp
  have main: "cli_main dump default_path opts out run w = main_end dump a rt out (run rt) w1"
    using assms by (simp add: cli_main_def)
  let ?dur = "fdiv (of_pyint (ended_ns out - started_ns out)) (10 ^ 9)"
  have "\<exists>c. main_end dump a rt out (run rt) w1 =
      (case dump p \<lparr>start_time_ns = started_ns out, duration_seconds = ?dur, cap_packets = accepted ?mp ?mb [] got\<rparr> w1 of
         (None, w2) \<Rightarrow> (Exit c, w2) | (Some e, w2) \<Rightarrow> (Raises e, w2))" if "run rt \<in> {None, Some KeyboardInterrupt}"
    using that assms(3) got(2) rt packets
    by (auto simp: main_end_def source_ended_def save_def Let_def split: prod.split option.split)
  moreover have "main_end dump a rt out (run rt) w1 = (Raises e, w1)" if "run rt = Some e" "e \<noteq> KeyboardInterrupt" for e
    using that by (simp add: main_end_def)
  ultimately show ?thesis unfolding Let_def main
    by (intro exI [of _ got] exI [of _ p] conjI) (use got(1) rt(1) bound in blast)+
qed

section \<open>Composition with the pipeline\<close>

lemma built_pipeline:
  assumes "build_runtime default_path a w = (Inr rt, w1)"
  shows "run_pipeline rt = fresh_pipeline (arg_max_samples a) (arg_max_age_s a) DEFAULT_FLUSH_FIELDS (arg_max_streams a)"
    "\<not> arg_live a \<Longrightarrow> w1 = w \<and> run_recorder rt = None \<and> record_path rt = None"
    "run_queue rt = \<lparr>maxsize = arg_queue_size a, queue_items = [], queue_dropped = 0\<rparr> \<and> 1 \<le> arg_queue_size a"
  using assms
  by (auto simp: build_runtime_def build_recorder_def make_queue_def make_pipeline_def fresh_pipeline_def ebind_def sbind_def
      Let_def split: if_splits sum.splits prod.splits)

text \<open>C11: the whole program on a replay, for every consumer, interleaving of the source and the loop, and
  capture. With valid arguments and a positive queue size: nothing that was received is refused by
  the router; if \<open>run\<close> raises, the consumer raised that very exception, and \<open>main\<close> lets it through
  (unless it is an interrupt); otherwise the meter has counted on each stream exactly the samples of
  the data records the interpreter delivered, and \<open>main\<close> returns 1 if the replay failed and 0 if
  not. It writes nothing.\<close>

theorem cli_replay_run:
  assumes "parse_args opts = Some a" "args_valid a" "\<not> arg_live a" "build_runtime default_path a w = (Inr rt, w1)"
    and "sys_run (metered env) (init_system (run_queue rt) (run_pipeline rt) (new_meter\<lparr>meter_start := t0\<rparr>, pw)) is s"
    and "phase s = Finished e" "numpy_ok env item" "numpy_formats env" "run rt = e"
  shows "rt_dropped (bufrouter (pipe s)) = 0 \<and>
    (\<forall>x. e = Some x \<longrightarrow> (\<exists>u v. fst (emit env u v) = Some x)) \<and>
    (e = None \<longrightarrow>
      (\<exists>rs. process_all is (new_interpreter (arg_max_streams a)) new_module_state = (rs, interp (pipe s), logging (pipe s)) \<and>
         (\<forall>k. st_total (stream_of k (fst (world s))) = delivered_samples k rs))) \<and>
    cli_main dump default_path opts out run w =
      (if e \<in> {None, Some KeyboardInterrupt}
       then Exit (if snd (replay_run (capture_loaded out) (arg_pace a) (stop_answers out) (wait_answers out)) then 1 else 0)
       else Raises (the e), w)"
proof -
  note built = built_pipeline [OF assms(4)]
  have fs: "''sample_rate_hz'' \<in> set DEFAULT_FLUSH_FIELDS" by (simp add: DEFAULT_FLUSH_FIELDS_def)
  from metered_figures [OF assms(5) [unfolded built(1)] assms(7,8) fs] assms(6) obtain rs us where i:
    "process_all is (new_interpreter (arg_max_streams a)) new_module_state = (rs, interp (pipe s), logging (pipe s))"
    "rt_dropped (bufrouter (pipe s)) = 0" "\<forall>x. e = Some x \<longrightarrow> (\<exists>u \<in> set us. \<exists>v. fst (emit env u v) = Some x)"
    "e = None \<longrightarrow> (\<forall>k. st_total (stream_of k (fst (world s))) = delivered_samples k rs)"
    by (auto simp: figures_def)
  have "cli_main dump default_path opts out run w = main_end dump a rt out e w1"
    using assms(1,2,4,9) by (simp add: cli_main_def)
  then have "cli_main dump default_path opts out run w =
      (if e \<in> {None, Some KeyboardInterrupt}
       then Exit (if snd (replay_run (capture_loaded out) (arg_pace a) (stop_answers out) (wait_answers out)) then 1 else 0)
       else Raises (the e), w)"
    using built(2) assms(3) by (auto simp: main_end_def source_ended_def Let_def)
  with i show ?thesis by blast
qed

section \<open>Concrete invocations\<close>

definition demo_outside :: "(exn + replay_row list) \<Rightarrow> outside" where
  "demo_outside loaded = \<lparr>sock_opened = None, sock_configured = Inr (Granted, Some 1000), sock_bound = Inr (''0.0.0.0'', 5000),
     sock_answers = [Received [1] (''h'', 1) 10, Received [2, 3] (''h'', 1) 11], capture_loaded = loaded,
     stop_answers = \<lambda>_. False, wait_answers = \<lambda>_. False, started_ns = 0, ended_ns = 0\<rparr>"

definition demo_dump :: "string \<Rightarrow> capture \<Rightarrow> capture list \<Rightarrow> exn option \<times> capture list" where
  "demo_dump p c w = (None, w @ [c])"

definition demo_path :: "capture list \<Rightarrow> (exn + string) \<times> capture list" where
  "demo_path w = (Inr ''auto'', w)"

abbreviation "replay_opts \<equiv> [Opt_Replay ''x.pkl'']"
abbreviation "record_opts \<equiv> [Opt_Live, Opt_Port 5000, Opt_Record (Some ''y.pkl''), Opt_Record_Max_Bytes 1]"

lemma poll_default: "0 < DEFAULT_POLL_INTERVAL_S"
  unfolding DEFAULT_POLL_INTERVAL_S_def by (rule fl_pos) simp

lemma replay_args: "parse_args replay_opts = Some (default_args\<lparr>arg_replay := Some ''x.pkl''\<rparr>)"
  by (simp add: parse_args_def default_args_def)

lemma record_args:
  "parse_args record_opts = Some (default_args\<lparr>arg_live := True, arg_port := Some 5000, arg_record := Record_To ''y.pkl'',
     arg_record_max_bytes := 1\<rparr>)"
  by (simp add: parse_args_def default_args_def)

lemma demo_valid:
  "args_valid (default_args\<lparr>arg_replay := r\<rparr>)"
  "args_valid (default_args\<lparr>arg_live := l, arg_port := Some p, arg_record := t, arg_record_max_bytes := n\<rparr>)"
  using poll_default by (simp_all add: args_valid_def default_args_def not_le)

lemma demo_built:
  "\<exists>rt. build_runtime demo_path (default_args\<lparr>arg_replay := r\<rparr>) w = (Inr rt, w)"
  "\<exists>rt. build_runtime demo_path (default_args\<lparr>arg_live := l, arg_port := Some p, arg_record := Record_To t,
     arg_record_max_bytes := n\<rparr>) w = (Inr rt, w)"
  using poll_default
  by (simp_all add: build_runtime_def build_recorder_def make_queue_def make_pipeline_def default_args_def
      DEFAULT_QUEUE_SIZE_def not_le not_less)

lemma bad_capture_exits:
  "cli_main demo_dump demo_path replay_opts (demo_outside (Inl OSError)) (\<lambda>_. None) [] = (Exit 1, [])"
proof -
  obtain rt where rt: "build_runtime demo_path (default_args\<lparr>arg_replay := Some ''x.pkl''\<rparr>) [] = (Inr rt, [])"
    using demo_built(1) by blast
  have "\<not> arg_live (default_args\<lparr>arg_replay := Some ''x.pkl''\<rparr>)" by (simp add: default_args_def)
  with built_pipeline(2) [OF rt] show ?thesis
    unfolding cli_main_def replay_args option.case rt prod.case sum.case
    by (simp add: demo_valid main_end_def source_ended_def replay_run_def demo_outside_def)
qed

theorem cli_exit_status_witness:
  "\<exists>c w'. cli_main demo_dump demo_path replay_opts (demo_outside (Inl OSError)) (\<lambda>_. None) [] = (Exit c, w') \<and> c = 1"
proof -
  have "\<not> arg_live (default_args\<lparr>arg_replay := Some ''x.pkl''\<rparr>)" "capture_loaded (demo_outside (Inl OSError)) = Inl OSError"
    by (simp_all add: default_args_def demo_outside_def)
  with cli_exit_status [OF bad_capture_exits] bad_capture_exits replay_args show ?thesis by blast
qed

theorem cli_live_recording_witness:
  "\<exists>c p saved w2. cli_main demo_dump demo_path record_opts (demo_outside (Inr [])) (\<lambda>_. Some KeyboardInterrupt) []
      = (Exit c, [saved]) \<and> start_time_ns saved = 0 \<and> payload_bytes (cap_packets saved) \<le> 1"
proof -
  let ?a = "default_args\<lparr>arg_live := True, arg_port := Some 5000, arg_record := Record_To ''y.pkl'', arg_record_max_bytes := 1\<rparr>"
  obtain rt where rt: "build_runtime demo_path ?a [] = (Inr rt, [])" using demo_built(2) by blast
  have a: "arg_live ?a" "arg_record ?a \<noteq> No_Record" "arg_record_max_bytes ?a = 1" by simp_all
  from cli_live_recording [OF record_args demo_valid(2) a(1,2) rt, of "demo_outside (Inr [])" "\<lambda>_. Some KeyboardInterrupt" demo_dump]
  show ?thesis unfolding Let_def demo_dump_def a(3) by (auto simp: demo_outside_def)
qed

theorem cli_replay_run_witness:
  "\<exists>rt s. build_runtime demo_path (default_args\<lparr>arg_replay := Some ''x.pkl''\<rparr>) [] = (Inr rt, []) \<and>
     sys_run (metered demo_env) (init_system (run_queue rt) (run_pipeline rt) (new_meter\<lparr>meter_start := None\<rparr>, (0, []))) [] s \<and>
     phase s = Finished None \<and>
     cli_main demo_dump demo_path replay_opts (demo_outside (Inr [Row 0 Stray])) (\<lambda>_. None) [] = (Exit 0, [])"
proof -
  let ?a = "default_args\<lparr>arg_replay := Some ''x.pkl''\<rparr>"
  obtain rt where rt: "build_runtime demo_path ?a [] = (Inr rt, [])" using demo_built(1) by blast
  let ?s0 = "init_system (run_queue rt) (run_pipeline rt) (new_meter\<lparr>meter_start := None\<rparr>, (0, [])) :: (meter \<times> demo_world) system"
  let ?s1 = "?s0\<lparr>raw := queue_put SHUTDOWN (raw ?s0)\<rparr>"
  have "sys_run (metered demo_env) ?s0 [] ?s1" by (rule sys_run.put) (rule sys_run.start)
  moreover have "phase ?s1 = Looping" by (simp add: init_system_def)
  moreover obtain s where s: "loop_step (metered demo_env) ?s1 = ([], s)" "\<exists>e. phase s = Finished e"
  proof -
    have "queue_get (raw ?s1) = (Some SHUTDOWN, raw ?s0)"
      using built_pipeline(3) [OF rt] by (simp add: init_system_def queue_put_def queue_get_def)
    with that finish_phase(1) show thesis by (auto simp: loop_step_def init_system_def)
  qed
  ultimately have run: "sys_run (metered demo_env) ?s0 [] s" by (metis append_Nil sys_run.loop)
  from s(2) obtain e where e: "phase s = Finished e" by blast
  have live: "\<not> arg_live ?a" by (simp add: default_args_def)
  have "fst (emit demo_env u v) = None" for u v by (simp add: demo_env_def split: prod.split)
  with cli_replay_run [OF replay_args demo_valid(1) live rt run e demo_numpy_ok demo_numpy_formats,
      where run = "\<lambda>_. e" and dump = demo_dump and out = "demo_outside (Inr [Row 0 Stray])"]
  have none: "e = None" by (cases e) auto
  have "\<not> snd (replay_run (Inr [Row 0 Stray]) pace (\<lambda>_. False) (\<lambda>_. False))" for pace
    by (simp add: replay_run_def pace_delay_def)
  with cli_replay_run [OF replay_args demo_valid(1) live rt run e demo_numpy_ok demo_numpy_formats,
      where run = "\<lambda>_. None" and dump = demo_dump and out = "demo_outside (Inr [Row 0 Stray])"] none rt run e
  show ?thesis by (intro exI [of _ rt] exI [of _ s]) (simp add: demo_outside_def)
qed

end
