(* ===== verification/Sessions.thy ===== *)
theory Sessions
  imports Session_Ends Cli_Laws
begin

text \<open>
  Whole sessions of the program: a live run from the socket to the exit code and the saved recording,
  and a recorded live run compared with the replay of its recording.
\<close>

section \<open>What a live source leaves\<close>

text \<open>Both sinks of a live source get the datagrams received up to its end.\<close>

lemma live_run_sinks:
  obtains got where "prefix got (received_of answers)"
    "live_puts (live_run opened configured bound stops answers rec) = map (\<lambda>(ts, addr, d). Item (Datagram d)) got"
    "live_recorder (live_run opened configured bound stops answers rec) = map_option (\<lambda>r. snd (append_all got r)) rec"
proof -
  obtain puts rec' e where l: "live_loop stops 0 answers rec = (puts, rec', e)" by (metis prod_cases3)
  let ?l = "live_run opened configured bound stops answers rec"
  have "live_puts ?l = puts \<and> live_recorder ?l = rec' \<or> live_puts ?l = [] \<and> live_recorder ?l = rec"
    by (auto simp: live_run_def live_end_def l split: option.split sum.split)
  then show thesis
  proof
    assume "live_puts ?l = puts \<and> live_recorder ?l = rec'"
    with live_loop_fanout [OF l] that show thesis by auto
  next
    assume "live_puts ?l = [] \<and> live_recorder ?l = rec"
    moreover have "map_option (\<lambda>r. snd (append_all [] r)) rec = rec" by (cases rec) simp_all
    ultimately show thesis by (intro that [of "[]"]) simp_all
  qed
qed

text \<open>The figures a live source logs when its thread ends, also by an exception: the drops of the queue
  and, if it records, the packets and bytes recorded and whether a cap was hit.\<close>

definition live_log :: "queue_item raw_queue \<Rightarrow> live_state \<Rightarrow> int \<times> (int \<times> int \<times> bool) option" where
  "live_log q l = (queue_dropped q, map_option (\<lambda>r. (recorder_len r, total_bytes r, capped r)) (live_recorder l))"

lemma live_log_truthful:
  assumes "live_log q (live_run opened configured bound stops answers (Some (new_recorder mp mb))) = (d, Some (n, bs, cap))"
  obtains got where "prefix got (received_of answers)"
    "live_puts (live_run opened configured bound stops answers (Some (new_recorder mp mb)))
       = map (\<lambda>(ts, addr, d). Item (Datagram d)) got"
    "n = int (length (accepted mp mb [] got))" "bs = payload_bytes (accepted mp mb [] got)" "cap \<longleftrightarrow> n < int (length got)"
proof -
  obtain got where got: "prefix got (received_of answers)"
    "live_puts (live_run opened configured bound stops answers (Some (new_recorder mp mb)))
       = map (\<lambda>(ts, addr, d). Item (Datagram d)) got"
    "live_recorder (live_run opened configured bound stops answers (Some (new_recorder mp mb)))
       = map_option (\<lambda>r. snd (append_all got r)) (Some (new_recorder mp mb))"
    using live_run_sinks .
  obtain as r where r: "append_all got (new_recorder mp mb) = (as, r)" by force
  have "\<not> capped (new_recorder mp mb)" "total_bytes (new_recorder mp mb) = payload_bytes (packets (new_recorder mp mb))"
    by (simp_all add: new_recorder_def)
  note a = append_all_open [OF this r]
  show thesis
    by (rule that [OF got(1,2)]) (use assms a r got(3) in \<open>auto simp: live_log_def recorder_len_def new_recorder_def\<close>)
qed

section \<open>A live session, from the socket to the exit code\<close>

text \<open>What \<open>main\<close> does once a recorded live run has ended.\<close>

lemma recorded_main:
  assumes args: "parse_args opts = Some a" "args_valid a" "arg_live a" "arg_record a \<noteq> No_Record"
      "build_runtime default_path a w = (Inr rt, w1)"
    and live: "l = live_run (sock_opened out) (sock_configured out) (sock_bound out) (stop_answers out) (sock_answers out)
      (run_recorder rt)"
  shows "\<exists>got p. prefix got (received_of (sock_answers out)) \<and>
    live_puts l = map (\<lambda>(ts, addr, d). Item (Datagram d)) got \<and> record_path rt = Some p \<and>
    (run rt \<in> {None, Some KeyboardInterrupt} \<longrightarrow>
       cli_main dump default_path opts out run w =
         (case dump p \<lparr>start_time_ns = started_ns out,
              duration_seconds = fdiv (of_pyint (ended_ns out - started_ns out)) (10 ^ 9),
              cap_packets = accepted (arg_record_max_packets a) (Some (arg_record_max_bytes a)) [] got\<rparr> w1 of
            (None, w2) \<Rightarrow> (Exit (if live_ready l \<and> bound_address l = None \<or> live_failed l then 1 else 0), w2)
          | (Some e, w2) \<Rightarrow> (Raises e, w2))) \<and>
    (\<forall>e. run rt = Some e \<and> e \<noteq> KeyboardInterrupt \<longrightarrow> cli_main dump default_path opts out run w = (Raises e, w1))"
proof -
  let ?mp = "arg_record_max_packets a" and ?mb = "Some (arg_record_max_bytes a)"
  obtain p where rt: "record_path rt = Some p" "run_recorder rt = Some (new_recorder ?mp ?mb)"
    using args(3-5)
    by (auto simp: build_runtime_def build_recorder_def ebind_def sbind_def Let_def split: sum.splits record_opt.splits prod.splits)
  obtain got where got: "prefix got (received_of (sock_answers out))"
    "live_puts l = map (\<lambda>(ts, addr, d). Item (Datagram d)) got"
    "live_recorder l = Some (snd (append_all got (new_recorder ?mp ?mb)))"
    using live_run_sinks [of "sock_answers out" "sock_opened out" "sock_configured out" "sock_bound out" "stop_answers out" "run_recorder rt"]
    unfolding live rt(2) by auto
  have packets: "packets (snd (append_all got (new_recorder ?mp ?mb))) = accepted ?mp ?mb [] got"
    by (rule recorded_packets) (rule prod.collapse [symmetric])
  have main: "cli_main dump default_path opts out run w = main_end dump a rt out (run rt) w1"
    using args by (simp add: cli_main_def)
  have "main_end dump a rt out (run rt) w1 = (case dump p \<lparr>start_time_ns = started_ns out,
      duration_seconds = fdiv (of_pyint (ended_ns out - started_ns out)) (10 ^ 9), cap_packets = accepted ?mp ?mb [] got\<rparr> w1 of
      (None, w2) \<Rightarrow> (Exit (if live_ready l \<and> bound_address l = None \<or> live_failed l then 1 else 0), w2)
    | (Some e, w2) \<Rightarrow> (Raises e, w2))" if "run rt \<in> {None, Some KeyboardInterrupt}"
    using that args(3) got(3) rt packets live
    by (auto simp: main_end_def source_ended_def save_def Let_def split: prod.split option.split)
  moreover have "main_end dump a rt out (run rt) w1 = (Raises e, w1)" if "run rt = Some e" "e \<noteq> KeyboardInterrupt" for e
    using that by (simp add: main_end_def)
  ultimately show ?thesis unfolding main
    by (intro exI [of _ got] exI [of _ p] conjI impI allI got(1,2) rt(1)) simp_all
qed

text \<open>C10: a whole live session with \<open>--record\<close>, for every interleaving of the receive thread and the loop
  and any consumer, however the session ends: stopped, interrupted while it waits for a datagram, or
  by an exception of the consumer in a turn of the loop or in the final flush. The logged counters
  account for every datagram that reached the queue. No stream's total exceeds what was delivered
  on it, and unless the consumer raised each is exactly that. If \<open>run\<close> ended without an exception or
  with an interrupt, \<open>main\<close> writes one recording, of the datagrams received, complete from the first
  up to the caps, to the path fixed at the start, and exits 1 exactly if the bind or the socket
  failed. Any other exception was raised by the consumer; it leaves \<open>main\<close> and nothing is written:
  the recording is lost.\<close>

theorem cli_live_session:
  assumes args: "parse_args opts = Some a" "args_valid a" "arg_live a" "arg_record a \<noteq> No_Record"
      "build_runtime default_path a w = (Inr rt, w1)"
    and live: "l = live_run (sock_opened out) (sock_configured out) (sock_bound out) (stop_answers out) (sock_answers out)
      (run_recorder rt)" "prefix (arrived evs @ late) (live_puts l)"
    and run: "sys_session (metered env) evs interrupted late
      (init_system (run_queue rt) (run_pipeline rt) (new_meter\<lparr>meter_start := t0\<rparr>, pw)) = (is, t)"
      "phase t = Finished (run rt)" "stop_counters t = (queue_lost, errs, refused, router_lost)"
    and env: "numpy_ok env item" "numpy_formats env"
  shows "\<exists>got rs p. prefix got (received_of (sock_answers out)) \<and>
    live_puts l = map (\<lambda>(ts, addr, d). Item (Datagram d)) got \<and> record_path rt = Some p \<and>
    process_all is (new_interpreter (arg_max_streams a)) new_module_state = (rs, interp (pipe t), logging (pipe t)) \<and>
    int (length (arrived evs @ late)) = delivered_count rs + errs + refused + queue_lost + queue_len (raw t) \<and> router_lost = 0 \<and>
    (\<forall>k. st_total (stream_of k (fst (world t))) \<le> delivered_samples k rs) \<and>
    (unraised env (run rt) \<longrightarrow> (\<forall>k. st_total (stream_of k (fst (world t))) = delivered_samples k rs)) \<and>
    (run rt \<in> {None, Some KeyboardInterrupt} \<longrightarrow>
       cli_main dump default_path opts out run w =
         (case dump p \<lparr>start_time_ns = started_ns out,
              duration_seconds = fdiv (of_pyint (ended_ns out - started_ns out)) (10 ^ 9),
              cap_packets = accepted (arg_record_max_packets a) (Some (arg_record_max_bytes a)) [] got\<rparr> w1 of
            (None, w2) \<Rightarrow> (Exit (if live_ready l \<and> bound_address l = None \<or> live_failed l then 1 else 0), w2)
          | (Some e, w2) \<Rightarrow> (Raises e, w2))) \<and>
    (run rt \<notin> {None, Some KeyboardInterrupt} \<longrightarrow>
       (\<exists>e u v. run rt = Some e \<and> fst (emit env u v) = Some e \<and> cli_main dump default_path opts out run w = (Raises e, w1)))"
proof -
  note built = built_pipeline [OF args(5)]
  have fs: "''sample_rate_hz'' \<in> set DEFAULT_FLUSH_FIELDS" by (simp add: DEFAULT_FLUSH_FIELDS_def)
  from recorded_main [OF args live(1), where run = run and dump = dump] obtain got p where
    got: "prefix got (received_of (sock_answers out))" "live_puts l = map (\<lambda>(ts, addr, d). Item (Datagram d)) got"
      "record_path rt = Some p"
    and ok: "run rt \<in> {None, Some KeyboardInterrupt} \<longrightarrow> cli_main dump default_path opts out run w =
       (case dump p \<lparr>start_time_ns = started_ns out,
            duration_seconds = fdiv (of_pyint (ended_ns out - started_ns out)) (10 ^ 9),
            cap_packets = accepted (arg_record_max_packets a) (Some (arg_record_max_bytes a)) [] got\<rparr> w1 of
          (None, w2) \<Rightarrow> (Exit (if live_ready l \<and> bound_address l = None \<or> live_failed l then 1 else 0), w2)
        | (Some e, w2) \<Rightarrow> (Raises e, w2))"
    and bad: "\<forall>e. run rt = Some e \<and> e \<noteq> KeyboardInterrupt \<longrightarrow> cli_main dump default_path opts out run w = (Raises e, w1)"
    by (elim exE conjE)
  have q: "make_queue (arg_queue_size a) = Inr (run_queue rt)" using built(3) by (simp add: make_queue_def)
  note ses = run(1) [unfolded built(1)]
  from session_figures [OF ses run(2) env fs] obtain s2 rs us where
    f: "figures env item DEFAULT_FLUSH_FIELDS (arg_max_streams a) (new_meter\<lparr>meter_start := t0\<rparr>) is s2 rs us"
      "t = s2\<lparr>phase := Finished (run rt)\<rparr>"
      "\<forall>x. run rt = Some x \<longrightarrow> interrupted \<and> x = KeyboardInterrupt \<or> (\<exists>u v. fst (emit env u v) = Some x)"
    and exact: "unraised env (run rt) \<longrightarrow> (\<forall>k. emitted_items k us = delivered_items item k rs \<and>
        st_total (stream_of k (fst (world t))) = delivered_samples k rs)" by blast
  have same: "pipe t = pipe s2" "world t = world s2" by (simp_all add: f(2))
  have pr: "process_all is (new_interpreter (arg_max_streams a)) new_module_state = (rs, interp (pipe t), logging (pipe t))"
    and le: "\<forall>k. st_total (stream_of k (fst (world t))) \<le> delivered_samples k rs"
    and lost: "rt_dropped (bufrouter (pipe t)) = 0"
    using f(1) unfolding figures_def same by blast+
  have "SHUTDOWN \<notin> set (arrived evs @ late)"
    using set_mono_prefix [OF live(2)] unfolding got(2) by auto
  from session_account(1) [OF q ses this pr] run(3) lost
  have account: "int (length (arrived evs @ late)) = delivered_count rs + errs + refused + queue_lost + queue_len (raw t)"
    "router_lost = 0" by (simp_all add: stop_counters_def)
  have raised: "\<exists>e u v. run rt = Some e \<and> fst (emit env u v) = Some e \<and> cli_main dump default_path opts out run w = (Raises e, w1)"
    if "run rt \<notin> {None, Some KeyboardInterrupt}"
    using that f(3) bad by (cases "run rt") auto
  have totals: "\<forall>k. st_total (stream_of k (fst (world t))) = delivered_samples k rs" if "unraised env (run rt)"
    using exact that by blast
  show ?thesis
    by (intro exI [of _ got] exI [of _ rs] exI [of _ p] conjI)
      (fact got pr account le ok | intro impI, erule totals | intro impI, erule raised)+
qed

section \<open>Replaying a recording\<close>













section \<open>Concrete sessions\<close>

definition live_answers :: "recv list" where
  "live_answers = [Received mini_context (''h'', 1) 0, Recv_Timeout,
     Received (mini_data 1 [0, 0, 0, 1, 0, 0, 0, 2]) (''h'', 1) 1000,
     Received (mini_data 3 [0, 0, 0, 3, 0, 0, 0, 4]) (''h'', 1) 2000]"

definition live_events :: "sys_event list" where
  "live_events = [Arrive (Item (Datagram mini_context)), Turn, Arrive (Item (Datagram (mini_data 1 [0, 0, 0, 1, 0, 0, 0, 2]))),
     Arrive (Item (Datagram (mini_data 3 [0, 0, 0, 3, 0, 0, 0, 4]))), Turn, Turn, Turn]"

definition live_begin :: "int \<Rightarrow> (meter \<times> demo_world) system" where
  "live_begin n = init_system (empty_queue n) (fresh_pipeline 625000 1 DEFAULT_FLUSH_FIELDS 64)
     (new_meter\<lparr>meter_start := Some 0\<rparr>, (0, []))"

text \<open>The session is interrupted after these events.\<close>

definition live_left :: "int \<Rightarrow> (meter \<times> demo_world) system" where
  "live_left n = snd (sys_session (metered demo_env) live_events True [] (live_begin n))"

lemma live_left_facts:
  "phase (live_left 8) = Finished (Some KeyboardInterrupt)" "queue_dropped (raw (live_left 8)) = 0"
  "queue_items (raw (live_left 8)) = []" "phase (live_left 32768) = Finished (Some KeyboardInterrupt)"
  by code_simp+

lemma live_left_session:
  "sys_session (metered demo_env) live_events True [] (live_begin n)
     = (fst (sys_session (metered demo_env) live_events True [] (live_begin n)), live_left n)"
  by (simp add: live_left_def)

abbreviation "session_opts \<equiv> [Opt_Live, Opt_Port 5000, Opt_Record (Some ''y.pkl''), Opt_Record_Max_Bytes 4096]"
abbreviation "session_args \<equiv> default_args\<lparr>arg_live := True, arg_port := Some 5000, arg_record := Record_To ''y.pkl'',
     arg_record_max_bytes := 4096\<rparr>"
abbreviation "session_outside \<equiv> demo_outside (Inr [])\<lparr>sock_answers := live_answers\<rparr>"
abbreviation "live_socket \<equiv> live_run None (Inr (Granted, Some 1000)) (Inr (''0.0.0.0'', 5000)) (\<lambda>_. False) live_answers"

lemma session_parsed: "parse_args session_opts = Some session_args"
  by (simp add: parse_args_def default_args_def)

lemma live_socket_facts:
  "live_puts (live_socket rec) = arrived live_events" "live_ready (live_socket rec)"
  "bound_address (live_socket rec) \<noteq> None" "\<not> live_failed (live_socket rec)"
  by (simp_all add: live_run_def live_end_def live_answers_def live_events_def split_beta)

lemma live_recorded:
  "accepted None (Some 4096) [] (received_of live_answers) = map as_packet (received_of live_answers)"
proof -
  have "length mini_context = 20" "length (mini_data c d) = 8 + length d" for c d by (simp_all add: mini_context_def mini_data_def)
  then show ?thesis by (simp add: live_answers_def fits_caps_def payload_bytes_def as_packet_def)
qed

theorem cli_live_session_witness:
  "\<exists>saved. cli_main demo_dump demo_path session_opts session_outside (\<lambda>_. Some KeyboardInterrupt) [] = (Exit 0, [saved]) \<and>
     cap_packets saved = map as_packet (received_of live_answers)"
proof -
  obtain rt where rt: "build_runtime demo_path session_args [] = (Inr rt, [])" using demo_built(2) by blast
  have a: "arg_live session_args" "arg_record session_args \<noteq> No_Record" "arg_record_max_packets session_args = None"
    "arg_record_max_bytes session_args = 4096" by (simp_all add: default_args_def)
  have start: "init_system (run_queue rt) (run_pipeline rt) (new_meter\<lparr>meter_start := Some 0\<rparr>, (0, [])) = live_begin 32768"
    using built_pipeline(1,3) [OF rt]
    by (simp add: live_begin_def default_args_def DEFAULT_QUEUE_SIZE_def DEFAULT_MAX_SAMPLES_def DEFAULT_MAX_AGE_S_def
        DEFAULT_MAX_STREAMS_def)
  have out: "sock_opened session_outside = None" "sock_configured session_outside = Inr (Granted, Some 1000)"
    "sock_bound session_outside = Inr (''0.0.0.0'', 5000)" "stop_answers session_outside = (\<lambda>_. False)"
    "sock_answers session_outside = live_answers" by (simp_all add: demo_outside_def)
  let ?l = "live_socket (run_recorder rt)"
  have l: "?l = live_run (sock_opened session_outside) (sock_configured session_outside) (sock_bound session_outside)
      (stop_answers session_outside) (sock_answers session_outside) (run_recorder rt)" unfolding out ..
  note facts = live_socket_facts [of "run_recorder rt"]
  have pre: "prefix (arrived live_events @ []) (live_puts ?l)" unfolding facts(1) by simp
  note run = live_left_session [of 32768, folded start]
  obtain x1 x2 x3 x4 where c: "stop_counters (live_left 32768) = (x1, x2, x3, x4)"
    by (metis prod_cases4)
  have ki: "(Some KeyboardInterrupt \<in> {None, Some KeyboardInterrupt}) = True" by simp
  from cli_live_session [OF session_parsed demo_valid(2) a(1,2) rt l pre run live_left_facts(4) c
      demo_numpy_ok demo_numpy_formats, where dump = demo_dump]
  obtain got p where got: "live_puts ?l = map (\<lambda>(ts, addr, d). Item (Datagram d)) got"
      "prefix got (received_of live_answers)"
      "cli_main demo_dump demo_path session_opts session_outside (\<lambda>_. Some KeyboardInterrupt) [] =
         (Exit (if live_ready ?l \<and> bound_address ?l = None \<or> live_failed ?l then 1 else 0),
          [\<lparr>start_time_ns = started_ns session_outside,
            duration_seconds = fdiv (of_pyint (ended_ns session_outside - started_ns session_outside)) (10 ^ 9),
            cap_packets = accepted None (Some 4096) [] got\<rparr>])"
    unfolding a(3,4) out(5) ki by (simp only: demo_dump_def prod.case option.case append_Nil simp_thms) (elim exE conjE, rule that)
  have "length got = length (live_puts ?l)" unfolding got(1) by simp
  also have "\<dots> = length (received_of live_answers)"
    unfolding facts(1) by (simp add: live_events_def live_answers_def)
  finally have "got = received_of live_answers" using got(2) by (auto simp: prefix_def)
  with got(3) facts(3,4) show ?thesis by (simp add: live_recorded)
qed






end
