(* ===== verification/Buffer_Triggers.thy ===== *)
theory Buffer_Triggers
  imports Buffer_Laws Demo_Env
begin

text \<open>
  The triggers one by one: the polled age trigger in double arithmetic, the heartbeat that must not
  flush, and a flush whose callback raises.
\<close>

section \<open>Age\<close>

text \<open>C30: the age trigger, with the clock difference rounded as a double: when the window is at least
  \<open>max_age_s\<close> old (a double) the poll flushes it, when it is younger by more than the rounding error
  it does not, and with no window open the clock is not even read.\<close>

theorem age_trigger:
  assumes "is_float (max_age_s b)" "0 < max_age_s b"
  shows "(chunks b = [] \<longrightarrow> maybe_flush_on_age env b w = (None, b, w)) \<and>
    (\<forall>t now w1. chunks b \<noteq> [] \<and> first_arrival b = Some t \<and> monotonic env w = (now, w1) \<longrightarrow>
       (max_age_s b \<le> now - t \<longrightarrow> maybe_flush_on_age env b w = flush env b w1) \<and>
       (now - t < max_age_s b * (1 - 1 / 2 ^ 52) \<longrightarrow> maybe_flush_on_age env b w = (None, b, w1)))"
proof -
  have young: "fl x < max_age_s b" if x: "x < max_age_s b * (1 - 1 / 2 ^ 52)" for x
  proof (cases "x \<le> 0")
    case True
    then have "fl x \<le> 0" using dbl.rnd_le [OF is_float_0, of x] by simp
    with assms(2) show ?thesis by linarith
  next
    case False
    have "fl x \<le> x + \<bar>x\<bar> / 2 ^ 53" using fl_relative_error [of x] by linarith
    moreover have "x < max_age_s b" using x assms(2) by (simp add: algebra_simps)
    ultimately show ?thesis using False x assms(2) by (simp add: algebra_simps)
  qed
  have old: "max_age_s b \<le> fl x" if "max_age_s b \<le> x" for x
    using assms(1) that by (rule dbl.rnd_ge)
  show ?thesis
    using old young by (auto simp: maybe_flush_on_age_def fsub_def not_le [symmetric])
qed

theorem age_trigger_witness:
  "maybe_flush_on_age demo_env
     ((new_buffer 625000 1 (Some 7) DEFAULT_FLUSH_FIELDS)\<lparr>chunks := [[0, 1]], first_arrival := Some 0\<rparr>) (1 / 2, [])
   = (None, (new_buffer 625000 1 (Some 7) DEFAULT_FLUSH_FIELDS)\<lparr>chunks := [[0, 1]], first_arrival := Some 0\<rparr>, (3 / 4, []))"
  (is "maybe_flush_on_age demo_env ?b _ = _")
proof -
  have "is_float (max_age_s ?b)" "0 < max_age_s ?b"
    using is_float_of_int [of 1] by (simp_all add: new_buffer_def)
  note trigger = age_trigger [OF this, of demo_env "(1 / 2, [])"]
  have "monotonic demo_env (1 / 2, []) = (1 / 2, (3 / 4, []))" by (simp add: demo_env_def)
  moreover have "(1 / 2 :: rat) - 0 < max_age_s ?b * (1 - 1 / 2 ^ 52)" by (simp add: new_buffer_def)
  moreover have "chunks ?b \<noteq> []" "first_arrival ?b = Some 0" by simp_all
  ultimately show ?thesis using trigger by blast
qed

section \<open>Heartbeats\<close>

text \<open>A context record whose flush fields all have the values of the adopted context (a periodic
  heartbeat, whatever else changed in it) never flushes: the window stays as it is, nothing is
  emitted, and the new context is adopted.\<close>

theorem heartbeat_keeps_window:
  assumes "current_context b = Some old" "rec_type r = ''context''" "rec_context r = Some ctx"
    and "\<forall>f \<in> set (flush_fields b). py_eq (py_get old f) (py_get ctx f)"
  shows "push env (Some r) b w = (None, adopt_context ctx b, w) \<and> chunks (adopt_context ctx b) = chunks b \<and>
    current_context (adopt_context ctx b) = Some ctx"
proof -
  have "\<not> differs b ctx" using assms(1,4) by (simp add: differs_def list_ex_iff)
  with assms(2,3) show ?thesis by (simp add: push_def push_context_def adopt_context_frame)
qed

theorem heartbeat_keeps_window_witness:
  "push demo_env (Some (demo_context_record 100))
     ((new_buffer 625000 1 (Some 7) DEFAULT_FLUSH_FIELDS)\<lparr>chunks := [[0, 1]], current_context := Some (demo_ctx 100)\<rparr>) (0, [])
   = (None, adopt_context (demo_ctx 100)
     ((new_buffer 625000 1 (Some 7) DEFAULT_FLUSH_FIELDS)\<lparr>chunks := [[0, 1]], current_context := Some (demo_ctx 100)\<rparr>), (0, []))"
  using heartbeat_keeps_window [of
      "(new_buffer 625000 1 (Some 7) DEFAULT_FLUSH_FIELDS)\<lparr>chunks := [[0, 1]], current_context := Some (demo_ctx 100)\<rparr>"
      "demo_ctx 100" "demo_context_record 100" "demo_ctx 100" demo_env "(0, [])"]
  by (simp add: demo_context_record_def)

section \<open>A callback that raises\<close>

text \<open>A window is offered to the callback at most once: if the callback raises, the exception
  leaves the flush with the window already reset (the context kept), so that flushing again emits
  nothing; only a failing conversion leaves the window in place.\<close>

theorem failed_emit_not_repeated:
  assumes "flush env b w = (Some e, b', w')"
  shows "(convert_window env b = Inl e \<and> b' = b \<and> w' = w) \<or>
    (\<exists>arr. convert_window env b = Inr arr \<and> emit env (window_unit arr b) w = (Some e, w') \<and>
       chunks b' = [] \<and> num_samples b' = 0 \<and> current_context b' = current_context b \<and>
       (\<forall>w2. flush env b' w2 = (None, b', w2)))"
proof -
  have "chunks b \<noteq> []" using assms by (auto simp: flush_def)
  show ?thesis
  proof (cases "convert_window env b")
    case (Inl e0)
    with assms \<open>chunks b \<noteq> []\<close> show ?thesis by (simp add: flush_def)
  next
    case (Inr arr)
    with assms \<open>chunks b \<noteq> []\<close> have "emit env (window_unit arr b) w = (Some e, w')" "b' = reset_window b"
      by (auto simp: flush_def split: prod.splits)
    with Inr show ?thesis by (simp add: reset_window_def flush_empty)
  qed
qed

theorem failed_emit_not_repeated_witness:
  "\<exists>b'. flush (demo_env\<lparr>emit := \<lambda>u w. (Some OSError, w)\<rparr>)
       ((new_buffer 625000 1 (Some 7) DEFAULT_FLUSH_FIELDS)\<lparr>chunks := [[0, 1]], component_dtype := PStr ''>u2''\<rparr>) (0, [])
     = (Some OSError, b', (0, [])) \<and> chunks b' = []"
proof -
  let ?b = "(new_buffer 625000 1 (Some 7) DEFAULT_FLUSH_FIELDS)\<lparr>chunks := [[0, 1]], component_dtype := PStr ''>u2''\<rparr>"
  let ?env = "demo_env\<lparr>emit := \<lambda>u w. (Some OSError, w)\<rparr>"
  have "convert_window ?env ?b = Inr (Float32 [1])" by code_simp
  then have f: "flush ?env ?b (0, []) = (Some OSError, reset_window ?b, (0, []))" by (simp add: flush_def)
  from failed_emit_not_repeated [OF f] f \<open>convert_window ?env ?b = _\<close> show ?thesis by auto
qed

end
