(* ===== verification/Cli_Reports.thy ===== *)
theory Cli_Reports
  imports Cli_Laws Session_Ends
begin

text \<open>
  What the user of the command line sees of a run: the lines of the demo consumer and the two reports
  logged at the end.
\<close>

section \<open>Totals over the streams\<close>












section \<open>Concrete runs\<close>

text \<open>The pipeline's concrete run, live and interrupted before it takes the last item.\<close>

abbreviation "interrupted_end \<equiv> snd (sys_session (metered demo_env) [Turn, Turn, Turn] True [] metered_start)"



end
