(* ===== verification/Source_Threads.thy ===== *)
theory Source_Threads
  imports Accounting
begin

text \<open>
  The sources as objects with a thread: their construction, \<open>start\<close> and \<open>stop\<close> (the interface
  \<open>PacketSource\<close>), how fast \<open>stop\<close> ends the receive loop, and what a pipeline does when a live source
  dies of a socket error.
\<close>

section \<open>The objects\<close>

definition JOIN_TIMEOUT_S :: rat where "JOIN_TIMEOUT_S = 2"
definition RECV_TIMEOUT_S :: rat where "RECV_TIMEOUT_S = 1 / 2"
definition DEFAULT_BUFFER_SIZE :: int where "DEFAULT_BUFFER_SIZE = 65535"

text \<open>What the two classes share: the thread handle and the stop event given to the constructor.\<close>

record source_object =
  has_thread :: bool
  stop_event :: bool

record live_source = source_object +
  ls_host :: string
  ls_port :: int
  ls_buffer_size :: int
  ls_rcvbuf_bytes :: int
  ls_state :: live_state

record replay_source = source_object +
  rs_path :: string
  rs_pace :: bool
  rs_failed :: bool

definition new_live_source :: "string \<Rightarrow> int \<Rightarrow> bool \<Rightarrow> recorder option \<Rightarrow> live_source" where
  "new_live_source host port stop rec =
     \<lparr>has_thread = False, stop_event = stop, ls_host = host, ls_port = port, ls_buffer_size = DEFAULT_BUFFER_SIZE,
      ls_rcvbuf_bytes = DEFAULT_RCVBUF_BYTES, ls_state = live_end False None None [] rec None\<rparr>"

definition new_replay_source :: "string \<Rightarrow> bool \<Rightarrow> bool \<Rightarrow> replay_source" where
  "new_replay_source path stop pace =
     \<lparr>has_thread = False, stop_event = stop, rs_path = path, rs_pace = pace, rs_failed = False\<rparr>"

definition live_start :: "live_source \<Rightarrow> live_source" where
  "live_start s = s\<lparr>has_thread := True\<rparr>"

definition replay_start :: "replay_source \<Rightarrow> replay_source" where
  "replay_start s = s\<lparr>has_thread := True\<rparr>"

text \<open>\<open>stop\<close>: the event, then the join of the thread, if one was started, with its timeout.\<close>

definition live_stop :: "live_source \<Rightarrow> rat option \<times> live_source" where
  "live_stop s = (if has_thread s then Some JOIN_TIMEOUT_S else None, s\<lparr>stop_event := True\<rparr>)"

definition replay_stop :: "replay_source \<Rightarrow> rat option \<times> replay_source" where
  "replay_stop s = (if has_thread s then Some JOIN_TIMEOUT_S else None, s\<lparr>stop_event := True\<rparr>)"

text \<open>What the thread of a started source does to it: the answers of the operating system are arguments,
  those of the receive buffer go through \<open>_configure_rcvbuf\<close>, and the event answers \<open>stops\<close>.\<close>

definition live_thread ::
  "exn option \<Rightarrow> bool \<Rightarrow> exn option \<Rightarrow> exn + int \<Rightarrow> exn + address \<Rightarrow> (nat \<Rightarrow> bool) \<Rightarrow> recv list \<Rightarrow>
     live_source \<Rightarrow> live_source" where
  "live_thread opened linux set_result get_result bound stops evs s =
     s\<lparr>ls_state := live_run opened (configure_rcvbuf (ls_rcvbuf_bytes s) linux set_result get_result) bound stops evs
        (live_recorder (ls_state s))\<rparr>"

definition replay_thread ::
  "(string \<Rightarrow> exn + replay_row list) \<Rightarrow> (nat \<Rightarrow> bool) \<Rightarrow> (nat \<Rightarrow> bool) \<Rightarrow> replay_source \<Rightarrow>
     source_act list \<times> replay_source" where
  "replay_thread load stops wakes s =
     (case replay_run (load (rs_path s)) (rs_pace s) stops wakes of
        (acts, failed) \<Rightarrow> (acts, s\<lparr>rs_failed := rs_failed s \<or> failed\<rparr>))"

section \<open>The interface\<close>

locale packet_source =
  fixes start :: "'s \<Rightarrow> 's" and stop :: "'s \<Rightarrow> rat option \<times> 's"
    and started :: "'s \<Rightarrow> bool" and stopping :: "'s \<Rightarrow> bool"
  assumes start_starts: "started (start s)" and start_event: "stopping (start s) = stopping s"
    and stop_event: "stopping (snd (stop s))" and stop_thread: "started (snd (stop s)) = started s"
    and stop_joins: "fst (stop s) = None \<longleftrightarrow> \<not> started s"
begin

text \<open>Stopping is idempotent, safe before the start, and never undone.\<close>

definition calls :: "bool list \<Rightarrow> 's \<Rightarrow> 's" where
  "calls cs s = fold (\<lambda>c s. if c then start s else snd (stop s)) cs s"

lemma calls_state:
  "stopping (calls cs s) = (stopping s \<or> False \<in> set cs)" "started (calls cs s) = (started s \<or> True \<in> set cs)"
  unfolding calls_def
  by (induction cs arbitrary: s) (auto simp: start_starts start_event stop_event stop_thread)

lemma stop_again: "stopping (snd (stop (calls (cs @ [False]) s)))" "fst (stop (calls cs s)) = None \<longleftrightarrow> \<not> (started s \<or> True \<in> set cs)"
  by (simp_all add: stop_event stop_joins calls_state)

end

interpretation live: packet_source live_start live_stop has_thread stop_event
  by unfold_locales (simp_all add: live_start_def live_stop_def)

interpretation replay: packet_source replay_start replay_stop has_thread stop_event
  by unfold_locales (simp_all add: replay_start_def replay_stop_def)

section \<open>Stopping in time\<close>

text \<open>The number of \<open>recvfrom\<close> calls the loop makes.\<close>

fun recv_calls :: "(nat \<Rightarrow> bool) \<Rightarrow> nat \<Rightarrow> recv list \<Rightarrow> nat" where
  "recv_calls stops i [] = 0"
| "recv_calls stops i (ev # evs) =
     (if stops i then 0 else case ev of Recv_Error e \<Rightarrow> 1 | _ \<Rightarrow> Suc (recv_calls stops (Suc i) evs))"

lemma recv_calls_props:
  "recv_calls stops i evs \<le> length evs"
  "j < recv_calls stops i evs \<Longrightarrow> \<not> stops (i + j)"
  "recv_calls stops i evs < length evs \<Longrightarrow> stops (i + recv_calls stops i evs) \<or> snd (snd (live_loop stops i evs rec)) \<noteq> None"
  "live_loop stops i evs rec = live_loop (\<lambda>_. False) i (take (recv_calls stops i evs) evs) rec"
proof -
  have "recv_calls stops i evs \<le> length evs \<and> (j < recv_calls stops i evs \<longrightarrow> \<not> stops (i + j)) \<and>
    (recv_calls stops i evs < length evs \<longrightarrow>
       stops (i + recv_calls stops i evs) \<or> snd (snd (live_loop stops i evs rec)) \<noteq> None) \<and>
    live_loop stops i evs rec = live_loop (\<lambda>_. False) i (take (recv_calls stops i evs) evs) rec"
  proof (induction evs arbitrary: i j rec)
    case (Cons ev evs)
    show ?case
    proof (cases "stops i \<or> (\<exists>e. ev = Recv_Error e)")
      case True
      then show ?thesis by (auto split: recv.splits)
    next
      case False
      let ?rec = "case ev of Received data addr ts \<Rightarrow> map_option (\<lambda>r. snd (append_packet ts addr data r)) rec | _ \<Rightarrow> rec"
      from False Cons.IH [of "Suc i" "j - 1" ?rec] show ?thesis
        by (cases j; cases ev) (auto split: prod.splits)
    qed
  qed simp
  then show "recv_calls stops i evs \<le> length evs"
    "j < recv_calls stops i evs \<Longrightarrow> \<not> stops (i + j)"
    "recv_calls stops i evs < length evs \<Longrightarrow>
       stops (i + recv_calls stops i evs) \<or> snd (snd (live_loop stops i evs rec)) \<noteq> None"
    "live_loop stops i evs rec = live_loop (\<lambda>_. False) i (take (recv_calls stops i evs) evs) rec" by blast+
qed

text \<open>The time before the \<open>i\<close>-th call, when the calls last \<open>ds\<close> and nothing else takes time.\<close>

definition clock_at :: "rat \<Rightarrow> rat list \<Rightarrow> nat \<Rightarrow> rat" where
  "clock_at t0 ds i = t0 + sum_list (take i ds)"

text \<open>C24: \<open>stop\<close> ends the receive thread within its join timeout. When every \<open>recvfrom\<close> returns within
  the socket's timeout and the event is set at time \<open>T\<close>, the loop has left by \<open>T\<close> plus half a second,
  before the join of \<open>stop\<close> gives up, unless it had left before by an error; what it enqueued and
  recorded are exactly the datagrams of the calls made until then.\<close>

theorem stop_joins_in_time:
  assumes "length ds = length evs" "\<forall>d \<in> set ds. 0 \<le> d \<and> d \<le> RECV_TIMEOUT_S" "t0 \<le> T"
    and "stops = (\<lambda>i. T \<le> clock_at t0 ds i)" "T \<le> clock_at t0 ds (length evs)"
    and "has_thread s" "live_stop s = (join, s')"
  shows "stop_event s' \<and> (\<exists>n \<le> length evs. \<exists>timeout. join = Some timeout \<and> clock_at t0 ds n < T + timeout \<and>
    (stops n \<or> snd (snd (live_loop stops 0 evs rec)) \<noteq> None) \<and>
    live_loop stops 0 evs rec = live_loop (\<lambda>_. False) 0 (take n evs) rec)"
proof -
  let ?n = "recv_calls stops 0 evs"
  have n: "?n \<le> length evs" by (rule recv_calls_props(1))
  have late: "clock_at t0 ds ?n \<le> T + RECV_TIMEOUT_S"
  proof (cases ?n)
    case 0
    with assms(3) show ?thesis by (simp add: clock_at_def RECV_TIMEOUT_S_def)
  next
    case (Suc k)
    then have "\<not> stops k" using recv_calls_props(2) [of k stops 0 evs] by simp
    then have "clock_at t0 ds k < T" by (simp add: assms(4))
    moreover have k: "k < length ds" using n Suc assms(1) by simp
    then have "clock_at t0 ds (Suc k) = clock_at t0 ds k + ds ! k"
      by (simp add: clock_at_def take_Suc_conv_app_nth)
    moreover have "ds ! k \<le> RECV_TIMEOUT_S" using assms(2) k by simp
    ultimately show ?thesis unfolding Suc by simp
  qed
  have "stops ?n \<or> snd (snd (live_loop stops 0 evs rec)) \<noteq> None"
  proof (cases "?n = length evs")
    case True
    with assms(4,5) show ?thesis by simp
  next
    case False
    with n recv_calls_props(3) [of stops 0 evs rec] show ?thesis by simp
  qed
  moreover have "join = Some JOIN_TIMEOUT_S" "stop_event s'"
    using assms(6,7) live.stop_event [of s] by (auto simp: live_stop_def)
  ultimately show ?thesis
    using n late recv_calls_props(4) [of stops 0 evs rec]
    by (intro conjI exI [of _ ?n] exI [of _ JOIN_TIMEOUT_S]) (simp_all add: RECV_TIMEOUT_S_def JOIN_TIMEOUT_S_def)
qed

section \<open>A live source that dies\<close>

lemma live_puts_datagrams: "SHUTDOWN \<notin> set (live_puts (live_run opened configured bound stops evs rec))"
proof -
  have "SHUTDOWN \<notin> set (fst (live_loop stops i evs rec))" for i
  proof -
    obtain puts rec' e where l: "live_loop stops i evs rec = (puts, rec', e)" by (metis prod_cases3)
    from live_loop_fanout [OF l] l show ?thesis by auto
  qed
  then show ?thesis
    by (auto simp: live_run_def live_end_def split: option.split sum.split prod.split) (metis fst_conv)
qed

text \<open>Without the event set by another thread, a loop that still runs has no stop event.\<close>

lemma loop_step_event:
  assumes "phase s = Looping" "\<not> stop_set s" "phase (snd (loop_step env s)) = Looping"
  shows "\<not> stop_set (snd (loop_step env s))"
proof -
  obtain new s' where l: "loop_step env s = (new, s')" by force
  have fin: "phase (finish env e t) \<noteq> Looping" for e and t :: "'a system"
    using finish_phase(1) [of env e t] by auto
  obtain got q where g: "queue_get (raw s) = (got, q)" by force
  have "\<exists>got'. s' = loop_turn env got' (s\<lparr>raw := q\<rparr>)"
    using assms l g fin by (auto simp: loop_step_def split: option.splits queue_item.splits)
  then obtain got' where "s' = loop_turn env got' (s\<lparr>raw := q\<rparr>)" ..
  with assms l loop_turn_cases [of "s\<lparr>raw := q\<rparr>" env got'] show ?thesis by auto
qed

lemma sys_events_event:
  "sys_events env evs s = (is, t) \<Longrightarrow> Signal \<notin> set evs \<Longrightarrow> phase t = Looping \<Longrightarrow>
     phase s = Looping \<and> (\<not> stop_set s \<longrightarrow> \<not> stop_set t)"
proof (induction env evs s arbitrary: "is" rule: sys_events.induct)
  case (4 env evs s)
  show ?case
  proof (cases "phase s = Looping")
    case False
    with "4.IH"(2) "4.prems" show ?thesis by auto
  next
    case True
    obtain new s' where l: "loop_step env s = (new, s')" by force
    with "4.prems" True obtain is1 where "sys_events env evs s' = (is1, t)" by (auto split: prod.splits)
    with "4.IH"(1) [OF True l [symmetric]] "4.prems" have "phase s' = Looping \<and> (\<not> stop_set s' \<longrightarrow> \<not> stop_set t)" by auto
    with loop_step_event [OF True, of env] l True show ?thesis by auto
  qed
qed auto

text \<open>C25: a live source that dies of a socket error after its bind leaves the pipeline polling for ever.
  The source reports the failure, but the bind watchdog sees an address and stays silent, and the
  source enqueues no sentinel and sets no event. So whatever part of what it received has been put,
  and however the puts interleave with any number of turns of the loop, before and after its death:
  as long as nobody else sets the stop event, \<open>run\<close> is still looping, or it ended with an exception
  that the consumer raised; it never returns. With a consumer that does not raise it loops for ever.\<close>

theorem live_failure_keeps_polling:
  assumes ls: "live_run None (Inr (st, granted)) (Inr addr) stops answers rec = ls" and failed: "live_failed ls"
    and q: "make_queue n = Inr q"
    and run: "sys_events (metered env) evs
      (init_system q (fresh_pipeline b age fs m) (new_meter\<lparr>meter_start := t0\<rparr>, w)) = (is, s)"
    and evs: "prefix (arrived evs) (live_puts ls)" "Signal \<notin> set evs"
    and env: "numpy_ok env item" "numpy_formats env" and fs: "''sample_rate_hz'' \<in> set fs"
  shows "live_ready ls \<and> bound_address ls = Some addr \<and>
    (phase s = Looping \<and> \<not> stop_set s \<or> (\<exists>x u v. phase s = Finished (Some x) \<and> fst (emit env u v) = Some x)) \<and>
    ((\<forall>u v. fst (emit env u v) = None) \<longrightarrow> phase s = Looping)"
proof -
  let ?s0 = "init_system q (fresh_pipeline b age fs m) (new_meter\<lparr>meter_start := t0\<rparr>, w)"
  have ready: "live_ready ls \<and> bound_address ls = Some addr"
    using ls by (auto simp: live_run_def live_end_def split: prod.splits)
  have no: "SHUTDOWN \<notin> set (arrived evs)"
    using evs(1) live_puts_datagrams ls unfolding prefix_def by (metis Un_iff set_append)
  from schedule_queue [OF q run] obtain ops sentinel where
    o: "queue_run queue_put queue_get ops q = (taken is sentinel, raw s)" "puts_of ops = arrived evs"
      "phase s \<noteq> Looping \<and> Signal \<notin> set evs \<longrightarrow> sentinel \<or> (\<exists>e. phase s = Finished (Some e))" by metis
  have "set (taken is sentinel) \<subseteq> set (arrived evs)"
    using raw.run_order [OF _ o(1)] make_queue_ok [OF q] o(2) subseq_subset by fastforce
  then have "\<not> sentinel" using no by (cases sentinel) (auto simp: taken_def)
  with o(3) evs(2) have ends: "phase s = Looping \<or> (\<exists>x. phase s = Finished (Some x))" by blast
  have "sys_run (metered env) ?s0 is s" using run sys_run_iff_events by blast
  from metered_figures [OF this env fs] have raised: "\<exists>u v. fst (emit env u v) = Some x" if "phase s = Finished (Some x)" for x
    using that unfolding figures_def by blast
  have "\<not> stop_set s" if "phase s = Looping"
    using sys_events_event [OF run evs(2) that] by (simp add: init_system_def)
  with ends raised ready show ?thesis by fastforce
qed

section \<open>A replay ends the run\<close>

lemma loop_n_ended: "phase s \<noteq> Looping \<Longrightarrow> phase (loop_n env k s) \<noteq> Looping"
  by (cases k) simp_all

text \<open>C13: a replay always lets \<open>run\<close> return. However its puts interleave with the turns of the loop (and
  with a stop), however small the queue and whatever it dropped, and whatever the callbacks do: once
  the replay is done, the loop has ended, or the sentinel is still in the queue (the newest item is
  never dropped) and the loop ends within as many further turns as the queue holds items, which is
  at most its capacity.\<close>

theorem replay_lets_run_return:
  assumes replay: "replay_run loaded pace stops wakes = (acts, failed)" and q: "make_queue n = Inr q"
    and run: "sys_events env evs (init_system q p w) = (is, s)" "arrived evs = enqueued acts"
  shows "(phase s \<noteq> Looping \<or> last (queue_items (raw s)) = SHUTDOWN \<and> queue_items (raw s) \<noteq> []) \<and>
    int (length (queue_items (raw s))) \<le> n \<and> phase (loop_n env (length (queue_items (raw s))) s) \<noteq> Looping"
proof -
  obtain acts1 where "acts = acts1 @ [Enqueue SHUTDOWN]"
    using replay by (auto simp: replay_run_def split: prod.splits)
  then have arr: "arrived evs = enqueued acts1 @ [SHUTDOWN]" using run(2) by simp
  from schedule_queue [OF q run(1)] obtain ops sentinel where
    o: "queue_run queue_put queue_get ops q = (taken is sentinel, raw s)" "puts_of ops = arrived evs"
      "sentinel \<longrightarrow> phase s \<noteq> Looping" by metis
  note qs = make_queue_ok [OF q]
  have ok: "queue_ok (raw s)" using raw.run_ok [OF _ o(1)] qs by simp
  have "taken is sentinel @ queue_items (raw s) \<noteq> []" "last (taken is sentinel @ queue_items (raw s)) = SHUTDOWN"
    using raw.run_last [OF _ o(1)] qs unfolding o(2) arr by (simp_all del: last_append)
  then have held: "phase s \<noteq> Looping \<or> last (queue_items (raw s)) = SHUTDOWN \<and> queue_items (raw s) \<noteq> []"
    using o(3) by (cases "queue_items (raw s) = []"; cases sentinel; cases "is" rule: rev_cases) (auto simp: taken_def)
  have "phase (loop_n env (length (queue_items (raw s))) s) \<noteq> Looping"
  proof (cases "phase s = Looping")
    case True
    with held have "SHUTDOWN \<in> set (queue_items (raw s))" by (metis last_in_set)
    then show ?thesis by (rule loop_n_finishes)
  qed (rule loop_n_ended)
  moreover have "maxsize (raw s) = n" using queue_run_maxsize [OF o(1)] qs by simp
  ultimately show ?thesis using held ok by (simp add: queue_ok_def queue_len_def)
qed

section \<open>Concrete runs\<close>

definition demo_recvs :: "recv list" where
  "demo_recvs = [Received [1] (''h'', 1) 10, Recv_Timeout, Recv_Timeout]"

definition demo_times :: "rat list" where "demo_times = [1/4, 1/2, 1/2]"

definition demo_stops :: "nat \<Rightarrow> bool" where "demo_stops = (\<lambda>i. 1/2 \<le> clock_at 0 demo_times i)"

theorem stop_joins_in_time_witness:
  "\<exists>n \<le> 3. clock_at 0 demo_times n < 1/2 + 2 \<and>
     live_loop demo_stops 0 demo_recvs None = live_loop (\<lambda>_. False) 0 (take n demo_recvs) None"
proof -
  let ?s = "live_start (new_live_source ''0.0.0.0'' 5000 False None)"
  have len: "length demo_times = length demo_recvs" "length demo_recvs = 3"
    by (simp_all add: demo_times_def demo_recvs_def)
  have ds: "\<forall>d \<in> set demo_times. 0 \<le> d \<and> d \<le> RECV_TIMEOUT_S" by (simp add: RECV_TIMEOUT_S_def demo_times_def)
  have T: "1/2 \<le> clock_at 0 demo_times (length demo_recvs)"
    unfolding len(2) by (simp add: clock_at_def demo_times_def)
  have st: "has_thread ?s" by (simp add: live_start_def)
  obtain join s' where j: "live_stop ?s = (join, s')" by force
  then have "join = Some 2" by (simp add: live_stop_def live_start_def JOIN_TIMEOUT_S_def)
  moreover have "0 \<le> (1/2 :: rat)" by simp
  ultimately show ?thesis
    using stop_joins_in_time [OF len(1) ds _ demo_stops_def T st j, of None] unfolding len(2) by blast
qed

text \<open>One datagram, interpreted before the socket fails, then a thousand turns.\<close>

theorem live_failure_keeps_polling_witness:
  "\<exists>ls is s. live_run None (Inr (Granted, Some 1000)) (Inr (''0.0.0.0'', 5000)) (\<lambda>_. False)
       [Received [1] (''h'', 1) 10, Recv_Error OSError] None = ls \<and> live_failed ls \<and>
     sys_events (metered demo_env) (Arrive (Item (Datagram [1])) # replicate 1000 Turn)
       (init_system (empty_queue 8) (fresh_pipeline 625000 1 DEFAULT_FLUSH_FIELDS 64)
          (new_meter\<lparr>meter_start := Some 0\<rparr>, (0, []))) = (is, s) \<and> phase s = Looping"
proof -
  let ?ls = "live_run None (Inr (Granted, Some 1000)) (Inr (''0.0.0.0'', 5000)) (\<lambda>_. False)
      [Received [1] (''h'', 1) 10, Recv_Error OSError] None"
  let ?evs = "Arrive (Item (Datagram [1])) # replicate 1000 Turn"
  let ?s0 = "init_system (empty_queue 8) (fresh_pipeline 625000 1 DEFAULT_FLUSH_FIELDS 64)
      (new_meter\<lparr>meter_start := Some 0\<rparr>, (0 :: rat, []))"
  have ls: "live_failed ?ls" "live_puts ?ls = [Item (Datagram [1])]" by (simp_all add: live_run_def live_end_def)
  have q: "make_queue 8 = Inr (empty_queue 8)" by (simp add: make_queue_def)
  have "arrived (replicate k Turn) = []" for k by (induction k) simp_all
  then have evs: "prefix (arrived ?evs) (live_puts ?ls)" "Signal \<notin> set ?evs" by (simp_all add: ls(2))
  have fs: "''sample_rate_hz'' \<in> set DEFAULT_FLUSH_FIELDS" by (simp add: DEFAULT_FLUSH_FIELDS_def)
  obtain "is" s where s: "sys_events (metered demo_env) ?evs ?s0 = (is, s)" by (metis surj_pair)
  have quiet: "\<forall>u v. fst (emit demo_env u v) = None" by (simp add: demo_env_def split: prod.split)
  from live_failure_keeps_polling [OF refl ls(1) q s evs demo_numpy_ok demo_numpy_formats fs] quiet
  have "phase s = Looping" by blast
  with ls(1) s show ?thesis by blast
qed

text \<open>A queue of one, and a replay whose first datagram is interpreted before its sentinel arrives.\<close>

definition tight_events :: "sys_event list" where
  "tight_events = [Arrive (Item Stray), Turn, Turn, Arrive (Item Stray), Arrive SHUTDOWN]"

theorem replay_lets_run_return_witness:
  "\<exists>s. sys_events demo_env tight_events (init_system (empty_queue 1) (fresh_pipeline 1 1 DEFAULT_FLUSH_FIELDS 64) (0, []))
       = ([Stray], s) \<and> phase s = Looping \<and> queue_items (raw s) = [SHUTDOWN] \<and> phase (loop_n demo_env 1 s) \<noteq> Looping"
proof -
  let ?s0 = "init_system (empty_queue 1) (fresh_pipeline 1 1 DEFAULT_FLUSH_FIELDS 64) (0 :: rat, [])"
  let ?t = "snd (sys_events demo_env tight_events ?s0)"
  have f: "fst (sys_events demo_env tight_events ?s0) = [Stray]" "phase ?t = Looping" "queue_items (raw ?t) = [SHUTDOWN]"
    by code_simp+
  have r: "replay_run (Inr [Row 0 Stray, Row 0 Stray]) False (\<lambda>_. False) (\<lambda>_. False)
      = ([Enqueue (Item Stray), Enqueue (Item Stray), Enqueue SHUTDOWN], False)"
    by (simp add: replay_run_def pace_delay_def)
  have q: "make_queue 1 = Inr (empty_queue 1)" by (simp add: make_queue_def)
  have arr: "arrived tight_events = enqueued [Enqueue (Item Stray), Enqueue (Item Stray), Enqueue SHUTDOWN]"
    by (simp add: tight_events_def)
  from replay_lets_run_return [OF r q prod.collapse [symmetric] arr, where env = demo_env] f(3)
  have "phase (loop_n demo_env 1 ?t) \<noteq> Looping" by (metis length_Cons list.size(3) One_nat_def)
  moreover have "sys_events demo_env tight_events ?s0 = ([Stray], ?t)" using f(1) by (metis prod.collapse)
  ultimately show ?thesis using f(2,3) by blast
qed

end
