(* ===== verification/Run_Range.thy ===== *)
theory Run_Range
  imports Metered
begin

text \<open>
  The capture report of a run in binary64: the windows the pipeline hands to the meter carry timestamps
  and rates decoded from packets, so no double of the report leaves the normal range.
\<close>

lemma windows_in_range:
  assumes "\<forall>u \<in> set us. unit_range u \<and> 0 < u_num_samples u" "\<forall>u \<in> set us. u_num_samples u \<le> 2 ^ 53"
    and "win \<in> set (windows_of k us)"
  shows "window_range win"
proof -
  obtain u where u: "u \<in> set us" "unit_window u = Some win"
    using assms(3) by (induction us) (auto split: if_splits option.splits)
  have "rated (case u_context u of None \<Rightarrow> [] | Some c \<Rightarrow> c)"
    using assms(1) u(1) by (auto simp: unit_range_def split: option.split) (simp add: rated_def)
  with u assms(1,2) show ?thesis
    by (force simp: unit_window_def unit_range_def rated_def window_range_def split: option.splits if_splits)
qed

lemma windows_count: "length (windows_of k us) \<le> length (filter (\<lambda>u. u_stream_id u = k) us)"
  by (induction us) (auto split: option.split)

lemma windows_of_filter: "windows_of k (filter (\<lambda>u. u_stream_id u = k) us) = windows_of k us"
  by (induction us) (auto split: option.split)

lemma sum_list_count:
  fixes f :: "'a \<Rightarrow> int"
  assumes "\<forall>x \<in> set xs. 0 < f x"
  shows "int (length xs) \<le> sum_list (map f xs)" "x \<in> set xs \<Longrightarrow> f x \<le> sum_list (map f xs)"
proof -
  show "int (length xs) \<le> sum_list (map f xs)" using assms by (induction xs) auto
  show "x \<in> set xs \<Longrightarrow> f x \<le> sum_list (map f xs)"
    using assms by (intro member_le_sum_list) (auto intro: less_imp_le)
qed

text \<open>C16: the capture report of a run is computed in binary64 as modelled. At every moment of every run
  of the metered pipeline, with any consumer and any datagrams: for a stream that was handed up to
  \<open>2 ^ 52\<close> samples, the arithmetic with denormals and overflow (integrating its windows, draining the
  jitter buffer, forming the ratio) never overflows or loses bits to the bounded exponent, and
  gives the very numbers the capture report is made of.\<close>

theorem capture_doubles_in_range:
  fixes env :: "('f, 'w) env"
  assumes run: "sys_run (metered env) (init_system q (fresh_pipeline n age fs m) (new_meter\<lparr>meter_start := t0\<rparr>, w)) is s"
    and np: "numpy_ok env item" "numpy_formats env" and fs: "''sample_rate_hz'' \<in> set fs"
    and rep: "capture_summary (fst (world s)) = (Some rep, m')" "st_total (stream_of k (fst (world s))) \<le> 2 ^ 52"
  shows "\<exists>us :: 'f unit_rec list. fst (world s) = meter_all us (new_meter\<lparr>meter_start := t0\<rparr>) \<and>
    (windows_of k us \<noteq> [] \<longrightarrow>
      (\<exists>st. Option.bind (feed64 (windows_of k us) new_stat) stat_finalize64 = Some st \<and>
         same_integral (stream_of k m') st \<and> efficiency64 st = Some (efficiency (stream_of k m'))))"
proof -
  let ?m = "new_meter\<lparr>meter_start := t0\<rparr>"
  from metered_figures [OF run np fs] obtain rs us where f: "figures env item fs m ?m is s rs us" by blast
  then have m: "fst (world s) = meter_all us ?m" and u: "\<forall>u \<in> set us. unit_range u \<and> 0 < u_num_samples u"
    by (simp_all add: figures_def)
  let ?us = "filter (\<lambda>u. u_stream_id u = k) us"
  have total: "sum_list (map u_num_samples ?us) \<le> 2 ^ 52"
    using rep(2) meter_all_totals [of us ?m k]
    by (simp add: m stream_total_def stream_of_def new_meter_def new_stat_def)
  have pos: "\<forall>u \<in> set ?us. 0 < u_num_samples u" using u by simp
  note c = sum_list_count [OF pos]
  have "int (length (windows_of k us)) \<le> int (2 ^ 52)" using windows_count [of k us] c(1) total by simp
  then have count: "length (windows_of k us) \<le> 2 ^ 52" by (simp only: of_nat_le_iff)
  have "\<forall>win \<in> set (windows_of k ?us). window_range win"
    using u c(2) total by (intro ballI windows_in_range [of ?us]) force+
  then have range: "\<forall>win \<in> set (windows_of k us). window_range win" by (simp only: windows_of_filter)
  have new: "stream_of k ?m = new_stat" by (simp add: stream_of_def new_meter_def)
  show ?thesis
    by (rule exI [of _ us], intro conjI impI m) (rule capture_doubles [OF rep(1) [unfolded m] new _ range count])
qed

section \<open>A concrete run\<close>

text \<open>A context that declares a rate of 10 MHz, and two samples.\<close>

definition rated_queue :: "queue_item raw_queue" where
  "rated_queue = \<lparr>maxsize = 8, queue_items =
     [Item (Datagram [0x40, 0, 0, 7, 0, 0, 0, 7, 0, 0x20, 0x80, 0, 0, 0, 9, 0x89, 0x68, 0, 0, 0, 0x2E, 0, 0x07, 0xDF, 0, 0, 0, 0]),
      Item (Datagram (mini_data 1 [0, 0, 0, 1, 0, 0, 0, 2])), SHUTDOWN], queue_dropped = 0\<rparr>"

definition rated_start :: "(meter \<times> demo_world) system" where
  "rated_start = init_system rated_queue (fresh_pipeline 625000 1 DEFAULT_FLUSH_FIELDS 64)
     (new_meter\<lparr>meter_start := Some 0\<rparr>, (0, []))"

abbreviation rated_end :: "(meter \<times> demo_world) system" where
  "rated_end \<equiv> metered_step (metered_step (metered_step rated_start))"

lemma rated_phases:
  "phase rated_start = Looping" "phase (metered_step rated_start) = Looping"
  "phase (metered_step (metered_step rated_start)) = Looping" "phase rated_end = Finished None"
  "pending (stream_of (Some 7) (fst (world rated_end))) \<noteq> []" "st_total (stream_of (Some 7) (fst (world rated_end))) \<le> 2 ^ 52"
  "total_samples (fst (world rated_end)) \<noteq> 0"
  by code_simp+

theorem capture_doubles_in_range_witness:
  "\<exists>us rep m' st. capture_summary (fst (world rated_end)) = (Some rep, m') \<and>
     fst (world rated_end) = meter_all (us :: int unit_rec list) (new_meter\<lparr>meter_start := Some 0\<rparr>) \<and>
     windows_of (Some 7) us \<noteq> [] \<and> Option.bind (feed64 (windows_of (Some 7) us) new_stat) stat_finalize64 = Some st \<and>
     efficiency64 st = Some (efficiency (stream_of (Some 7) m'))"
proof -
  let ?m = "new_meter\<lparr>meter_start := Some 0\<rparr>"
  have run: "sys_run (metered demo_env) (init_system rated_queue (fresh_pipeline 625000 1 DEFAULT_FLUSH_FIELDS 64) (?m, (0, [])))
      (([] @ fst (loop_step (metered demo_env) rated_start)) @ fst (loop_step (metered demo_env) (metered_step rated_start)) @
       fst (loop_step (metered demo_env) (metered_step (metered_step rated_start)))) rated_end"
    using sys_run_step [OF sys_run_step [OF sys_run_step [OF sys_run.start rated_phases(1)] rated_phases(2)] rated_phases(3)]
    unfolding rated_start_def by simp
  have fs: "''sample_rate_hz'' \<in> set DEFAULT_FLUSH_FIELDS" by (simp add: DEFAULT_FLUSH_FIELDS_def)
  obtain rep m' where c: "capture_summary (fst (world rated_end)) = (Some rep, m')"
    using rated_phases(7) unfolding capture_summary_def Let_def by (simp only: if_False prod.inject option.inject)
  from capture_doubles_in_range [OF run demo_numpy_ok demo_numpy_formats fs c rated_phases(6)] obtain us :: "int unit_rec list" where
    us: "fst (world rated_end) = meter_all us ?m" "windows_of (Some 7) us \<noteq> [] \<longrightarrow>
      (\<exists>st. Option.bind (feed64 (windows_of (Some 7) us) new_stat) stat_finalize64 = Some st \<and>
         same_integral (stream_of (Some 7) m') st \<and> efficiency64 st = Some (efficiency (stream_of (Some 7) m')))" by blast
  have "stream_of (Some 7) ?m = new_stat" by (simp add: stream_of_def new_meter_def)
  with meter_all_windows [of "Some 7" us ?m] rated_phases(5) have w: "windows_of (Some 7) us \<noteq> []"
    unfolding us(1) by (auto simp: same_integral_def new_stat_def)
  with us(2) obtain st where "Option.bind (feed64 (windows_of (Some 7) us) new_stat) stat_finalize64 = Some st"
    "efficiency64 st = Some (efficiency (stream_of (Some 7) m'))" by blast
  with c us(1) w show ?thesis by (intro exI conjI)
qed

end
