(* ===== verification/Gap_Rounding.thy ===== *)
theory Gap_Rounding
  imports Metrics_Laws
begin

text \<open>
  What the rounding of timestamps does to the capture report. A window's end is computed in doubles
  (\<open>window_end\<close>), so a stream whose windows follow each other without a gap may still be charged one:
  here is how much at most, and when the report still reads 100.0 percent.
\<close>

section \<open>Streams without a gap in exact sample time\<close>

definition exact_end :: "window \<Rightarrow> rat" where
  "exact_end win = (case win of (ts, r, n) \<Rightarrow> ts + of_int n / r)"

text \<open>Each window starts at most \<open>d\<close> seconds after the exact end of its predecessor.\<close>

fun gapless_within :: "rat \<Rightarrow> window list \<Rightarrow> bool" where
  "gapless_within d (v # w # ws) = (fst w \<le> exact_end v + d \<and> gapless_within d (w # ws))"
| "gapless_within d _ = True"

text \<open>Windows of at most \<open>R\<close> samples a second that lie before \<open>2 ^ 31\<close> seconds (the year 2038).\<close>

definition timed :: "rat \<Rightarrow> window \<Rightarrow> bool" where
  "timed R win = (case win of (ts, r, n) \<Rightarrow> 0 \<le> ts \<and> 0 < r \<and> r \<le> R \<and> 0 < n \<and> ts + of_int n / r \<le> 2 ^ 31)"

text \<open>The samples one window can be charged although none were lost.\<close>

definition spurious :: "rat \<Rightarrow> rat \<Rightarrow> rat" where
  "spurious R d = R * (d + 1 / 2 ^ 20) + 1 / 16"

lemma timed_positive: "timed R win \<Longrightarrow> positive win"
  by (auto simp: timed_def positive_def)

lemma fl_near:
  assumes "0 \<le> x" "x \<le> b"
  shows "fl x \<le> x + b / 2 ^ 53" "x - b / 2 ^ 53 \<le> fl x"
proof -
  have "\<bar>fl x - x\<bar> \<le> x / 2 ^ 53" using fl_relative_error [of x] assms(1) by simp
  moreover have "x / 2 ^ 53 \<le> b / 2 ^ 53" using assms(2) by (intro divide_right_mono) simp_all
  ultimately show "fl x \<le> x + b / 2 ^ 53" "x - b / 2 ^ 53 \<le> fl x" by linarith+
qed

text \<open>The end of a window in doubles is at most \<open>2 powi -21\<close> seconds early.\<close>

lemma window_end_near:
  assumes "timed R win" "(case win of (ts, r, n) \<Rightarrow> n) \<le> 2 ^ 53"
  shows "exact_end win - 1 / 2 ^ 21 \<le> window_end win"
proof -
  obtain ts r n where w: "win = (ts, r, n)" by (cases win)
  define q where "q = of_int n / r"
  have t: "0 \<le> ts" "0 < q" "ts + q \<le> 2 ^ 31" and n: "of_pyint n = of_int n"
    using assms w of_pyint_exact [of n] by (auto simp: timed_def q_def)
  let ?u = "1 - 1 / 2 ^ 53 :: rat"
  have low: "x * ?u \<le> fl x" if "0 \<le> x" for x
    using fl_near(2) [OF that order_refl] by (simp add: right_diff_distrib)
  have "(ts + q) * ?u * ?u \<le> (ts + fl q) * ?u"
    using low [of q] t by (intro mult_right_mono) (simp_all add: field_simps)
  also have "\<dots> \<le> fl (ts + fl q)" using t dbl.rnd_nonneg [of q] by (intro low) simp_all
  finally have "(ts + q) * (?u * ?u) \<le> fl (ts + fl q)" by (simp only: mult.assoc)
  moreover have "(ts + q) * (1 - ?u * ?u) \<le> 2 ^ 31 * (1 - ?u * ?u)" using t by (intro mult_right_mono) simp_all
  ultimately show ?thesis
    by (simp add: w exact_end_def window_end_def fadd_def fdiv_def n algebra_simps flip: q_def)
qed

section \<open>What is charged\<close>

lemma charged_at_most:
  assumes "0 \<le> q" "q \<le> R" "0 \<le> d" "d \<le> 1" "g \<le> d + 1 / 2 ^ 21" "0 < fl g"
  shows "fmul q (fl g) \<le> R * (d + 1 / 2 ^ 20)" "0 \<le> fmul q (fl g)"
proof -
  let ?x = "d + 1 / 2 ^ 21 :: rat"
  have "fl g \<le> fl ?x" using assms(5) by (rule fl_mono)
  also have "fl ?x \<le> ?x + 2 / 2 ^ 53" using assms(3,4) by (intro fl_near) simp_all
  finally have g: "fl g \<le> ?x + 2 / 2 ^ 53" .
  have "q * fl g \<le> R * (?x + 2 / 2 ^ 53)" using assms(1,2,6) g by (intro mult_mono) simp_all
  moreover have "0 \<le> R * (?x + 2 / 2 ^ 53)" using assms(1-3) by simp
  moreover have scale: "R * y + R * y / 2 ^ 53 = R * (y * (1 + 1 / 2 ^ 53))" for y by (simp add: algebra_simps)
  ultimately have "fmul q (fl g) \<le> R * (?x + 2 / 2 ^ 53) + R * (?x + 2 / 2 ^ 53) / 2 ^ 53"
    unfolding fmul_def by (intro order_trans [OF fl_mono [of "q * fl g"] fl_near(1)]) simp_all
  also have "\<dots> = R * ((?x + 2 / 2 ^ 53) * (1 + 1 / 2 ^ 53))" by (rule scale)
  also have "\<dots> \<le> R * (d + 1 / 2 ^ 20)"
    using assms(1-4) by (intro mult_left_mono) simp_all
  finally show "fmul q (fl g) \<le> R * (d + 1 / 2 ^ 20)" .
  show "0 \<le> fmul q (fl g)" unfolding fmul_def using assms(1,6) by (intro dbl.rnd_nonneg) simp_all
qed

lemma commit_spurious:
  assumes s: "booked s" "\<forall>q. cur_rate s = Some q \<longrightarrow> q \<le> R"
    and w: "timed R win" "win = (ts, r, n)" and d: "0 \<le> d" "d \<le> 1"
    and near: "\<forall>f. last_end s = Some f \<longrightarrow> ts \<le> f + d + 1 / 2 ^ 21"
    and room: "expected s + spurious R d + of_int n \<le> 2 ^ 47"
  shows "expected (commit win s) \<le> expected s + of_int n + spurious R d"
    "\<And>f. last_end (commit win s) = Some f \<Longrightarrow> window_end win \<le> f"
    "\<And>q. cur_rate (commit win s) = Some q \<Longrightarrow> q \<le> R"
proof -
  show "\<And>f. last_end (commit win s) = Some f \<Longrightarrow> window_end win \<le> f"
    "\<And>q. cur_rate (commit win s) = Some q \<Longrightarrow> q \<le> R"
    using s(2) w by (auto simp: commit_def window_end_def timed_def Let_def split: option.splits if_splits)
  have R: "0 \<le> R" and n: "0 < n" using w by (auto simp: timed_def)
  have e0: "0 \<le> expected s"
    using s(1) unfolding booked_def by (elim conjE) (rule order_trans [of _ "of_int (delivered s)"], simp_all)
  define c where "c = R * (d + 1 / 2 ^ 20)"
  have c: "0 \<le> c" "spurious R d = c + 1 / 16" using R d by (simp_all add: c_def spurious_def)
  have "of_int n \<le> (2 :: rat) ^ 47" using room e0 c by simp
  then have "n \<le> 2 ^ 47" by (metis of_int_le_numeral_power_cancel_iff)
  then have pn: "of_pyint n = of_int n" using n by (intro of_pyint_exact) simp
  obtain x where x: "0 \<le> x" "x \<le> c" "expected (commit win s) = fadd (fadd (expected s) x) (of_int n)"
  proof (cases "\<exists>f q. last_end s = Some f \<and> cur_rate s = Some q \<and> 0 < fsub ts f")
    case False
    have "fadd (expected s) 0 = expected s" using s(1) by (simp add: fadd_def booked_def fl_id)
    with False show thesis
      using c(1) w(2) by (intro that [of 0]) (auto simp: commit_def Let_def pn split: option.split)
  next
    case True
    then obtain f q where f: "last_end s = Some f" "cur_rate s = Some q" "0 < fl (ts - f)" by (auto simp: fsub_def)
    have "0 \<le> q" using s(1) f(2) by (auto simp: booked_def)
    from charged_at_most [OF this s(2) [rule_format, OF f(2)] d _ f(3)] near [rule_format, OF f(1)] show thesis
      using f w(2) by (intro that [of "fmul q (fl (ts - f))"]) (simp_all add: c_def commit_def Let_def pn fsub_def)
  qed
  have "fadd (expected s) x \<le> expected s + x + 2 ^ 47 / 2 ^ 53" "0 \<le> fadd (expected s) x"
    unfolding fadd_def using e0 x room c n by (intro fl_near(1) dbl.rnd_nonneg; simp)+
  note a = this
  have "fadd (fadd (expected s) x) (of_int n) \<le> fadd (expected s) x + of_int n + 2 ^ 47 / 2 ^ 53"
    unfolding fadd_def [of "fadd (expected s) x"] using a x room c n by (intro fl_near) simp_all
  with a x c show "expected (commit win s) \<le> expected s + of_int n + spurious R d" by simp
qed

lemma fold_commit_spurious:
  assumes "gapless_within d ws" "\<forall>win \<in> set ws. timed R win" "0 \<le> d" "d \<le> 1" "0 \<le> R"
    and "ws \<noteq> [] \<Longrightarrow> \<forall>f. last_end s = Some f \<longrightarrow> fst (hd ws) \<le> f + d + 1 / 2 ^ 21"
    and "booked s" "\<forall>q. cur_rate s = Some q \<longrightarrow> q \<le> R"
    and "expected s + of_nat (length ws) * spurious R d + of_int (window_samples ws) \<le> 2 ^ 47"
    and "delivered s + window_samples ws \<le> 2 ^ 53"
  shows "expected (fold commit ws s) \<le> expected s + of_int (window_samples ws) + of_nat (length ws) * spurious R d"
  using assms(1,2,6-)
proof (induction ws arbitrary: s)
  case (Cons win ws)
  obtain ts r n where w: "win = (ts, r, n)" by (cases win)
  let ?c = "spurious R d"
  have c: "0 \<le> ?c" using assms(3,5) by (simp add: spurious_def)
  have pos: "\<forall>win \<in> set ws. positive win" "positive (ts, r, n)" using Cons.prems(2) w by (auto intro: timed_positive)
  have nn: "0 \<le> window_samples ws" using pos(1) by (rule window_samples_nonneg)
  have n: "0 < n" using pos(2) by (simp add: positive_def)
  have b: "booked (commit win s) \<and> delivered (commit win s) = delivered s + n"
    using commit_booked [of s ts r n] Cons.prems(4,7) pos(2) nn w by simp
  have less: "of_nat (length ws) * ?c \<ge> 0" "of_int (window_samples ws) \<ge> (0 :: rat)" using c nn by simp_all
  have room: "expected s + ?c + of_int n + (of_nat (length ws) * ?c + of_int (window_samples ws)) \<le> 2 ^ 47"
    using Cons.prems(6) w by (simp add: algebra_simps)
  have near: "\<forall>f. last_end s = Some f \<longrightarrow> ts \<le> f + d + 1 / 2 ^ 21" using Cons.prems(3) w by simp
  have tm: "timed R win" using Cons.prems(2) by simp
  have "expected s + ?c + of_int n \<le> 2 ^ 47" using room less by linarith
  note step = commit_spurious [OF Cons.prems(4,5) tm w assms(3,4) near this]
  have ends: "exact_end win - 1 / 2 ^ 21 \<le> window_end win"
    using w Cons.prems(4,7) nn n by (intro window_end_near [OF tm]) (simp add: booked_def)
  have first: "\<forall>f. last_end (commit win s) = Some f \<longrightarrow> fst (hd ws) \<le> f + d + 1 / 2 ^ 21" if "ws \<noteq> []"
  proof (intro allI impI)
    fix f assume "last_end (commit win s) = Some f"
    then have "window_end win \<le> f" by (rule step(2))
    moreover have "fst (hd ws) \<le> exact_end win + d" using Cons.prems(1) that by (cases ws) simp_all
    ultimately show "fst (hd ws) \<le> f + d + 1 / 2 ^ 21" using ends by linarith
  qed
  have "gapless_within d ws" using Cons.prems(1) by (cases ws) simp_all
  moreover have "expected (commit win s) + of_nat (length ws) * ?c + of_int (window_samples ws) \<le> 2 ^ 47"
    using step(1) room by linarith
  ultimately have "expected (fold commit ws (commit win s))
      \<le> expected (commit win s) + of_int (window_samples ws) + of_nat (length ws) * ?c"
    using Cons.prems(2,7) b step(3) first w by (intro Cons.IH) simp_all
  with step(1) w show ?case by (simp add: algebra_simps)
qed simp

text \<open>Stamps within \<open>e\<close> of true sample times that leave no gap.\<close>

definition stamped_within :: "rat \<Rightarrow> window list \<Rightarrow> window list \<Rightarrow> bool" where
  "stamped_within e vs ws \<longleftrightarrow> list_all2 (\<lambda>v w. snd w = snd v \<and> \<bar>fst w - fst v\<bar> \<le> e) vs ws"

lemma stamped_gapless: "stamped_within e vs ws \<Longrightarrow> gapless_within 0 vs \<Longrightarrow> gapless_within (2 * e) ws"
proof (induction "0 :: rat" vs arbitrary: ws rule: gapless_within.induct)
  case (1 v v' vs)
  then obtain w w' ws' where ws: "ws = w # w' # ws'"
    unfolding stamped_within_def list_all2_Cons1 by blast
  with "1.prems" have "stamped_within e (v' # vs) (w' # ws')" "snd w = snd v" "\<bar>fst w - fst v\<bar> \<le> e" "\<bar>fst w' - fst v'\<bar> \<le> e"
    by (simp_all add: stamped_within_def)
  moreover have "fst v' \<le> exact_end v" using "1.prems" by simp
  moreover have "exact_end w - fst w = exact_end v - fst v"
    using \<open>snd w = snd v\<close> by (cases v; cases w) (simp add: exact_end_def)
  ultimately show ?case using "1.hyps" [of "w' # ws'"] "1.prems" ws by (auto simp: abs_le_iff)
qed (auto simp: stamped_within_def list_all2_Cons1)

text \<open>A timestamp before 2038 is the declared one up to two roundings.\<close>

lemma timestamp_error:
  assumes "int_ts h = Some s" "0 \<le> s" "s < 2 ^ 31 - 1" "frac_ps h = Some p" "0 \<le> p" "p < 10 ^ 12"
  shows "\<bar>timestamp h - (of_int s + of_int p / 10 ^ 12)\<bar> \<le> 1 / 2 ^ 22 + 1 / 2 ^ 53"
proof -
  have e: "of_pyint s = of_int s" "of_pyint p = of_int p" using assms by (simp_all add: of_pyint_exact)
  let ?p = "of_int p / 10 ^ 12 :: rat"
  have p: "0 \<le> ?p" "?p \<le> 1" using assms(5,6) by (simp_all add: divide_le_eq flip: of_int_le_numeral_iff)
  note q = fl_near [OF p] and q' = dbl.rnd_nonneg [OF is_float_0 p(1)]
  have q1: "fl ?p \<le> 1" using p(2) is_float_of_int [of 1] by (intro dbl.rnd_le) simp_all
  have s: "0 \<le> (of_int s :: rat)" "of_int s \<le> (2 ^ 31 - 2 :: rat)" using assms(2,3) by (simp_all flip: of_int_le_numeral_iff)
  have "\<bar>fl (of_int s + fl ?p) - (of_int s + fl ?p)\<bar> \<le> 2 ^ 31 / 2 ^ 53"
  proof -
    have "0 \<le> of_int s + fl ?p" "of_int s + fl ?p \<le> 2 ^ 31" using s q' q1 by linarith+
    from fl_near [OF this] show ?thesis by linarith
  qed
  moreover have "(2 ^ 31 / 2 ^ 53 :: rat) = 1 / 2 ^ 22" by simp
  ultimately have "\<bar>fl (of_int s + fl ?p) - (of_int s + ?p)\<bar> \<le> 1 / 2 ^ 22 + 1 / 2 ^ 53" using q by linarith
  then show ?thesis by (simp add: timestamp_def assms(1,4) e fadd_def fdiv_def)
qed

section \<open>The report of a gapless stream\<close>

lemma round1_100:
  assumes "99.95 \<le> x" "x \<le> 100"
  shows "round1 x = 100"
proof -
  have "round_half_even 999.5 \<le> round_half_even (x * 10)" "round_half_even (x * 10) \<le> round_half_even (of_int 1000)"
    using assms by (intro round_half_even_mono; simp)+
  note this(1) this(2) [unfolded round_half_even_of_int]
  moreover have "round_half_even 999.5 = 1000" by code_simp
  ultimately have "round_half_even (x * 10) = 1000" by simp
  then show ?thesis using fl_id [OF is_float_of_int, of 100] by (simp add: round1_def)
qed

text \<open>The ratio of a stream whose expected count exceeds the delivered one by at most \<open>lost\<close>.\<close>

lemma efficiency_at_least:
  assumes "booked s" "0 < delivered s" "100 * delivered s \<le> 2 ^ 53" "expected s \<le> of_int (delivered s) + lost"
  shows "fl (of_int (100 * delivered s) / (of_int (delivered s) + lost)) \<le> efficiency s"
    "2000 * lost \<le> of_int (delivered s) \<Longrightarrow> round1 (efficiency s) = 100"
    "10 * lost \<le> of_int (delivered s) \<Longrightarrow> verdict_of (round1 (efficiency s)) = OK"
proof -
  let ?n = "of_int (delivered s) :: rat"
  have num: "fmul 100 (of_pyint (delivered s)) = 100 * ?n"
    using assms(2,3) of_pyint_exact [of "delivered s"] fl_id [OF is_float_of_int, of "100 * delivered s"]
    by (simp add: fmul_def)
  have n: "0 < ?n" "?n \<le> expected s" using assms(1,2) by (simp_all add: booked_def)
  have eff: "efficiency s = fl (100 * ?n / expected s)" by (simp add: efficiency_def fdiv_def num)
  show "fl (of_int (100 * delivered s) / (?n + lost)) \<le> efficiency s"
    unfolding eff using n assms(4) by (intro fl_mono) (simp add: frac_le)
  have most: "efficiency s \<le> 100" using efficiency_range [OF assms(1-3)] by simp
  have least: "c - 100 / 2 ^ 53 \<le> efficiency s" if "c * expected s \<le> 100 * ?n" for c
  proof -
    have "0 \<le> 100 * ?n / expected s" "100 * ?n / expected s \<le> 100" "c \<le> 100 * ?n / expected s"
      using n that by (simp_all add: divide_le_eq le_divide_eq)
    with fl_near(2) [OF this(1,2)] show ?thesis unfolding eff by linarith
  qed
  show "round1 (efficiency s) = 100" if "2000 * lost \<le> ?n"
    using least [of "99.95 + 1 / 10 ^ 9"] n assms(4) that most by (intro round1_100) (simp_all add: field_simps)
  show "verdict_of (round1 (efficiency s)) = OK" if "10 * lost \<le> ?n"
  proof -
    have "90 + 100 / 2 ^ 53 \<le> (90.5 :: rat)" by simp
    then have "90 \<le> efficiency s" using least [of "90.5"] n assms(4) that by simp
    then have "90 \<le> round1 (efficiency s)" using round1_lt_90 [of "efficiency s"] by (meson not_le)
    then show ?thesis by (simp add: verdict_of_def)
  qed
qed

text \<open>C19: a stream that lost nothing, whose stamps are true sample times without a gap up to an error
  \<open>e\<close> (\<open>timestamp_error\<close>: at most \<open>2 powi -22 + 2 powi -53\<close> for the timestamps of packets before 2038),
  reordered within the jitter buffer, of rates up to \<open>R\<close> and with at most \<open>2 ^ 53 / 100\<close> samples. Rounding
  makes the report charge at most \<open>spurious R (2 * e)\<close> samples per window, so the ratio is at least that
  of losing as many; the report reads 100.0 percent when the windows are long enough for them to be
  a two-thousandth of the samples (at 625 kHz, 2000 samples a window), and the verdict is OK when
  they are a tenth. When in doubles no window starts after the end computed for its predecessor,
  the ratio is exactly 100.\<close>

theorem capture_gapless:
  assumes cap: "capture_summary (meter_all us new_meter) = (Some rep, m')" "late_at_most 64 [] (windows_of k us)"
    and some: "windows_of k us \<noteq> []" "100 * window_samples (windows_of k us) \<le> 2 ^ 53"
    and true_times: "gapless_within 0 vs" "stamped_within e vs (sort (windows_of k us))" "0 \<le> e" "2 * e \<le> 1"
    and rates: "\<forall>win \<in> set (windows_of k us). timed R win"
    and lost: "lost = of_nat (length (windows_of k us)) * spurious R (2 * e)" "lost \<le> 2 ^ 45"
    and n: "n = window_samples (windows_of k us)" and s: "s = stream_of k m'"
  shows "delivered s = n \<and> expected s \<le> of_int n + lost \<and>
    fl (of_int (100 * n) / (of_int n + lost)) \<le> efficiency s \<and>
    (2000 * lost \<le> of_int n \<longrightarrow> round1 (efficiency s) = 100) \<and>
    (10 * lost \<le> of_int n \<longrightarrow> verdict_of (round1 (efficiency s)) = OK) \<and>
    (contiguous (sort (windows_of k us)) \<longrightarrow> efficiency s = 100)"
proof -
  let ?ws = "sort (windows_of k us)" and ?t = "fold commit (sort (windows_of k us)) new_stat"
  obtain cs where "same_integral s (fold commit cs new_stat)" "cs = ?ws"
    using finished_stream [OF cap(1), of k] cap(2) unfolding s by (auto simp: REORDER_WINDOW_def)
  then have fig: "efficiency s = efficiency ?t" "delivered s = delivered ?t" "expected s = expected ?t"
    using same_integral_figures by blast+
  have tm: "\<forall>win \<in> set ?ws. timed R win" using rates by simp
  then have pos: "\<forall>win \<in> set ?ws. positive win" by (blast intro: timed_positive)
  have sum: "window_samples ?ws = n" unfolding n by (rule window_samples_mset) simp
  obtain win ws where ws: "?ws = win # ws" using some(1) by (metis set_empty set_sort list.exhaust)
  have gt: "0 < n"
    using pos window_samples_nonneg [of ws] sum ws by (cases win) (auto simp: positive_def)
  have R: "0 \<le> R" using tm ws by (cases win) (auto simp: timed_def)
  have n47: "of_int n + lost \<le> (2 ^ 47 :: rat)"
  proof -
    have "n \<le> 3 * 2 ^ 45" using some(2) n by simp
    then have "of_int n \<le> (of_int (3 * 2 ^ 45) :: rat)" by (simp only: of_int_le_iff)
    with lost(2) show ?thesis by simp
  qed
  have le: "delivered new_stat + window_samples ?ws \<le> 2 ^ 53" using some(2) sum gt n booked_new(2) by simp
  have b: "booked ?t" "delivered ?t = n"
    using fold_commit_booked [OF booked_new(1) pos le] booked_new(2) sum by simp_all
  have "expected ?t \<le> expected new_stat + of_int (window_samples ?ws) + of_nat (length ?ws) * spurious R (2 * e)"
    using stamped_gapless [OF true_times(2,1)] true_times(3,4) R n47 le lost(1) sum
    by (intro fold_commit_spurious tm booked_new) (simp_all add: new_stat_def)
  then have ex: "expected ?t \<le> of_int (delivered ?t) + lost" using b(2) sum lost(1) by (simp add: new_stat_def)
  have "0 < delivered ?t" "100 * delivered ?t \<le> 2 ^ 53" using b(2) gt some(2) n by simp_all
  note eff = efficiency_at_least [OF b(1) this ex] and top = efficiency_range [OF b(1) this]
  have "efficiency ?t = 100" if "contiguous ?ws"
  proof -
    have "expected ?t = of_int (delivered ?t)"
      using fold_commit_contiguous [OF that pos _ booked_new(1) _ le] by (simp add: new_stat_def)
    with efficiency_at_least(1) [of ?t 0] b gt some(2) n fl_id [OF is_float_of_int, of 100] top
    show ?thesis by simp
  qed
  with eff ex b(2) fig show ?thesis by simp
qed

section \<open>Concrete streams\<close>

text \<open>Three windows of \<open>n\<close> samples at 625 kHz that follow each other without a gap from a moment in 2025,
  their stamps rounded to doubles.\<close>

definition steady_unit :: "int \<Rightarrow> int \<Rightarrow> int unit_rec" where
  "steady_unit n i = (demo_unit (fl (1750000000 + of_int (i * n) / 625000)))
     \<lparr>u_num_samples := n, u_context := Some [(''sample_rate_hz'', PFloat 625000)]\<rparr>"

definition steady :: "int \<Rightarrow> int unit_rec list" where
  "steady n = map (steady_unit n) [0, 1, 2]"

definition true_windows :: "int \<Rightarrow> window list" where
  "true_windows n = map (\<lambda>i. (1750000000 + of_int (i * n) / 625000, 625000, n)) [0, 1, 2]"

text \<open>With 2000 samples a window the report reads 100.0 percent.\<close>

lemma steady_facts:
  "windows_of (Some 7) (steady 2000) \<noteq> []" "total_samples (meter_all (steady 2000) new_meter) \<noteq> 0"
  "late_at_most 64 [] (windows_of (Some 7) (steady 2000))" "window_samples (windows_of (Some 7) (steady 2000)) = 6000"
  "gapless_within 0 (true_windows 2000)" "length (windows_of (Some 7) (steady 2000)) = 3"
  "stamped_within (1 / 2 ^ 22) (true_windows 2000) (sort (windows_of (Some 7) (steady 2000)))"
  "list_all (timed 625000) (windows_of (Some 7) (steady 2000))"
  by code_simp+

theorem capture_gapless_witness:
  "\<exists>rep m'. capture_summary (meter_all (steady 2000) new_meter) = (Some rep, m') \<and>
     round1 (efficiency (stream_of (Some 7) m')) = 100"
proof -
  obtain rep m' where c: "capture_summary (meter_all (steady 2000) new_meter) = (Some rep, m')"
    using has_summary [OF steady_facts(2)] by blast
  note facts = steady_facts(4,6)
  have r: "\<forall>win \<in> set (windows_of (Some 7) (steady 2000)). timed 625000 win"
    using steady_facts(8) by (simp add: list_all_iff)
  have n: "100 * window_samples (windows_of (Some 7) (steady 2000)) \<le> 2 ^ 53" unfolding facts by simp
  have l: "of_nat (length (windows_of (Some 7) (steady 2000))) * spurious 625000 (2 * (1 / 2 ^ 22)) \<le> 2 ^ 45"
    unfolding facts by (simp add: spurious_def)
  have "0 \<le> (1 / 2 ^ 22 :: rat)" "2 * (1 / 2 ^ 22) \<le> (1 :: rat)" by simp_all
  from capture_gapless [OF c steady_facts(3,1) n steady_facts(5,7) this r refl l refl refl]
  have "round1 (efficiency (stream_of (Some 7) m')) = 100" unfolding facts by (simp add: spurious_def)
  with c show ?thesis by blast
qed

text \<open>With two samples a window the same stream, of which nothing was lost either, reads below 98 percent:
  the end computed for the second window is earlier than its successor's stamp by one place of the double.\<close>

lemma short_window_stamps:
  "windows_of (Some 7) (steady 2) = [(1750000000, 625000, 2), (7340032000000013 / 4194304, 625000, 2),
     (7340032000000027 / 4194304, 625000, 2)]"
  "late_at_most 64 [] (windows_of (Some 7) (steady 2))" "sort (windows_of (Some 7) (steady 2)) = windows_of (Some 7) (steady 2)"
  "total_samples (meter_all (steady 2) new_meter) \<noteq> 0" "gapless_within 0 (true_windows 2)"
  "stamped_within (1 / 2 ^ 22) (true_windows 2) (windows_of (Some 7) (steady 2))"
  by code_simp+

lemma short_window_sums:
  "of_pyint 2 = 2" "of_pyint 6 = 6" "fdiv 2 625000 = 944473296573929 / 295147905179352825856"
  "fadd 0 2 = 2" "fadd 1750000000 (944473296573929 / 295147905179352825856) = 7340032000000013 / 4194304"
  "fsub (7340032000000013 / 4194304) (7340032000000013 / 4194304) = 0" "fadd 2 2 = 4"
  "fadd (7340032000000013 / 4194304) (944473296573929 / 295147905179352825856) = 3670016000000013 / 2097152"
  "fsub (7340032000000027 / 4194304) (3670016000000013 / 2097152) = 1 / 4194304"
  "fmul 625000 (1 / 4194304) = 78125 / 524288" "fadd 4 (78125 / 524288) = 2175277 / 524288"
  "fadd (2175277 / 524288) 2 = 3223853 / 524288" "fmul 100 6 = 600" "fdiv 600 (3223853 / 524288) < 98"
  by code_simp+

lemma short_windows_read_loss:
  "\<exists>rep m'. capture_summary (meter_all (steady 2) new_meter) = (Some rep, m') \<and> delivered (stream_of (Some 7) m') = 6 \<and>
     efficiency (stream_of (Some 7) m') < 98"
proof -
  obtain rep m' where c: "capture_summary (meter_all (steady 2) new_meter) = (Some rep, m')"
    using has_summary [OF short_window_stamps(4)] by blast
  let ?t = "fold commit (windows_of (Some 7) (steady 2)) new_stat"
  from finished_stream [OF c, of "Some 7"] short_window_stamps(2,3) have "same_integral (stream_of (Some 7) m') ?t"
    by (auto simp: REORDER_WINDOW_def)
  moreover have "delivered ?t = 6" "expected ?t = 3223853 / 524288"
    unfolding short_window_stamps(1)
    by (simp_all add: commit_def new_stat_def Let_def short_window_sums)
  ultimately have "delivered (stream_of (Some 7) m') = 6" "expected (stream_of (Some 7) m') = 3223853 / 524288"
    by (simp_all add: same_integral_def)
  with c show ?thesis by (intro exI [of _ rep] exI [of _ m'] conjI) (simp_all only: efficiency_def short_window_sums)
qed

end
