(* ===== verification/Iq_Codec.thy ===== *)
theory Iq_Codec
  imports PyFloat
begin

text \<open>
  \<open>encode_iq_float32\<close> of \<open>tests/conftest.py\<close>: complex samples as big-endian pairs of binary32, the
  payload of the supported format \<open>>f4\<close>. \<open>struct.pack\<close> rounds to the nearest, ties to even, and raises
  for a number too large; a sample is the rational it denotes, so zeros have no sign.
\<close>

section \<open>binary32\<close>

definition pack_f4 :: "rat \<Rightarrow> exn + bytes" where
  "pack_f4 x = (if x = 0 then Inr (to_be 4 0)
     else let e = max (ilog2 \<bar>x\<bar> - 23) (- 149); m = round_half_even (\<bar>x\<bar> / 2 powi e)
          in if 2 ^ 128 \<le> of_int m * (2 powi e :: rat) then Inl (External ''OverflowError'')
             else Inr (to_be 4 ((if x < 0 then 2 ^ 31 else 0) + ((e + 149) * 2 ^ 23 + m))))"

fun encode_iq_float32 :: "(rat \<times> rat) list \<Rightarrow> exn + bytes" where
  "encode_iq_float32 [] = Inr []"
| "encode_iq_float32 ((re, im) # cs) =
     sbind (pack_f4 re) (\<lambda>r. sbind (pack_f4 im) (\<lambda>i. sbind (encode_iq_float32 cs) (\<lambda>rest. Inr (r @ i @ rest))))"

text \<open>The number four bytes denote; \<open>None\<close> for an infinity or NaN.\<close>

definition f4_value :: "int \<Rightarrow> rat option" where
  "f4_value k = (let ex = k div 2 ^ 23; fr = k mod 2 ^ 23 in
     if ex = 255 then None
     else if ex = 0 then Some (of_int fr * 2 powi (- 149))
     else Some (of_int (2 ^ 23 + fr) * 2 powi (ex - 150)))"

definition unpack_f4 :: "bytes \<Rightarrow> rat option" where
  "unpack_f4 bs = (let n = be_int bs in
     if 2 ^ 31 \<le> n then map_option uminus (f4_value (n - 2 ^ 31)) else f4_value n)"

definition single :: "rat \<Rightarrow> bool" where
  "single x \<longleftrightarrow> (\<exists>m e. \<bar>m\<bar> < 2 ^ 24 \<and> - 149 \<le> e \<and> x = of_int m * 2 powi e) \<and> \<bar>x\<bar> < 2 ^ 128"

section \<open>Round trip\<close>

lemma single_mantissa:
  assumes "single x" "x \<noteq> 0"
  defines "e \<equiv> max (ilog2 \<bar>x\<bar> - 23) (- 149)"
  obtains m where "\<bar>x\<bar> = of_int m * 2 powi e" "0 < m" "m < 2 ^ 24" "- 149 < e \<Longrightarrow> 2 ^ 23 \<le> m" "- 149 \<le> e" "e \<le> 104"
proof -
  obtain n d where nd: "\<bar>n\<bar> < 2 ^ 24" "- 149 \<le> d" "x = of_int n * 2 powi d" and big: "\<bar>x\<bar> < 2 ^ 128"
    using assms(1) by (auto simp: single_def)
  have pos: "0 < \<bar>x\<bar>" using assms(2) by simp
  have ax: "\<bar>x\<bar> = of_int \<bar>n\<bar> * 2 powi d" by (simp add: nd(3) abs_mult)
  note l = ilog2_bounds [OF pos]
  have "e \<le> d \<or> e = ilog2 \<bar>x\<bar> - 23" using nd(2) by (auto simp: e_def max_def)
  moreover have "ilog2 \<bar>x\<bar> - 23 \<le> d"
  proof -
    have "(of_int \<bar>n\<bar> :: rat) < of_int (2 ^ 24)" using nd(1) by (simp only: of_int_less_iff)
    then have "of_int \<bar>n\<bar> * 2 powi d < of_int (2 ^ 24) * (2 powi d :: rat)" by (intro mult_strict_right_mono) simp_all
    also have "\<dots> = 2 powi (d + 24)" by (simp add: power_int_add mult.commute)
    finally have "(2 :: rat) powi (ilog2 \<bar>x\<bar>) < 2 powi (d + 24)" using l(1) unfolding ax by (rule order_le_less_trans [rotated])
    from powi_2_less_imp [OF this] show ?thesis by simp
  qed
  ultimately have "e \<le> d" by auto
  then obtain j where j: "d = e + int j" by (metis zle_iff_zadd)
  define m where "m = \<bar>n\<bar> * 2 ^ j"
  have xm: "\<bar>x\<bar> = of_int m * 2 powi e" unfolding ax j m_def by (simp add: power_int_add)
  have m0: "0 < m" using xm pos power_int_2_pos [of e] by (metis of_int_0_less_iff zero_less_mult_pos2)
  have "\<bar>x\<bar> < of_int (2 ^ 24) * 2 powi e"
  proof -
    have "(2 :: rat) powi (ilog2 \<bar>x\<bar> + 1) \<le> 2 powi (e + 24)" unfolding e_def by (intro power_int_increasing) simp_all
    with l(2) show ?thesis by (simp add: power_int_add mult.commute)
  qed
  then have m1: "m < 2 ^ 24" unfolding xm by (simp only: mult_less_cancel_right_pos power_int_2_pos of_int_less_iff)
  have m2: "2 ^ 23 \<le> m" if "- 149 < e"
  proof -
    have "ilog2 \<bar>x\<bar> = e + 23" using that by (simp add: e_def max_def split: if_splits)
    with l(1) have "of_int (2 ^ 23) * 2 powi e \<le> \<bar>x\<bar>" by (simp add: power_int_add mult.commute)
    then show ?thesis unfolding xm by (simp only: mult_le_cancel_right_pos power_int_2_pos of_int_le_iff)
  qed
  have "(2 :: rat) powi (ilog2 \<bar>x\<bar>) < 2 powi 128" using order_le_less_trans [OF l(1) big] by simp
  from powi_2_less_imp [OF this] have "e \<le> 104" by (simp add: e_def)
  then show thesis using that [OF xm m0 m1 m2] by (simp add: e_def)
qed

lemma f4_value_parts:
  assumes "0 \<le> m" "m < 2 ^ 24" "- 149 < e \<Longrightarrow> 2 ^ 23 \<le> m" "- 149 \<le> e" "e \<le> 104"
  shows "f4_value ((e + 149) * 2 ^ 23 + m) = Some (of_int m * 2 powi e)"
    "0 \<le> (e + 149) * 2 ^ 23 + m" "(e + 149) * 2 ^ 23 + m < 2 ^ 31"
proof -
  show "0 \<le> (e + 149) * 2 ^ 23 + m" "(e + 149) * 2 ^ 23 + m < 2 ^ 31" using assms by simp_all
  show "f4_value ((e + 149) * 2 ^ 23 + m) = Some (of_int m * 2 powi e)"
  proof (cases "m < 2 ^ 23")
    case True
    with assms(3,4) have "e = - 149" by force
    with True assms(1) show ?thesis by (simp add: f4_value_def Let_def)
  next
    case False
    define fr where "fr = m - 2 ^ 23"
    have fr: "0 \<le> fr" "fr < 2 ^ 23" using False assms(2) by (simp_all add: fr_def)
    have k: "(e + 149) * 2 ^ 23 + m = fr + (e + 150) * 2 ^ 23" by (simp add: fr_def algebra_simps)
    have d: "(fr + (e + 150) * 2 ^ 23) div 2 ^ 23 = e + 150" "(fr + (e + 150) * 2 ^ 23) mod 2 ^ 23 = fr"
      using fr div_mult_self1 [of "2 ^ 23 :: int" fr "e + 150"] mod_mult_self1 [of fr "e + 150" "2 ^ 23 :: int"]
      by (simp_all only: div_pos_pos_trivial mod_pos_pos_trivial)
    have "2 ^ 23 + fr = m" "e + 150 \<noteq> 255" "e + 150 \<noteq> 0" "e + 150 - 150 = e" using assms(4,5) by (simp_all add: fr_def)
    then show ?thesis unfolding f4_value_def Let_def k d by (simp only: if_False)
  qed
qed

lemma pack_f4_roundtrip:
  assumes "single x"
  obtains bs where "pack_f4 x = Inr bs" "length bs = 4" "unpack_f4 bs = Some x"
proof (cases "x = 0")
  case True
  then show thesis by (intro that [of "to_be 4 0"]) (simp_all add: pack_f4_def unpack_f4_def f4_value_def)
next
  case False
  define e where "e = max (ilog2 \<bar>x\<bar> - 23) (- 149)"
  obtain m where
    m: "\<bar>x\<bar> = of_int m * 2 powi e" "0 < m" "m < 2 ^ 24" "- 149 < e \<Longrightarrow> 2 ^ 23 \<le> m" "- 149 \<le> e" "e \<le> 104"
    using single_mantissa [OF assms False] unfolding e_def by metis
  note v = f4_value_parts [OF less_imp_le [OF m(2)] m(3-6)]
  have q: "round_half_even (\<bar>x\<bar> / 2 powi e) = m" unfolding m(1) by simp
  have fit: "\<not> 2 ^ 128 \<le> of_int m * (2 powi e :: rat)" using assms unfolding m(1) [symmetric] by (simp add: single_def not_le)
  let ?k = "(e + 149) * 2 ^ 23 + m"
  let ?bs = "to_be 4 ((if x < 0 then 2 ^ 31 else 0) + ?k)"
  have p: "pack_f4 x = Inr ?bs" using False by (simp only: pack_f4_def e_def [symmetric] Let_def q fit if_False)
  have "be_int ?bs = (if x < 0 then 2 ^ 31 else 0) + ?k" using v(2,3) by simp
  moreover have "unpack_f4 ?bs = Some x" if "be_int ?bs = (if x < 0 then 2 ^ 31 else 0) + ?k"
  proof (cases "x < 0")
    case True
    with that v(2) have u: "be_int ?bs - 2 ^ 31 = ?k" "2 ^ 31 \<le> be_int ?bs" by simp_all
    have "- (of_int m * 2 powi e) = x" using m(1) True by simp
    with u show ?thesis unfolding unpack_f4_def Let_def u(1) by (simp only: if_True v(1) option.map)
  next
    case False
    with that v(3) have u: "be_int ?bs = ?k" "\<not> 2 ^ 31 \<le> ?k" by simp_all
    have "of_int m * 2 powi e = x" using m(1) False by simp
    with u(2) show ?thesis unfolding unpack_f4_def Let_def u(1) by (simp only: if_False v(1))
  qed
  ultimately have "unpack_f4 ?bs = Some x" by blast
  from that [OF p length_to_be this] show thesis .
qed

text \<open>Samples of single precision survive the encoding: read back in chunks of four bytes, the payload
  gives the real and imaginary parts in order.\<close>

theorem iq_float32_roundtrip:
  assumes "\<forall>(re, im) \<in> set cs. single re \<and> single im"
  shows "\<exists>bs. encode_iq_float32 cs = Inr bs \<and> length bs = 8 * length cs \<and>
    map unpack_f4 (chunks_of 4 bs) = concat (map (\<lambda>(re, im). [Some re, Some im]) cs)"
  using assms
proof (induction cs)
  case (Cons c cs)
  obtain re im where c: "c = (re, im)" by force
  obtain rest where rest: "encode_iq_float32 cs = Inr rest" "length rest = 8 * length cs"
    "map unpack_f4 (chunks_of 4 rest) = concat (map (\<lambda>(re, im). [Some re, Some im]) cs)" using Cons by auto
  obtain r where r: "pack_f4 re = Inr r" "length r = 4" "unpack_f4 r = Some re"
    using pack_f4_roundtrip [of re] Cons.prems c by auto
  obtain i where i: "pack_f4 im = Inr i" "length i = 4" "unpack_f4 i = Some im"
    using pack_f4_roundtrip [of im] Cons.prems c by auto
  have one: "chunks_of 4 b = [b]" if "length b = 4" for b :: bytes
    using that by (subst chunks_of.simps) auto
  have "chunks_of 4 (r @ i @ rest) = r # i # chunks_of 4 rest"
    using r(2) i(2) one by (simp add: chunks_of_append)
  with r i rest c show ?case by simp
qed simp

theorem iq_float32_roundtrip_witness:
  "\<exists>bs. encode_iq_float32 [(1, - 3 / 2), (0, 16777215)] = Inr bs \<and>
     map unpack_f4 (chunks_of 4 bs) = [Some 1, Some (- 3 / 2), Some 0, Some 16777215]"
proof -
  have s: "single (of_int m * 2 powi e)" if "\<bar>m\<bar> < 2 ^ 24" "- 149 \<le> e" "\<bar>of_int m * 2 powi e :: rat\<bar> < 2 ^ 128" for m e
    using that by (auto simp: single_def)
  have "single 1" "single (- 3 / 2)" "single 0" "single 16777215"
    using s [of 1 0] s [of "- 3" "- 1"] s [of 0 0] s [of 16777215 0] by (simp_all add: power_int_minus)
  with iq_float32_roundtrip [of "[(1, - 3 / 2), (0, 16777215)]"] show ?thesis by auto
qed

end
