(* ===== verification/Receiver.thy ===== *)
theory Receiver
  imports Sources
begin

text \<open>
  \<open>receiver/recieve_udp.py\<close>: the standalone capture script over the recorder. The clock readings and
  the answers of the socket are sequences indexed by the iteration; the loop is partial (a clock that
  stands still while datagrams keep coming never ends it), and \<open>receiver_returns\<close> shows when it ends.
\<close>

text \<open>The loop after the first datagram: the exception it did not catch, if any, and the recorder. An
  interrupt is modelled where the script blocks, in \<open>recvfrom\<close>.\<close>

partial_function (option) receive_loop ::
  "(nat \<Rightarrow> rat) \<Rightarrow> (nat \<Rightarrow> recv) \<Rightarrow> rat \<Rightarrow> nat \<Rightarrow> recorder \<Rightarrow> (exn option \<times> recorder) option" where
  "receive_loop clock answers deadline i r =
    (if fsub deadline (clock i) \<le> 0 then Some (None, r)
     else case answers i of
         Recv_Timeout \<Rightarrow> Some (None, r)
       | Recv_Error e \<Rightarrow> Some (if e = KeyboardInterrupt then None else Some e, r)
       | Received data addr ts \<Rightarrow>
           receive_loop clock answers deadline (Suc i) (snd (append_packet ts addr data r)))"

text \<open>\<open>receive_udp\<close>: \<open>first\<close> is the answer of the first, unlimited \<open>recvfrom\<close> (an interrupt there returns
  without saving), \<open>now\<close> the clock reading behind it.\<close>

definition receive_udp ::
  "(string \<Rightarrow> capture \<Rightarrow> 'w \<Rightarrow> exn option \<times> 'w) \<Rightarrow> exn option \<Rightarrow> recv \<Rightarrow> rat \<Rightarrow> (nat \<Rightarrow> rat) \<Rightarrow> (nat \<Rightarrow> recv) \<Rightarrow>
     rat \<Rightarrow> string \<Rightarrow> 'w \<Rightarrow> (exn option \<times> 'w) option" where
  "receive_udp dump bound first now clock answers duration path w =
    (case bound of
       Some e \<Rightarrow> Some (Some e, w)
     | None \<Rightarrow>
        (case first of
           Recv_Timeout \<Rightarrow> Some (Some OSError, w)
         | Recv_Error e \<Rightarrow> Some (if e = KeyboardInterrupt then None else Some e, w)
         | Received data addr start \<Rightarrow>
            (case receive_loop clock answers (fadd now duration) 0
                (snd (append_packet start addr data (new_recorder None None))) of
               None \<Rightarrow> None
             | Some (Some e, r) \<Rightarrow> Some (Some e, w)
             | Some (None, r) \<Rightarrow>
                 (case save dump r path start duration w of
                    (Inl e, w') \<Rightarrow> Some (Some e, w')
                  | (Inr _, w') \<Rightarrow> Some (None, w')))))"

text \<open>The checks of the script's \<open>main\<close>; a failed one exits 2.\<close>

definition receiver_args_ok :: "int \<Rightarrow> rat \<Rightarrow> bool" where
  "receiver_args_ok port duration \<longleftrightarrow> (0 \<le> port \<and> port \<le> 65535) \<and> \<not> duration \<le> 0"

definition receiver_main ::
  "(string \<Rightarrow> capture \<Rightarrow> 'w \<Rightarrow> exn option \<times> 'w) \<Rightarrow> (int \<Rightarrow> exn option) \<Rightarrow> recv \<Rightarrow> rat \<Rightarrow> (nat \<Rightarrow> rat) \<Rightarrow>
     (nat \<Rightarrow> recv) \<Rightarrow> int \<Rightarrow> rat \<Rightarrow> string \<Rightarrow> 'w \<Rightarrow> ((int + exn option) \<times> 'w) option" where
  "receiver_main dump bind_port first now clock answers port duration path w =
    (if \<not> receiver_args_ok port duration then Some (Inl 2, w)
     else map_option (\<lambda>(e, w'). (Inr e, w')) (receive_udp dump (bind_port port) first now clock answers duration path w))"

section \<open>The loop ends and records what came\<close>

text \<open>The packet of an answer, and whether the loop leaves at iteration \<open>i\<close>.\<close>

definition packet_at :: "(nat \<Rightarrow> recv) \<Rightarrow> nat \<Rightarrow> packet" where
  "packet_at answers i = (case answers i of Received data addr ts \<Rightarrow> (ts, fst addr, snd addr, data) | _ \<Rightarrow> (0, [], 0, []))"

definition leaves_at :: "(nat \<Rightarrow> rat) \<Rightarrow> (nat \<Rightarrow> recv) \<Rightarrow> rat \<Rightarrow> nat \<Rightarrow> bool" where
  "leaves_at clock answers deadline i \<longleftrightarrow> deadline \<le> clock i \<or> (\<forall>data addr ts. answers i \<noteq> Received data addr ts)"

definition loop_error :: "(nat \<Rightarrow> rat) \<Rightarrow> (nat \<Rightarrow> recv) \<Rightarrow> rat \<Rightarrow> nat \<Rightarrow> exn option" where
  "loop_error clock answers deadline i =
    (if deadline \<le> clock i then None
     else case answers i of Recv_Error e \<Rightarrow> if e = KeyboardInterrupt then None else Some e | _ \<Rightarrow> None)"

lemma fsub_le_0 [simp]: "fsub a b \<le> 0 \<longleftrightarrow> a \<le> b"
  using fl_pos [of "a - b"] dbl.rnd_le [of 0 "a - b"] by (force simp: fsub_def)

lemma receive_loop_step:
  "leaves_at clock answers deadline i \<Longrightarrow>
     receive_loop clock answers deadline i r = Some (loop_error clock answers deadline i, r)"
  "\<not> leaves_at clock answers deadline i \<Longrightarrow> answers i = Received data addr ts \<Longrightarrow>
     receive_loop clock answers deadline i r = receive_loop clock answers deadline (Suc i) (snd (append_packet ts addr data r))"
  by (subst receive_loop.simps; auto simp: leaves_at_def loop_error_def split: recv.split)+

definition uncapped :: "recorder \<Rightarrow> bool" where
  "uncapped r \<longleftrightarrow> \<not> capped r \<and> max_packets r = None \<and> max_bytes r = None"

lemma append_uncapped:
  "uncapped r \<Longrightarrow> uncapped (snd (append_packet ts addr data r)) \<and>
     packets (snd (append_packet ts addr data r)) = packets r @ [(ts, fst addr, snd addr, data)]"
  by (simp add: uncapped_def append_packet_def over_cap_def)

lemma receive_loop_ends:
  assumes "leaves_at clock answers deadline (i + n)" "\<forall>j < n. \<not> leaves_at clock answers deadline (i + j)" "uncapped r"
  shows "\<exists>r'. receive_loop clock answers deadline i r = Some (loop_error clock answers deadline (i + n), r') \<and>
    packets r' = packets r @ map (packet_at answers) [i ..< i + n]"
  using assms
proof (induction n arbitrary: i r)
  case 0
  then show ?case by (simp add: receive_loop_step(1))
next
  case (Suc n)
  have nl: "\<not> leaves_at clock answers deadline i" using Suc.prems(2) by (metis add_0_right zero_less_Suc)
  then obtain data addr ts where a: "answers i = Received data addr ts" by (auto simp: leaves_at_def)
  let ?r = "snd (append_packet ts addr data r)"
  have "leaves_at clock answers deadline (Suc i + n)" using Suc.prems(1) by simp
  moreover have "\<forall>j < n. \<not> leaves_at clock answers deadline (Suc i + j)"
    using Suc.prems(2) [rule_format, of "Suc j" for j] by simp
  moreover have "uncapped ?r" using append_uncapped [OF Suc.prems(3)] by blast
  ultimately have "\<exists>r'. receive_loop clock answers deadline (Suc i) ?r = Some (loop_error clock answers deadline (Suc i + n), r') \<and>
    packets r' = packets ?r @ map (packet_at answers) [Suc i ..< Suc i + n]" by (rule Suc.IH)
  then obtain r' where "receive_loop clock answers deadline (Suc i) ?r = Some (loop_error clock answers deadline (i + Suc n), r')"
    "packets r' = packets ?r @ map (packet_at answers) [Suc i ..< Suc i + n]" by (auto simp del: upt_Suc)
  moreover have "[i ..< i + Suc n] = i # [Suc i ..< Suc i + n]" by (simp add: upt_conv_Cons del: upt_Suc)
  ultimately show ?case
    using receive_loop_step(2) [OF nl a] append_uncapped [OF Suc.prems(3), of ts addr data] a
    by (simp add: packet_at_def del: upt_Suc)
qed

text \<open>C27: the receiver returns. Once the clock reaches the deadline (the first datagram's time plus the
  duration) at some iteration, the capture ends at the first iteration that finds the deadline
  reached, or times out, is interrupted or fails; it has then saved the first datagram and every later
  one in order, under the first one's arrival time, unless the socket failed, which propagates.\<close>

theorem receiver_returns:
  assumes "receiver_args_ok port duration" "bind_port port = None" "first = Received data addr start"
    and "fadd now duration \<le> clock n"
  shows "\<exists>k \<le> n. leaves_at clock answers (fadd now duration) k \<and>
    (\<forall>j < k. \<not> leaves_at clock answers (fadd now duration) j) \<and>
    receiver_main dump bind_port first now clock answers port duration path w =
      (case loop_error clock answers (fadd now duration) k of
         Some e \<Rightarrow> Some (Inr (Some e), w)
       | None \<Rightarrow> (case dump path \<lparr>start_time_ns = start, duration_seconds = duration,
             cap_packets = (start, fst addr, snd addr, data) # map (packet_at answers) [0 ..< k]\<rparr> w of
           (e, w') \<Rightarrow> Some (Inr e, w')))"
proof -
  let ?d = "fadd now duration" and ?r = "snd (append_packet start addr data (new_recorder None None))"
  have n: "leaves_at clock answers ?d n" using assms(4) by (simp add: leaves_at_def)
  then obtain k where k: "leaves_at clock answers ?d k" "\<forall>j < k. \<not> leaves_at clock answers ?d j" "k \<le> n"
    by (metis LeastI Least_le not_less_Least)
  have "uncapped (new_recorder None None)" by (simp add: uncapped_def new_recorder_def)
  from append_uncapped [OF this, of start addr data]
  have r: "uncapped ?r" "packets ?r = [(start, fst addr, snd addr, data)]" by (simp_all add: new_recorder_def)
  obtain r' where loop: "receive_loop clock answers ?d 0 ?r = Some (loop_error clock answers ?d k, r')"
    "packets r' = (start, fst addr, snd addr, data) # map (packet_at answers) [0 ..< k]"
    using receive_loop_ends [of clock answers ?d 0 k ?r] k r by auto
  have "receiver_main dump bind_port first now clock answers port duration path w =
      map_option (\<lambda>(e, w'). (Inr e, w')) (case (loop_error clock answers ?d k, r') of
        (Some e, r) \<Rightarrow> Some (Some e, w)
      | (None, r) \<Rightarrow> (case save dump r path start duration w of
            (Inl e, w') \<Rightarrow> Some (Some e, w') | (Inr _, w') \<Rightarrow> Some (None, w')))"
    unfolding receiver_main_def receive_udp_def assms(2,3) recv.case option.case loop(1) using assms(1)
    by (simp split: option.split)
  also have "\<dots> = (case loop_error clock answers ?d k of
         Some e \<Rightarrow> Some (Inr (Some e), w)
       | None \<Rightarrow> (case dump path \<lparr>start_time_ns = start, duration_seconds = duration,
             cap_packets = (start, fst addr, snd addr, data) # map (packet_at answers) [0 ..< k]\<rparr> w of
           (e, w') \<Rightarrow> Some (Inr e, w')))"
    by (simp add: save_def loop(2) split: option.split prod.split)
  finally show ?thesis using k by blast
qed

theorem receiver_returns_witness:
  "\<exists>k \<le> 5. receiver_main (\<lambda>p c w. (None, w @ [length (cap_packets c)])) (\<lambda>p. None) (Received [1] (''h'', 1) 7) 0
     (\<lambda>i. of_nat i) (\<lambda>i. Received [2] (''h'', 1) 8) 5000 5 ''f'' [] = Some (Inr None, [Suc k])"
proof -
  have "fadd 0 5 \<le> (of_nat 5 :: rat)" using fl_id [OF is_float_of_int, of 5] by (simp add: fadd_def)
  moreover have "receiver_args_ok 5000 5" by (simp add: receiver_args_ok_def)
  moreover have "loop_error (\<lambda>i. of_nat i) (\<lambda>i. Received [2] (''h'', 1) 8) d k = None" for d k
    by (simp add: loop_error_def)
  ultimately show ?thesis
    using receiver_returns [where dump = "\<lambda>p c w. (None, w @ [length (cap_packets c)])" and bind_port = "\<lambda>p. None"
        and first = "Received [1] (''h'', 1) 7" and data = "[1]" and addr = "(''h'', 1)" and start = 7
        and clock = "\<lambda>i. of_nat i" and answers = "\<lambda>i. Received [2] (''h'', 1) 8" and path = "''f''" and w = "[]"
        and port = 5000 and duration = 5 and now = 0 and n = 5]
    by (force simp del: upt_Suc)
qed

end
