(* ===== verification/Scripts.thy ===== *)
theory Scripts
  imports Prelude
begin

text \<open>
  The two build scripts under \<open>scripts/\<close>: the commands they run and their exit codes. The subprocess
  is the parameter \<open>run\<close>, a command's return code and the world it leaves; the printed reports are
  not modelled.
\<close>

section \<open>The wheelhouse\<close>

definition PYTHON_VERSIONS :: "string list" where
  "PYTHON_VERSIONS = [''3.10'', ''3.11'', ''3.12'', ''3.13'']"

definition PLATFORM_FAMILIES :: "(string \<times> string list) list" where
  "PLATFORM_FAMILIES =
     [(''windows-x86_64'', [''win_amd64'']),
      (''linux-x86_64'', [''manylinux2014_x86_64'', ''manylinux_2_17_x86_64'', ''manylinux_2_28_x86_64'']),
      (''linux-aarch64'', [''manylinux2014_aarch64'', ''manylinux_2_17_aarch64'', ''manylinux_2_28_aarch64'']),
      (''macos-arm64'', [''macosx_11_0_arm64'', ''macosx_12_0_arm64'', ''macosx_14_0_arm64'']),
      (''macos-x86_64'', [''macosx_10_9_x86_64'', ''macosx_10_13_x86_64'', ''macosx_12_0_x86_64'',
         ''macosx_13_0_x86_64'', ''macosx_14_0_x86_64''])]"

definition BUILD_TOOLCHAIN :: "string list" where "BUILD_TOOLCHAIN = [''hatchling'']"

definition numpy_cmd :: "string \<Rightarrow> string \<Rightarrow> string list \<Rightarrow> string \<Rightarrow> string list" where
  "numpy_cmd python wheelhouse tags py_version =
     [python, ''-m'', ''pip'', ''download'', ''numpy'', ''--only-binary=:all:'', ''--implementation'', ''cp'',
      ''--python-version'', py_version, ''-d'', wheelhouse] @ concat (map (\<lambda>tag. [''--platform'', tag]) tags)"

definition toolchain_cmd :: "string \<Rightarrow> string \<Rightarrow> string list" where
  "toolchain_cmd python wheelhouse = [python, ''-m'', ''pip'', ''download''] @ BUILD_TOOLCHAIN @ [''-d'', wheelhouse]"

definition download :: "(string list \<Rightarrow> 'w \<Rightarrow> int \<times> 'w) \<Rightarrow> string list \<Rightarrow> 'w \<Rightarrow> bool \<times> 'w" where
  "download run cmd w = (case run cmd w of (rc, w') \<Rightarrow> (rc = 0, w'))"

text \<open>The inner and the outer loop of \<open>main\<close>: the results per version and per family, in order.\<close>

fun download_versions ::
  "(string list \<Rightarrow> 'w \<Rightarrow> int \<times> 'w) \<Rightarrow> (string \<Rightarrow> string list) \<Rightarrow> string list \<Rightarrow> 'w \<Rightarrow> (string \<times> bool) list \<times> 'w" where
  "download_versions run cmd [] w = ([], w)"
| "download_versions run cmd (v # vs) w =
     (case download run (cmd v) w of (ok, w1) \<Rightarrow>
        (case download_versions run cmd vs w1 of (oks, w2) \<Rightarrow> ((v, ok) # oks, w2)))"

fun download_families ::
  "(string list \<Rightarrow> 'w \<Rightarrow> int \<times> 'w) \<Rightarrow> string \<Rightarrow> string \<Rightarrow> (string \<times> string list) list \<Rightarrow> 'w \<Rightarrow>
     (string \<times> (string \<times> bool) list) list \<times> 'w" where
  "download_families run python wheelhouse [] w = ([], w)"
| "download_families run python wheelhouse ((family, tags) # fs) w =
     (case download_versions run (numpy_cmd python wheelhouse tags) PYTHON_VERSIONS w of (by_version, w1) \<Rightarrow>
        (case download_families run python wheelhouse fs w1 of (rest, w2) \<Rightarrow> ((family, by_version) # rest, w2)))"

definition wheelhouse_main :: "(string list \<Rightarrow> 'w \<Rightarrow> int \<times> 'w) \<Rightarrow> string \<Rightarrow> string \<Rightarrow> 'w \<Rightarrow> int \<times> 'w" where
  "wheelhouse_main run python wheelhouse w =
    (case download_families run python wheelhouse PLATFORM_FAMILIES w of (results, w1) \<Rightarrow>
     case download run (toolchain_cmd python wheelhouse) w1 of (toolchain_ok, w2) \<Rightarrow>
       let dead_families = filter (\<lambda>(family, by_version). \<not> (\<exists>(v, ok) \<in> set by_version. ok)) results in
       (if dead_families \<noteq> [] then 1 else if \<not> toolchain_ok then 1 else 0, w2))"

section \<open>The binary\<close>

definition pyinstaller_cmd :: "string \<Rightarrow> string \<Rightarrow> string list" where
  "pyinstaller_cmd python project_root =
     [python, ''-m'', ''PyInstaller'', ''--onefile'', ''--name'', ''sceptre-pipeline'', ''--clean'', ''--noconfirm'',
      ''--paths'', project_root @ ''/src'', ''--specpath'', project_root @ ''/build'',
      project_root @ ''/build/pyinstaller-entry/sceptre_pipeline_binary.py'']"

definition binary_main :: "bool \<Rightarrow> (string list \<Rightarrow> 'w \<Rightarrow> int \<times> 'w) \<Rightarrow> string \<Rightarrow> string \<Rightarrow> 'w \<Rightarrow> int \<times> 'w" where
  "binary_main has_pyinstaller run python project_root w =
    (if \<not> has_pyinstaller then (1, w)
     else case run (pyinstaller_cmd python project_root) w of (rc, w') \<Rightarrow> (if rc \<noteq> 0 then rc else 0, w'))"

section \<open>Exit codes\<close>

text \<open>A subprocess whose answers depend on the command alone, and that logs the commands.\<close>

definition logged_run :: "(string list \<Rightarrow> int) \<Rightarrow> string list \<Rightarrow> string list list \<Rightarrow> int \<times> string list list" where
  "logged_run answers cmd done_cmds = (answers cmd, done_cmds @ [cmd])"

lemma download_versions_logged:
  "download_versions (logged_run answers) cmd vs done_cmds =
     (map (\<lambda>v. (v, answers (cmd v) = 0)) vs, done_cmds @ map cmd vs)"
  by (induction vs arbitrary: done_cmds) (simp_all add: download_def logged_run_def)

lemma download_families_logged:
  "download_families (logged_run answers) python wheelhouse fs done_cmds =
     (map (\<lambda>(family, tags). (family, map (\<lambda>v. (v, answers (numpy_cmd python wheelhouse tags v) = 0)) PYTHON_VERSIONS)) fs,
      done_cmds @ concat (map (\<lambda>(family, tags). map (numpy_cmd python wheelhouse tags) PYTHON_VERSIONS) fs))"
  by (induction fs arbitrary: done_cmds) (auto simp: download_versions_logged)

text \<open>C28: every combination of platform family and Python version is attempted, and the toolchain, in
  that order and whatever fails before; the exit code is 0 exactly when every family got a wheel for at
  least one version and the toolchain was downloaded, else 1. So the script also fails when only the
  toolchain does.\<close>

theorem wheelhouse_exit:
  "wheelhouse_main (logged_run answers) python wheelhouse done_cmds =
     (if (\<forall>(family, tags) \<in> set PLATFORM_FAMILIES. \<exists>v \<in> set PYTHON_VERSIONS. answers (numpy_cmd python wheelhouse tags v) = 0)
         \<and> answers (toolchain_cmd python wheelhouse) = 0 then 0 else 1,
      done_cmds @ concat (map (\<lambda>(family, tags). map (numpy_cmd python wheelhouse tags) PYTHON_VERSIONS) PLATFORM_FAMILIES)
        @ [toolchain_cmd python wheelhouse])"
proof -
  have "filter (\<lambda>(family, by_version). \<not> (\<exists>(v, ok) \<in> set by_version. ok))
      (map (\<lambda>(family, tags). (family, map (\<lambda>v. (v, answers (numpy_cmd python wheelhouse tags v) = 0)) PYTHON_VERSIONS)) fs) = []
    \<longleftrightarrow> (\<forall>(family, tags) \<in> set fs. \<exists>v \<in> set PYTHON_VERSIONS. answers (numpy_cmd python wheelhouse tags v) = 0)" for fs
    by (induction fs) (auto simp: split_beta)
  from this [of PLATFORM_FAMILIES] show ?thesis
    by (simp add: wheelhouse_main_def download_families_logged download_def logged_run_def Let_def)
qed

text \<open>All numpy wheels download and the toolchain does not.\<close>

theorem wheelhouse_exit_witness:
  "fst (wheelhouse_main (logged_run (\<lambda>cmd. if cmd = toolchain_cmd ''python'' ''w'' then 1 else 0)) ''python'' ''w'' []) = 1 \<and>
   length (snd (wheelhouse_main (logged_run (\<lambda>cmd. if cmd = toolchain_cmd ''python'' ''w'' then 1 else 0)) ''python'' ''w'' [])) = 21"
  unfolding wheelhouse_exit by (simp add: PLATFORM_FAMILIES_def PYTHON_VERSIONS_def)

end
